(* ===== verification/Prelude.thy ===== *)
theory Prelude
  imports Main "HOL-Library.Word"
begin

unbundle bit_operations_syntax

text \<open>
  What the component theories share: the machine integers and pointers of the x86-64 build, the
  outcome of running a C function, the loops over linked lists, and the facts about them.

  A C function that reads or writes memory is a HOL function from a state to an
  \<open>outcome\<close>; a pointer is a 64-bit word with \<open>NULL\<close> the word 0; memory that holds structs of one
  type is a partial map from pointers to records.  Reading a pointer outside the map is
  undefined behaviour, the outcome \<open>Undef\<close>.
\<close>

section \<open>Machine integers and pointers\<close>

type_synonym u8 = "8 word"
type_synonym u16 = "16 word"
type_synonym u32 = "32 word"
type_synonym u64 = "64 word"
type_synonym i32 = "32 word"
type_synonym i64 = "64 word"
type_synonym ptr = "64 word"

abbreviation (input) NULL :: ptr where
  "NULL \<equiv> 0"

named_theorems outcome_simps \<open>unfolding the sequencing of outcomes\<close>
named_theorems chain_simps \<open>reading linked lists through their abstraction\<close>
named_theorems frame_simps \<open>what an operation leaves unchanged\<close>

section \<open>Outcomes\<close>

text \<open>
  \<open>Ret\<close>: the function returned; \<open>Raised\<close>: a Pup exception object left the function through
  \<open>_Unwind_RaiseException\<close>; \<open>Aborted\<close>: \<open>abort()\<close>, which is what \<open>ABORTF\<close>, \<open>ABORTF_ON\<close> and
  \<open>ABORT_ON\<close> of abortf.h end in; \<open>Exited\<close>: \<open>exit()\<close>; \<open>Undef\<close>: C's undefined behaviour (a
  dereference of a pointer to nothing, a shift past the width); \<open>Diverged\<close>: the call does not
  return.
\<close>

datatype ('a, 's) outcome =
    Ret 'a 's
  | Raised ptr 's
  | Aborted
  | Exited
  | Undef
  | Diverged

primrec andthen :: "('a, 's) outcome \<Rightarrow> ('a \<Rightarrow> 's \<Rightarrow> ('b, 's) outcome) \<Rightarrow> ('b, 's) outcome" where
  "andthen (Ret x s) f = f x s"
| "andthen (Raised e s) f = Raised e s"
| "andthen Aborted f = Aborted"
| "andthen Exited f = Exited"
| "andthen Undef f = Undef"
| "andthen Diverged f = Diverged"

text \<open>Reading through a pointer: undefined outside the mapped memory.\<close>

definition deref :: "'n option \<Rightarrow> ('n \<Rightarrow> ('a, 's) outcome) \<Rightarrow> ('a, 's) outcome" where
  "deref x f = (case x of None \<Rightarrow> Undef | Some n \<Rightarrow> f n)"

text \<open>\<open>ABORTF_ON\<close> and \<open>ABORT_ON\<close> of abortf.h: go on unless the condition holds.\<close>

definition abort_on :: "bool \<Rightarrow> ('a, 's) outcome \<Rightarrow> ('a, 's) outcome" where
  "abort_on c k = (if c then Aborted else k)"

text \<open>A loop is defined with an optional result, \<open>None\<close> for no result; as an outcome that is
  \<open>Diverged\<close>.\<close>

definition of_loop :: "('a, 's) outcome option \<Rightarrow> ('a, 's) outcome" where
  "of_loop r = (case r of None \<Rightarrow> Diverged | Some x \<Rightarrow> x)"

text \<open>An operation on a part of a larger state, as an operation on the whole.\<close>

primrec on_part :: "('s \<Rightarrow> 't) \<Rightarrow> ('a, 's) outcome \<Rightarrow> ('a, 't) outcome" where
  "on_part g (Ret x s) = Ret x (g s)"
| "on_part g (Raised e s) = Raised e (g s)"
| "on_part g Aborted = Aborted"
| "on_part g Exited = Exited"
| "on_part g Undef = Undef"
| "on_part g Diverged = Diverged"

lemma on_part_Ret_iff [outcome_simps]:
  "on_part g m = Ret x t \<longleftrightarrow> (\<exists>s. m = Ret x s \<and> t = g s)"
  by (cases m) auto

lemma on_part_Raised_iff [outcome_simps]:
  "on_part g m = Raised x t \<longleftrightarrow> (\<exists>s. m = Raised x s \<and> t = g s)"
  by (cases m) auto

lemma deref_Some [simp]: "deref (Some n) f = f n"
  by (simp add: deref_def)

lemma deref_None [simp]: "deref None f = Undef"
  by (simp add: deref_def)

lemma abort_on_False [simp]: "abort_on False k = k"
  by (simp add: abort_on_def)

lemma abort_on_True [simp]: "abort_on True k = Aborted"
  by (simp add: abort_on_def)

lemma of_loop_Some [simp]: "of_loop (Some x) = x"
  by (simp add: of_loop_def)

lemma of_loop_None [simp]: "of_loop None = Diverged"
  by (simp add: of_loop_def)

lemma andthen_Ret_iff [outcome_simps]:
  "andthen m f = Ret y t \<longleftrightarrow> (\<exists>x s. m = Ret x s \<and> f x s = Ret y t)"
  by (cases m) auto

lemma andthen_Raised_iff [outcome_simps]:
  "andthen m f = Raised e t \<longleftrightarrow>
     m = Raised e t \<or> (\<exists>x s. m = Ret x s \<and> f x s = Raised e t)"
  by (cases m) auto

lemma deref_Ret_iff [outcome_simps]:
  "deref x f = Ret y t \<longleftrightarrow> (\<exists>n. x = Some n \<and> f n = Ret y t)"
  by (cases x) auto

lemma deref_Raised_iff [outcome_simps]:
  "deref x f = Raised e t \<longleftrightarrow> (\<exists>n. x = Some n \<and> f n = Raised e t)"
  by (cases x) auto

lemma abort_on_Ret_iff [outcome_simps]:
  "abort_on c k = Ret y t \<longleftrightarrow> \<not> c \<and> k = Ret y t"
  by (simp add: abort_on_def)

lemma abort_on_Raised_iff [outcome_simps]:
  "abort_on c k = Raised e t \<longleftrightarrow> \<not> c \<and> k = Raised e t"
  by (simp add: abort_on_def)

lemma andthen_assoc:
  "andthen (andthen m f) g = andthen m (\<lambda>x s. andthen (f x s) g)"
  by (cases m) auto

lemma andthen_not_Diverged:
  "m \<noteq> Diverged \<Longrightarrow> (\<And>x s. m = Ret x s \<Longrightarrow> f x s \<noteq> Diverged) \<Longrightarrow> andthen m f \<noteq> Diverged"
  by (cases m) auto

section \<open>Linked lists\<close>

text \<open>
  The program's lists are all of one shape: a pointer to a struct whose \<open>next\<close> member points to
  the following one, \<open>NULL\<close> at the end.  \<open>chain m nx p xs\<close>: starting at \<open>p\<close> and following \<open>nx\<close>
  through the store \<open>m\<close>, the nodes are \<open>xs\<close>, in order, and the list ends.
\<close>

fun chain :: "(ptr \<rightharpoonup> 'n) \<Rightarrow> ('n \<Rightarrow> ptr) \<Rightarrow> ptr \<Rightarrow> ptr list \<Rightarrow> bool" where
  "chain m nx p [] = (p = NULL)"
| "chain m nx p (x # xs) =
     (p = x \<and> p \<noteq> NULL \<and> (case m p of None \<Rightarrow> False | Some n \<Rightarrow> chain m nx (nx n) xs))"

declare chain.simps(2) [simp del]

lemma chain_Cons [simp]:
  "chain m nx p (x # xs) \<longleftrightarrow>
     p = x \<and> x \<noteq> NULL \<and> (\<exists>n. m x = Some n \<and> chain m nx (nx n) xs)"
  by (auto simp: chain.simps(2) split: option.splits)

lemma chain_NULL [simp]: "chain m nx NULL xs \<longleftrightarrow> xs = []"
  by (cases xs) auto

lemma chain_Some:
  "m p = Some n \<Longrightarrow> p \<noteq> NULL \<Longrightarrow>
     chain m nx p xs \<longleftrightarrow> (\<exists>ys. xs = p # ys \<and> chain m nx (nx n) ys)"
  by (cases xs) auto

lemma chain_unique: "chain m nx p xs \<Longrightarrow> chain m nx p ys \<Longrightarrow> xs = ys"
proof (induction xs arbitrary: p ys)
  case Nil
  then show ?case by simp
next
  case (Cons x xs)
  then obtain n where n: "p = x" "x \<noteq> NULL" "m x = Some n" "chain m nx (nx n) xs"
    by auto
  with Cons.prems(2) obtain zs where "ys = x # zs" "chain m nx (nx n) zs"
    by (auto simp: chain_Some)
  with Cons.IH n(4) show ?case by simp
qed

lemma chain_in_dom: "chain m nx p xs \<Longrightarrow> x \<in> set xs \<Longrightarrow> x \<noteq> NULL \<and> x \<in> dom m"
  by (induction xs arbitrary: p) auto

lemma chain_suffix:
  "chain m nx p (xs @ y # ys) \<Longrightarrow> chain m nx y (y # ys)"
proof (induction xs arbitrary: p)
  case Nil
  then show ?case by auto
next
  case (Cons x xs)
  then show ?case by auto
qed

lemma chain_distinct: "chain m nx p xs \<Longrightarrow> distinct xs"
proof (induction xs arbitrary: p)
  case Nil
  show ?case by simp
next
  case (Cons x xs)
  then obtain n where n: "x \<noteq> NULL" "m x = Some n" "chain m nx (nx n) xs"
    by auto
  have "x \<notin> set xs"
  proof
    assume "x \<in> set xs"
    then obtain as bs where xs: "xs = as @ x # bs"
      by (blast dest: split_list)
    with n(3) have "chain m nx x (x # bs)"
      by (auto dest: chain_suffix)
    moreover have "chain m nx x (x # xs)"
      using n by simp
    ultimately have "x # bs = x # xs"
      by (rule chain_unique)
    with xs show False by simp
  qed
  with Cons.IH [OF n(3)] show ?case by simp
qed

lemma chain_cong:
  "(\<And>x. x \<in> set xs \<Longrightarrow> map_option nx (m x) = map_option nx (m' x)) \<Longrightarrow>
     chain m nx p xs = chain m' nx p xs"
proof (induction xs arbitrary: p)
  case Nil
  show ?case by simp
next
  case (Cons x xs)
  have IH: "chain m nx q xs = chain m' nx q xs" for q
    using Cons by simp
  show ?case
  proof (cases "p = x")
    case True
    have "map_option nx (m x) = map_option nx (m' x)"
      using Cons.prems by simp
    with IH True show ?thesis
      by (cases "m x"; cases "m' x") simp_all
  next
    case False
    then show ?thesis by simp
  qed
qed

lemma chain_upd_other [simp]:
  "a \<notin> set xs \<Longrightarrow> chain (m(a \<mapsto> n)) nx p xs = chain m nx p xs"
  by (rule chain_cong) auto

lemma chain_push:
  "chain m nx p xs \<Longrightarrow> a \<notin> set xs \<Longrightarrow> a \<noteq> NULL \<Longrightarrow> nx n = p \<Longrightarrow>
     chain (m(a \<mapsto> n)) nx a (a # xs)"
  by simp

text \<open>
  A search loop \<open>while (p) { if (test) return ...; p = p->next; }\<close>: the node where the
  test first holds, the end of the list, or a pointer to nothing.
\<close>

datatype found = Hit ptr | End | Wild

partial_function (option) search ::
    "(ptr \<rightharpoonup> 'n) \<Rightarrow> ('n \<Rightarrow> ptr) \<Rightarrow> (ptr \<Rightarrow> 'n \<Rightarrow> bool) \<Rightarrow> ptr \<Rightarrow> found option" where
  "search m nx test p =
     (if p = NULL then Some End
      else case m p of
        None \<Rightarrow> Some Wild
      | Some n \<Rightarrow> if test p n then Some (Hit p) else search m nx test (nx n))"

declare search.simps [code]

text \<open>The search as an outcome: what to do at a hit and at the end of the list.\<close>

definition searched ::
    "found option \<Rightarrow> (ptr \<Rightarrow> ('a, 's) outcome) \<Rightarrow> ('a, 's) outcome \<Rightarrow> ('a, 's) outcome" where
  "searched r hit miss =
     (case r of
        None \<Rightarrow> Diverged
      | Some (Hit p) \<Rightarrow> hit p
      | Some End \<Rightarrow> miss
      | Some Wild \<Rightarrow> Undef)"

lemma searched_simps [simp]:
  "searched None hit miss = Diverged"
  "searched (Some (Hit p)) hit miss = hit p"
  "searched (Some End) hit miss = miss"
  "searched (Some Wild) hit miss = Undef"
  by (simp_all add: searched_def)

definition node_test :: "(ptr \<rightharpoonup> 'n) \<Rightarrow> (ptr \<Rightarrow> 'n \<Rightarrow> bool) \<Rightarrow> ptr \<Rightarrow> bool" where
  "node_test m test x = (case m x of None \<Rightarrow> False | Some n \<Rightarrow> test x n)"

text \<open>On a list that ends, the search returns, and finds what \<open>List.find\<close> finds.\<close>

lemma search_chain [chain_simps]:
  "chain m nx p xs \<Longrightarrow>
     search m nx test p =
       Some (case find (node_test m test) xs of None \<Rightarrow> End | Some x \<Rightarrow> Hit x)"
proof (induction xs arbitrary: p)
  case Nil
  then show ?case by (simp add: search.simps)
next
  case (Cons x xs)
  then obtain n where n: "p = x" "x \<noteq> NULL" "m x = Some n" "chain m nx (nx n) xs"
    by auto
  with Cons.IH [OF n(4)] show ?case
    by (simp add: search.simps [of m nx test x] node_test_def)
qed

text \<open>A loop that runs a body at each node, reading the next pointer after the body.\<close>

partial_function (option) each_node ::
    "('s \<Rightarrow> ptr \<rightharpoonup> 'n) \<Rightarrow> ('n \<Rightarrow> ptr) \<Rightarrow> (ptr \<Rightarrow> 's \<Rightarrow> (unit, 's) outcome) \<Rightarrow> ptr \<Rightarrow> 's \<Rightarrow>
       (unit, 's) outcome option" where
  "each_node rd nx body p s =
     (if p = NULL then Some (Ret () s)
      else case body p s of
        Ret u s' \<Rightarrow>
          (case rd s' p of
             None \<Rightarrow> Some Undef
           | Some n \<Rightarrow> each_node rd nx body (nx n) s')
      | Raised e s' \<Rightarrow> Some (Raised e s')
      | Aborted \<Rightarrow> Some Aborted
      | Exited \<Rightarrow> Some Exited
      | Undef \<Rightarrow> Some Undef
      | Diverged \<Rightarrow> Some Diverged)"

declare each_node.simps [code]

text \<open>
  A loop \<open>while (true)\<close> around a compare-and-swap: a turn ends with the result of the loop, or with
  none and the loop goes round again.
\<close>

partial_function (option) retry ::
    "('s \<Rightarrow> ('a option, 's) outcome) \<Rightarrow> 's \<Rightarrow> ('a, 's) outcome option" where
  "retry body s =
     (case body s of
        Ret r s' \<Rightarrow> (case r of Some x \<Rightarrow> Some (Ret x s') | None \<Rightarrow> retry body s')
      | Raised e s' \<Rightarrow> Some (Raised e s')
      | Aborted \<Rightarrow> Some Aborted
      | Exited \<Rightarrow> Some Exited
      | Undef \<Rightarrow> Some Undef
      | Diverged \<Rightarrow> Some Diverged)"

declare retry.simps [code]

lemma retry_once: "body s = Ret (Some x) s' \<Longrightarrow> of_loop (retry body s) = Ret x s'"
  by (simp add: retry.simps)

lemma retry_Undef: "body s = Undef \<Longrightarrow> of_loop (retry body s) = Undef"
  by (simp add: retry.simps)

text \<open>
  A pointer to a pointer into a list: the address of the head member, or of the \<open>next\<close> member
  of a node.  The loop \<open>while (*pos && !test) pos = &(*pos)->next\<close> ends with the slot it
  stopped at and the pointer the slot holds.
\<close>

datatype slot = Head | Next ptr

datatype slot_found = At slot ptr | Astray

partial_function (option) find_slot ::
    "(ptr \<rightharpoonup> 'n) \<Rightarrow> ('n \<Rightarrow> ptr) \<Rightarrow> (ptr \<Rightarrow> 'n \<Rightarrow> bool) \<Rightarrow> slot \<Rightarrow> ptr \<Rightarrow> slot_found option" where
  "find_slot m nx test sl p =
     (if p = NULL then Some (At sl NULL)
      else case m p of
        None \<Rightarrow> Some Astray
      | Some n \<Rightarrow> if test p n then Some (At sl p) else find_slot m nx test (Next p) (nx n))"

declare find_slot.simps [code]

definition slotted ::
    "slot_found option \<Rightarrow> (slot \<Rightarrow> ptr \<Rightarrow> ('a, 's) outcome) \<Rightarrow> ('a, 's) outcome" where
  "slotted r k =
     (case r of
        None \<Rightarrow> Diverged
      | Some (At sl p) \<Rightarrow> k sl p
      | Some Astray \<Rightarrow> Undef)"

lemma slotted_simps [simp]:
  "slotted None k = Diverged"
  "slotted (Some (At sl p)) k = k sl p"
  "slotted (Some Astray) k = Undef"
  by (simp_all add: slotted_def)

definition last_slot :: "slot \<Rightarrow> ptr list \<Rightarrow> slot" where
  "last_slot sl xs = (if xs = [] then sl else Next (last xs))"

lemma last_slot_Nil [simp]: "last_slot sl [] = sl"
  by (simp add: last_slot_def)

lemma last_slot_Cons [simp]: "last_slot sl (x # xs) = last_slot (Next x) xs"
  by (simp add: last_slot_def)

lemma last_slot_in: "last_slot Head xs = Next x \<Longrightarrow> x \<in> set xs"
  by (auto simp: last_slot_def split: if_splits)

lemma find_slot_none [chain_simps]:
  "chain m nx p xs \<Longrightarrow> find (node_test m test) xs = None \<Longrightarrow>
     find_slot m nx test sl p = Some (At (last_slot sl xs) NULL)"
proof (induction xs arbitrary: p sl)
  case Nil
  then show ?case by (simp add: find_slot.simps)
next
  case (Cons x xs)
  then obtain n where n: "p = x" "x \<noteq> NULL" "m x = Some n" "chain m nx (nx n) xs"
    by auto
  with Cons.IH [OF n(4)] Cons.prems(2) show ?case
    by (auto simp: find_slot.simps [of m nx test sl x] node_test_def split: if_splits)
qed

lemma find_slot_some [chain_simps]:
  "chain m nx p xs \<Longrightarrow> find (node_test m test) xs = Some x \<Longrightarrow>
     \<exists>sl'. find_slot m nx test sl p = Some (At sl' x)"
proof (induction xs arbitrary: p sl)
  case Nil
  then show ?case by simp
next
  case (Cons y ys)
  then obtain n where n: "p = y" "y \<noteq> NULL" "m y = Some n" "chain m nx (nx n) ys"
    by auto
  with Cons.IH [OF n(4)] Cons.prems(2) show ?case
    by (auto simp: find_slot.simps [of m nx test sl y] node_test_def split: if_splits)
qed

text \<open>Storing a new last node through the slot at the end of the list.\<close>

lemma chain_snoc:
  assumes "chain m nx p xs" and "xs \<noteq> []" and "m (last xs) = Some n"
    and "nx n' = a" and "nx b = NULL" and "a \<notin> set xs" and "a \<noteq> NULL"
  shows "chain (m(a \<mapsto> b, last xs \<mapsto> n')) nx p (xs @ [a])"
  using assms
proof (induction xs arbitrary: p)
  case Nil
  then show ?case by simp
next
  case (Cons x xs)
  have d: "distinct (x # xs)"
    using Cons.prems(1) by (rule chain_distinct)
  show ?case
  proof (cases "xs = []")
    case True
    with Cons.prems show ?thesis by auto
  next
    case False
    with Cons.prems obtain k where k: "p = x" "x \<noteq> NULL" "m x = Some k" "chain m nx (nx k) xs"
      by auto
    have "(m(a \<mapsto> b, last xs \<mapsto> n')) x = Some k"
      using d False k Cons.prems by auto
    moreover have "chain (m(a \<mapsto> b, last xs \<mapsto> n')) nx (nx k) (xs @ [a])"
      by (rule Cons.IH [OF k(4) False]) (use Cons.prems False in simp_all)
    ultimately show ?thesis
      using k(1,2) False by (simp del: fun_upd_apply)
  qed
qed

section \<open>Memory from the C library\<close>

text \<open>
  What \<open>malloc\<close> will answer is a tape in the state: each answer a pointer, \<open>NULL\<close> for a failure,
  and the word the new block happens to hold (a member read before it is written has bits of
  that word).  An empty tape is exhausted memory.
\<close>

type_synonym tape = "(ptr \<times> u64) list"

fun malloc :: "tape \<Rightarrow> ptr \<times> u64 \<times> tape" where
  "malloc [] = (NULL, 0, [])"
| "malloc ((p, junk) # t) = (p, junk, t)"

text \<open>
  The documented behaviour of \<open>malloc\<close>: the blocks it will hand out are distinct, and none is a
  block that is still allocated (the set \<open>used\<close>).
\<close>

fun fresh_tape :: "tape \<Rightarrow> ptr set \<Rightarrow> bool" where
  "fresh_tape [] used = True"
| "fresh_tape ((p, junk) # t) used =
     (if p = NULL then fresh_tape t used else p \<notin> used \<and> fresh_tape t (insert p used))"

lemma fresh_tape_mono: "fresh_tape t used \<Longrightarrow> used' \<subseteq> used \<Longrightarrow> fresh_tape t used'"
proof (induction t used arbitrary: used' rule: fresh_tape.induct)
  case (1 used)
  show ?case by simp
next
  case (2 p junk t used)
  show ?case
  proof (cases "p = NULL")
    case True
    with "2.IH"(1) "2.prems" show ?thesis by simp
  next
    case False
    have "fresh_tape t (insert p used')"
      by (rule "2.IH"(2)) (use "2.prems" False in auto)
    with False "2.prems" show ?thesis by auto
  qed
qed

lemma fresh_tape_head:
  "fresh_tape t used \<Longrightarrow> malloc t = (p, junk, t') \<Longrightarrow> p \<noteq> NULL \<Longrightarrow>
     p \<notin> used \<and> fresh_tape t' (insert p used)"
  by (cases t) auto

lemma fresh_tape_next:
  "fresh_tape t used \<Longrightarrow> malloc t = (p, junk, t') \<Longrightarrow> fresh_tape t' used"
  by (cases t) (auto split: if_splits elim: fresh_tape_mono)

section \<open>Facts about machine words\<close>

lemma scast_scast_32_64 [simp]: "scast (scast (x :: 32 word) :: 64 word) = x"
  by (rule bit_word_eqI) (simp add: bit_simps)

lemma scast_32_64_eq_iff [simp]:
  "(scast (x :: 32 word) :: 64 word) = scast y \<longleftrightarrow> x = y"
  by (metis scast_scast_32_64)

end
