(* ===== verification/SymTable.thy ===== *)
theory SymTable
  imports Prelude
begin

text \<open>
  The symbol table (symtable.c): a linked list of malloc'ed entries, searched from the head, a
  new string going to the tail with the next number.  The table and the memory that malloc has
  left are the state of each operation.  A string is its characters: the table keeps the
  caller's pointer, and the callers pass literals.
\<close>

section \<open>The table and its operations\<close>

record sym_table_entry =
  sym :: i32
  str :: string
  ste_next :: ptr

record sym_table =
  next_sym :: i32
  st_head :: ptr
  st_entries :: "ptr \<rightharpoonup> sym_table_entry"

type_synonym sym_state = "sym_table \<times> tape"

definition pup_sym_table_create :: "tape \<Rightarrow> sym_table option \<times> tape" where
  "pup_sym_table_create t =
     (case malloc t of (p, junk, t') \<Rightarrow>
        if p = NULL then (None, t')
        else (Some \<lparr>next_sym = 1, st_head = NULL, st_entries = Map.empty\<rparr>, t'))"

text \<open>The loop reads the next pointer before it frees the entry.\<close>

partial_function (option) destroy_entries ::
    "ptr \<Rightarrow> (ptr \<rightharpoonup> sym_table_entry) \<Rightarrow> (unit, ptr \<rightharpoonup> sym_table_entry) outcome option" where
  "destroy_entries entry m =
     (if entry = NULL then Some (Ret () m)
      else case m entry of
        None \<Rightarrow> Some Undef
      | Some e \<Rightarrow> destroy_entries (ste_next e) (m(entry := None)))"

declare destroy_entries.simps [code]

definition pup_sym_table_destroy :: "sym_table \<Rightarrow> (unit, ptr \<rightharpoonup> sym_table_entry) outcome" where
  "pup_sym_table_destroy st = of_loop (destroy_entries (st_head st) (st_entries st))"

text \<open>\<open>NULL\<close> when malloc fails, else the address of the initialised entry.\<close>

definition entry_create :: "i32 \<Rightarrow> string \<Rightarrow> sym_state \<Rightarrow> ptr \<times> sym_state" where
  "entry_create y s = (\<lambda>(st, t).
     (case malloc t of (p, junk, t') \<Rightarrow>
        if p = NULL then (NULL, (st, t'))
        else (p, (st\<lparr>st_entries := (st_entries st)(p \<mapsto>
                        \<lparr>sym = y, str = s, ste_next = NULL\<rparr>)\<rparr>, t'))))"

definition find_entry :: "string \<Rightarrow> sym_table \<Rightarrow> slot_found option" where
  "find_entry s st = find_slot (st_entries st) ste_next (\<lambda>_ e. s = str e) Head (st_head st)"

text \<open>The assignment \<open>*entryp = entry\<close>.\<close>

fun store_entry :: "slot \<Rightarrow> ptr \<Rightarrow> sym_table \<Rightarrow> sym_table" where
  "store_entry Head p st = st\<lparr>st_head := p\<rparr>"
| "store_entry (Next a) p st =
     st\<lparr>st_entries := (st_entries st)(a := map_option (ste_next_update (\<lambda>_. p)) (st_entries st a))\<rparr>"

definition INT_MAX :: i32 where
  "INT_MAX = 2147483647"

text \<open>\<open>next_sym++\<close> at \<open>INT_MAX\<close> overflows; an entry that malloc could not give is then read
  through \<open>NULL\<close>.\<close>

definition pup_str_to_sym :: "string \<Rightarrow> sym_state \<Rightarrow> (i32, sym_state) outcome" where
  "pup_str_to_sym s = (\<lambda>(st, t).
     slotted (find_entry s st) (\<lambda>sl p.
       if p \<noteq> NULL then deref (st_entries st p) (\<lambda>e. Ret (sym e) (st, t))
       else if next_sym st = INT_MAX then Undef
       else case entry_create (next_sym st) s (st\<lparr>next_sym := next_sym st + 1\<rparr>, t) of
         (q, (st', t')) \<Rightarrow>
           (let st'' = store_entry sl q st'
            in deref (if q = NULL then None else st_entries st'' q)
                 (\<lambda>e. Ret (sym e) (st'', t')))))"

text \<open>The result is the boolean and, when true, the value of \<open>*result_sym\<close>.\<close>

definition pup_get_sym :: "string \<Rightarrow> sym_table \<Rightarrow> (i32 option, sym_table) outcome" where
  "pup_get_sym s st =
     slotted (find_entry s st) (\<lambda>sl p.
       if p \<noteq> NULL then deref (st_entries st p) (\<lambda>e. Ret (Some (sym e)) st)
       else Ret None st)"

definition pup_sym_to_str :: "sym_table \<Rightarrow> i32 \<Rightarrow> (string option, sym_table) outcome" where
  "pup_sym_to_str st y =
     searched (search (st_entries st) ste_next (\<lambda>_ e. sym e = y) (st_head st))
       (\<lambda>p. deref (st_entries st p) (\<lambda>e. Ret (Some (str e)) st))
       (Ret None st)"

section \<open>The abstract table: the list of interned strings\<close>

text \<open>
  Read through the list, a table is the strings it has interned, in order, the symbol of a
  string its position, from 1.
\<close>

fun entries_from :: "(ptr \<rightharpoonup> sym_table_entry) \<Rightarrow> ptr list \<Rightarrow> nat \<Rightarrow> string list \<Rightarrow> bool" where
  "entries_from m [] k ss = (ss = [])"
| "entries_from m (x # xs) k ss =
     (\<exists>e s ss'. m x = Some e \<and> ss = s # ss' \<and> str e = s \<and> sym e = of_nat k \<and>
        entries_from m xs (Suc k) ss')"

definition sym_table_is :: "sym_table \<Rightarrow> ptr list \<Rightarrow> string list \<Rightarrow> bool" where
  "sym_table_is st xs ss \<longleftrightarrow>
     chain (st_entries st) ste_next (st_head st) xs \<and>
     entries_from (st_entries st) xs 1 ss \<and>
     next_sym st = of_nat (Suc (length ss)) \<and>
     Suc (length ss) < 2 ^ 31 \<and> distinct ss \<and> dom (st_entries st) = set xs"

definition symbols :: "sym_state \<Rightarrow> string list \<Rightarrow> bool" where
  "symbols s ss \<longleftrightarrow>
     (\<exists>xs. sym_table_is (fst s) xs ss) \<and> fresh_tape (snd s) (dom (st_entries (fst s)))"

fun index_of :: "string \<Rightarrow> string list \<Rightarrow> nat option" where
  "index_of s [] = None"
| "index_of s (x # xs) = (if s = x then Some 0 else map_option Suc (index_of s xs))"

text \<open>What interning promises: the old symbol of an old string, the next symbol for a new one.\<close>

definition intern :: "string \<Rightarrow> string list \<Rightarrow> nat \<times> string list" where
  "intern s ss =
     (case index_of s ss of
        Some i \<Rightarrow> (Suc i, ss)
      | None \<Rightarrow> (Suc (length ss), ss @ [s]))"

lemma entries_from_length: "entries_from m xs k ss \<Longrightarrow> length ss = length xs"
  by (induction xs arbitrary: k ss) auto

lemma entries_from_append:
  "entries_from m (xs @ ys) k (ss @ ts) \<longleftrightarrow>
     entries_from m xs k ss \<and> entries_from m ys (k + length xs) ts"
  if "length ss = length xs"
  using that by (induction xs arbitrary: k ss) (auto simp: length_Suc_conv)

lemma entries_from_cong:
  assumes "\<And>x. x \<in> set xs \<Longrightarrow>
      map_option (\<lambda>e. (sym e, str e)) (m x) = map_option (\<lambda>e. (sym e, str e)) (m' x)"
  shows "entries_from m xs k ss = entries_from m' xs k ss"
  using assms
proof (induction xs arbitrary: k ss)
  case Nil
  show ?case by simp
next
  case (Cons x xs)
  have "map_option (\<lambda>e. (sym e, str e)) (m x) = map_option (\<lambda>e. (sym e, str e)) (m' x)"
    using Cons.prems by simp
  then show ?case
    using Cons by (cases "m x"; cases "m' x") auto
qed

lemma entries_from_nth:
  "entries_from m xs k ss \<Longrightarrow> i < length ss \<Longrightarrow>
     \<exists>e. m (xs ! i) = Some e \<and> str e = ss ! i \<and> sym e = of_nat (k + i)"
proof (induction xs arbitrary: k ss i)
  case Nil
  then show ?case by simp
next
  case (Cons x xs)
  then show ?case
    by (cases i) fastforce+
qed

text \<open>What the two search loops find.\<close>

lemma find_by_string:
  "entries_from m xs k ss \<Longrightarrow>
     find (node_test m (\<lambda>_ e. s = str e)) xs = map_option ((!) xs) (index_of s ss)"
proof (induction xs arbitrary: k ss)
  case Nil
  then show ?case by simp
next
  case (Cons x xs)
  then obtain e ss' where e: "m x = Some e" "ss = str e # ss'" "entries_from m xs (Suc k) ss'"
    by auto
  then show ?case
    using Cons.IH [OF e(3)]
    by (auto simp: node_test_def option.map_comp o_def)
qed

lemma of_nat_sym_inj:
  "(of_nat i :: i32) = of_nat j \<longleftrightarrow> i = j" if "i < 2 ^ 32" "j < 2 ^ 32"
  using that by (simp add: word_unat_eq_iff take_bit_nat_eq_self unat_of_nat)

lemma find_by_symbol:
  assumes "entries_from m xs k ss" and "k + length ss < 2 ^ 32" and "j < 2 ^ 32"
  shows "find (node_test m (\<lambda>_ e. sym e = of_nat j)) xs =
     (if k \<le> j \<and> j < k + length ss then Some (xs ! (j - k)) else None)"
  using assms
proof (induction xs arbitrary: k ss)
  case Nil
  then show ?case by auto
next
  case (Cons x xs)
  then obtain e ss' where e: "m x = Some e" "ss = str e # ss'" "sym e = of_nat k"
      "entries_from m xs (Suc k) ss'"
    by auto
  have "sym e = of_nat j \<longleftrightarrow> k = j"
    using e Cons.prems by (simp add: of_nat_sym_inj)
  then show ?case
    using Cons.IH [OF e(4)] Cons.prems e
    by (auto simp: node_test_def nth_Cons' Suc_le_eq Suc_diff_Suc)
qed

lemma index_of_Some: "index_of s ss = Some i \<Longrightarrow> i < length ss \<and> ss ! i = s"
  by (induction ss arbitrary: i) (auto split: if_splits)

lemma index_of_None: "index_of s ss = None \<longleftrightarrow> s \<notin> set ss"
  by (induction ss) auto

lemma index_of_nth: "distinct ss \<Longrightarrow> i < length ss \<Longrightarrow> index_of (ss ! i) ss = Some i"
  by (induction ss arbitrary: i) (auto simp: nth_Cons' split: if_splits)

lemma index_of_snoc: "s \<notin> set ss \<Longrightarrow> index_of s (ss @ [s]) = Some (length ss)"
  by (induction ss) auto

lemma intern_again: "intern s (snd (intern s ss)) = (fst (intern s ss), snd (intern s ss))"
  by (auto simp: intern_def index_of_None index_of_snoc split: option.splits)

lemma INT_MAX_of_nat: "(of_nat n :: i32) = INT_MAX \<longleftrightarrow> n = 2147483647" if "n < 2 ^ 32"
  using that of_nat_sym_inj [of n 2147483647] by (simp add: INT_MAX_def)

text \<open>A search for a string, and for a symbol, on a well-formed table.\<close>

lemma find_entry_old:
  assumes "sym_table_is st xs ss" and "index_of s ss = Some i"
  shows "\<exists>sl e. find_entry s st = Some (At sl (xs ! i)) \<and> xs ! i \<noteq> NULL \<and>
     st_entries st (xs ! i) = Some e \<and> sym e = of_nat (Suc i) \<and> str e = s"
proof -
  from assms(1) have c: "chain (st_entries st) ste_next (st_head st) xs"
    and e: "entries_from (st_entries st) xs 1 ss"
    by (auto simp: sym_table_is_def)
  from assms(2) have i: "i < length ss" "ss ! i = s"
    by (auto dest: index_of_Some)
  then have x: "xs ! i \<in> set xs"
    using entries_from_length [OF e] by simp
  have "find (node_test (st_entries st) (\<lambda>_ e. s = str e)) xs = Some (xs ! i)"
    using find_by_string [OF e] assms(2) by simp
  then have "\<exists>sl. find_entry s st = Some (At sl (xs ! i))"
    using c by (auto simp: find_entry_def dest: find_slot_some)
  then show ?thesis
    using entries_from_nth [OF e i(1)] i(2) chain_in_dom [OF c x] by auto
qed

lemma find_entry_new:
  assumes "sym_table_is st xs ss" and "index_of s ss = None"
  shows "find_entry s st = Some (At (last_slot Head xs) NULL)"
  using assms find_by_string [of "st_entries st" xs 1 ss s]
  by (simp add: sym_table_is_def find_entry_def find_slot_none)

text \<open>A new entry behind the slot at the end of the list.\<close>

definition appended :: "sym_table \<Rightarrow> ptr list \<Rightarrow> ptr \<Rightarrow> string \<Rightarrow> sym_table" where
  "appended st xs q s =
     store_entry (last_slot Head xs) q
       (st\<lparr>next_sym := next_sym st + 1,
           st_entries := (st_entries st)(q \<mapsto> \<lparr>sym = next_sym st, str = s, ste_next = NULL\<rparr>)\<rparr>)"

lemma appended_is:
  assumes st: "sym_table_is st xs ss" and new: "s \<notin> set ss"
    and room: "Suc (Suc (length ss)) < 2 ^ 31" and q: "q \<noteq> NULL" "q \<notin> dom (st_entries st)"
  shows "sym_table_is (appended st xs q s) (xs @ [q]) (ss @ [s])"
    and "st_entries (appended st xs q s) q =
           Some \<lparr>sym = of_nat (Suc (length ss)), str = s, ste_next = NULL\<rparr>"
    and "dom (st_entries (appended st xs q s)) = insert q (dom (st_entries st))"
proof -
  let ?m = "st_entries st" and ?n = "\<lparr>sym = next_sym st, str = s, ste_next = NULL\<rparr>"
  from st have c: "chain ?m ste_next (st_head st) xs" and e: "entries_from ?m xs 1 ss"
    and n: "next_sym st = of_nat (Suc (length ss))" and d: "distinct ss"
    and dm: "dom ?m = set xs"
    by (auto simp: sym_table_is_def)
  have len: "length ss = length xs"
    using e by (rule entries_from_length)
  have qx: "q \<notin> set xs"
    using c q(2) by (auto dest: chain_in_dom)
  have "sym_table_is (appended st xs q s) (xs @ [q]) (ss @ [s]) \<and>
     st_entries (appended st xs q s) q = Some ?n \<and>
     dom (st_entries (appended st xs q s)) = insert q (dom ?m)"
  proof (cases "xs = []")
    case True
    with c len n q(1) room dm show ?thesis
      by (auto simp: sym_table_is_def appended_def)
  next
    case False
    let ?l = "last xs"
    have l: "?l \<in> set xs"
      using False by simp
    then obtain k where k: "?m ?l = Some k"
      using c by (auto dest: chain_in_dom)
    have lq: "?l \<noteq> q"
      using l qx by auto
    let ?m' = "?m(q \<mapsto> ?n, ?l \<mapsto> k\<lparr>ste_next := q\<rparr>)"
    have st': "appended st xs q s = st\<lparr>next_sym := next_sym st + 1, st_entries := ?m'\<rparr>"
      using False k lq by (simp add: appended_def last_slot_def)
    have c': "chain ?m' ste_next (st_head st) (xs @ [q])"
      by (rule chain_snoc [OF c False k]) (use qx q in auto)
    have "entries_from ?m' xs 1 ss = entries_from ?m xs 1 ss"
      by (rule entries_from_cong) (use qx k in auto)
    then have e': "entries_from ?m' (xs @ [q]) 1 (ss @ [s])"
      using e lq n len by (simp add: entries_from_append)
    show ?thesis
      using c' e' n len room d new lq k dm l by (auto simp: st' sym_table_is_def)
  qed
  then show "sym_table_is (appended st xs q s) (xs @ [q]) (ss @ [s])"
    and "st_entries (appended st xs q s) q =
           Some \<lparr>sym = of_nat (Suc (length ss)), str = s, ste_next = NULL\<rparr>"
    and "dom (st_entries (appended st xs q s)) = insert q (dom (st_entries st))"
    using n by auto
qed

lemma pup_str_to_sym_old:
  assumes "sym_table_is st xs ss" and "index_of s ss = Some i"
  shows "pup_str_to_sym s (st, t) = Ret (of_nat (Suc i)) (st, t)"
  using find_entry_old [OF assms] by (auto simp: pup_str_to_sym_def)

lemma pup_str_to_sym_new:
  assumes "sym_table_is st xs ss" and "s \<notin> set ss"
    and "Suc (Suc (length ss)) < 2 ^ 31"
    and "malloc t = (q, junk, t')" and "q \<noteq> NULL" and "q \<notin> dom (st_entries st)"
  shows "pup_str_to_sym s (st, t) = Ret (of_nat (Suc (length ss))) (appended st xs q s, t')"
proof -
  have f: "find_entry s st = Some (At (last_slot Head xs) NULL)"
    by (rule find_entry_new) (use assms in \<open>simp_all add: index_of_None\<close>)
  have "next_sym st \<noteq> INT_MAX"
    using assms(1,3) INT_MAX_of_nat [of "Suc (length ss)"] by (simp add: sym_table_is_def)
  then show ?thesis
    using f assms(4,5) appended_is(2) [OF assms(1-3,5,6)]
    by (simp add: pup_str_to_sym_def entry_create_def appended_def Let_def)
qed

lemma pup_sym_to_str_spec:
  assumes "sym_table_is st xs ss" and "j < 2 ^ 32"
  shows "pup_sym_to_str st (of_nat j) =
     Ret (if 1 \<le> j \<and> j \<le> length ss then Some (ss ! (j - 1)) else None) st"
proof -
  from assms(1) have c: "chain (st_entries st) ste_next (st_head st) xs"
    and e: "entries_from (st_entries st) xs 1 ss" and b: "Suc (length ss) < 2 ^ 31"
    by (auto simp: sym_table_is_def)
  have f: "find (node_test (st_entries st) (\<lambda>_ e. sym e = of_nat j)) xs =
     (if 1 \<le> j \<and> j < 1 + length ss then Some (xs ! (j - 1)) else None)"
    by (rule find_by_symbol [OF e]) (use b assms(2) in auto)
  show ?thesis
  proof (cases "1 \<le> j \<and> j \<le> length ss")
    case True
    then have "j - 1 < length ss"
      by arith
    with entries_from_nth [OF e] True f show ?thesis
      by (fastforce simp: pup_sym_to_str_def search_chain [OF c])
  next
    case False
    with f show ?thesis
      by (auto simp: pup_sym_to_str_def search_chain [OF c])
  qed
qed

lemma pup_get_sym_spec:
  assumes "sym_table_is st xs ss"
  shows "pup_get_sym s st = Ret (map_option (\<lambda>i. of_nat (Suc i)) (index_of s ss)) st"
proof (cases "index_of s ss")
  case None
  with find_entry_new [OF assms None] show ?thesis
    by (simp add: pup_get_sym_def)
next
  case (Some i)
  with find_entry_old [OF assms Some] show ?thesis
    by (auto simp: pup_get_sym_def)
qed

lemma sym_table_full:
  assumes "sym_table_is st xs ss" and "s \<notin> set ss" and "\<not> Suc (Suc (length ss)) < 2 ^ 31"
  shows "pup_str_to_sym s (st, t) = Undef"
proof -
  have f: "find_entry s st = Some (At (last_slot Head xs) NULL)"
    by (rule find_entry_new) (use assms in \<open>simp_all add: index_of_None\<close>)
  have "Suc (length ss) = 2147483647"
    using assms(1,3) by (simp add: sym_table_is_def)
  then have "next_sym st = INT_MAX"
    using assms(1) INT_MAX_of_nat [of "Suc (length ss)"] by (simp add: sym_table_is_def)
  with f show ?thesis
    by (simp add: pup_str_to_sym_def)
qed

lemma symbols_step:
  assumes "symbols (st, t) ss" and "pup_str_to_sym s (st, t) = Ret y s'"
  shows "y = of_nat (fst (intern s ss)) \<and> symbols s' (snd (intern s ss))"
proof -
  from assms(1) obtain xs where st: "sym_table_is st xs ss" and t: "fresh_tape t (dom (st_entries st))"
    by (auto simp: symbols_def)
  show ?thesis
  proof (cases "index_of s ss")
    case (Some i)
    with pup_str_to_sym_old [OF st Some, of t] assms show ?thesis
      by (simp add: intern_def)
  next
    case None
    then have new: "s \<notin> set ss"
      by (simp add: index_of_None)
    have f: "find_entry s st = Some (At (last_slot Head xs) NULL)"
      by (rule find_entry_new [OF st None])
    have room: "Suc (Suc (length ss)) < 2 ^ 31"
      using sym_table_full [OF st new, of t] assms(2) by fastforce
    obtain q junk t' where m: "malloc t = (q, junk, t')"
      by (cases "malloc t") auto
    have q: "q \<noteq> NULL"
      using assms(2) f m by (auto simp: pup_str_to_sym_def entry_create_def split: if_splits)
    have fresh: "q \<notin> dom (st_entries st)" "fresh_tape t' (insert q (dom (st_entries st)))"
      using fresh_tape_head [OF t m q] by auto
    have r: "pup_str_to_sym s (st, t) = Ret (of_nat (Suc (length ss))) (appended st xs q s, t')"
      by (rule pup_str_to_sym_new [OF st new room m q fresh(1)])
    show ?thesis
      using r assms(2) None appended_is [OF st new room q fresh(1)] fresh(2)
      by (auto simp: intern_def symbols_def)
  qed
qed

section \<open>The interface: interning\<close>

text \<open>
  What the rest of the runtime relies on, stated for any state with the two operations: an
  abstraction to the list of interned strings that \<open>to_sym\<close> extends as \<open>intern\<close> does and
  \<open>to_str\<close> reads by position.
\<close>

locale interner =
  fixes abs :: "'s \<Rightarrow> string list \<Rightarrow> bool"
    and to_sym :: "string \<Rightarrow> 's \<Rightarrow> (i32, 's) outcome"
    and to_str :: "i32 \<Rightarrow> 's \<Rightarrow> (string option, 's) outcome"
  assumes to_sym: "abs s ss \<Longrightarrow> to_sym x s = Ret y s' \<Longrightarrow>
      y = of_nat (fst (intern x ss)) \<and> abs s' (snd (intern x ss))"
    and to_str: "abs s ss \<Longrightarrow> j < 2 ^ 32 \<Longrightarrow>
      to_str (of_nat j) s = Ret (if 1 \<le> j \<and> j \<le> length ss then Some (ss ! (j - 1)) else None) s"
    and bounded: "abs s ss \<Longrightarrow> length ss < 2 ^ 31 \<and> distinct ss"
begin

lemma intern_nth: "abs s ss \<Longrightarrow>
    1 \<le> fst (intern x ss) \<and> fst (intern x ss) \<le> length (snd (intern x ss)) \<and>
    snd (intern x ss) ! (fst (intern x ss) - 1) = x"
  by (auto simp: intern_def dest: index_of_Some split: option.splits)

lemma small: "abs s ss \<Longrightarrow> j \<le> length ss \<Longrightarrow> j < 2 ^ 32"
  by (drule bounded) simp

lemma roundtrip:
  assumes "abs s ss" and "to_sym x s = Ret y s'"
  shows "to_str y s' = Ret (Some x) s'"
proof -
  let ?k = "fst (intern x ss)"
  from to_sym [OF assms] have y: "y = of_nat ?k" and s': "abs s' (snd (intern x ss))"
    by auto
  have k: "?k < 2 ^ 32"
    using intern_nth [OF assms(1), of x] by (intro small [OF s']) simp
  show ?thesis
    using to_str [OF s' k] intern_nth [OF assms(1), of x] by (simp add: y)
qed

text \<open>Interning keeps every symbol that was given out before.\<close>

lemma stable:
  assumes "abs s ss" and "to_sym x s = Ret y s'" and "j < 2 ^ 32"
    and "to_str (of_nat j) s = Ret (Some z) s"
  shows "to_str (of_nat j) s' = Ret (Some z) s'"
proof -
  from assms(4) to_str [OF assms(1,3)] have j: "1 \<le> j" "j \<le> length ss" "ss ! (j - 1) = z"
    by (auto split: if_splits)
  have s': "abs s' (snd (intern x ss))"
    using to_sym [OF assms(1,2)] by simp
  have "j \<le> length (snd (intern x ss)) \<and> snd (intern x ss) ! (j - 1) = z"
    using j by (auto simp: intern_def nth_append split: option.splits)
  with to_str [OF s' assms(3)] j show ?thesis by simp
qed

text \<open>Two strings have one symbol exactly when they are equal.\<close>

lemma injective:
  assumes "abs s ss" and "to_sym x s = Ret y s1" and "to_sym x' s1 = Ret y' s2"
  shows "y = y' \<longleftrightarrow> x = x'"
proof -
  let ?k = "fst (intern x ss)" and ?ss = "snd (intern x ss)"
  let ?k' = "fst (intern x' ?ss)" and ?ss' = "snd (intern x' ?ss)"
  from to_sym [OF assms(1,2)] have y: "y = of_nat ?k" and s1: "abs s1 ?ss"
    by auto
  from to_sym [OF s1 assms(3)] have y': "y' = of_nat ?k'" and s2: "abs s2 ?ss'"
    by auto
  have k: "?k < 2 ^ 32" "?k' < 2 ^ 32"
    using intern_nth [OF assms(1), of x] small [OF s1, of ?k]
      intern_nth [OF s1, of x'] small [OF s2, of ?k'] by auto
  have "to_str y s2 = Ret (Some x) s2"
    unfolding y by (rule stable [OF s1 assms(3) k(1)]) (use roundtrip [OF assms(1,2)] y in simp)
  moreover have "to_str y' s2 = Ret (Some x') s2"
    by (rule roundtrip [OF s1 assms(3)])
  moreover have "?k = ?k'" if "x = x'"
    using that by (simp add: intern_again)
  ultimately show ?thesis
    using y y' by auto
qed

end

interpretation table: interner symbols pup_str_to_sym
    "\<lambda>y (st, t). on_part (\<lambda>st. (st, t)) (pup_sym_to_str st y)"
proof
  fix s ss x y s'
  assume "symbols s ss" and "pup_str_to_sym x s = Ret y s'"
  then show "y = of_nat (fst (intern x ss)) \<and> symbols s' (snd (intern x ss))"
    using symbols_step by (cases s) blast
next
  fix s ss and j :: nat
  assume "symbols s ss" and "j < 2 ^ 32"
  then show "(case s of (st, t) \<Rightarrow>
      on_part (\<lambda>st. (st, t)) (pup_sym_to_str st (of_nat j))) =
    Ret (if 1 \<le> j \<and> j \<le> length ss then Some (ss ! (j - 1)) else None) s"
    by (cases s) (auto simp: symbols_def pup_sym_to_str_spec)
next
  fix s ss
  assume "symbols s ss"
  then show "length ss < 2 ^ 31 \<and> distinct ss"
    by (auto simp: symbols_def sym_table_is_def)
qed

section \<open>Properties\<close>

lemma create_symbols:
  assumes "fresh_tape t used" and "pup_sym_table_create t = (Some st, t')"
  shows "symbols (st, t') []"
proof -
  obtain p junk t1 where m: "malloc t = (p, junk, t1)"
    by (cases "malloc t") auto
  with assms have st: "st = \<lparr>next_sym = 1, st_head = NULL, st_entries = Map.empty\<rparr>" and "t' = t1"
    by (auto simp: pup_sym_table_create_def split: if_splits)
  moreover have "fresh_tape t1 {}"
    using fresh_tape_next [OF assms(1) m] by (rule fresh_tape_mono) simp
  ultimately show ?thesis
    by (simp add: symbols_def sym_table_is_def)
qed

lemma destroy_entries_chain:
  "chain m ste_next p xs \<Longrightarrow> destroy_entries p m = Some (Ret () (m |` (- set xs)))"
proof (induction xs arbitrary: m p)
  case Nil
  then show ?case by (simp add: destroy_entries.simps)
next
  case (Cons x xs)
  then obtain e where e: "p = x" "x \<noteq> NULL" "m x = Some e" "chain m ste_next (ste_next e) xs"
    by auto
  have "x \<notin> set xs"
    using chain_distinct [OF Cons.prems] by simp
  then have "chain (m(x := None)) ste_next (ste_next e) xs"
    using e(4) chain_cong [of xs ste_next "m(x := None)" m] by fastforce
  moreover have "(m(x := None)) |` (- set xs) = m |` (- set (x # xs))"
    by (auto simp: restrict_map_def)
  ultimately show ?case
    using Cons.IH e by (simp add: destroy_entries.simps [of x] del: fun_upd_apply)
qed

text \<open>C16: Interning refines the abstract table of strings.  On a table that holds the strings
  \<open>ss\<close>, when malloc has a block (only a new string needs one) and there are symbols left,
  \<open>pup_str_to_sym\<close> returns the symbol the abstract \<open>intern\<close> gives (the old symbol of a string
  seen before, the next number for a new one) and leaves a table that holds the abstract
  result.\<close>

theorem pup_str_to_sym_refines_intern:
  assumes "symbols (st, t) ss"
    and "s \<in> set ss \<or> fst (malloc t) \<noteq> NULL \<and> Suc (Suc (length ss)) < 2 ^ 31"
  shows "\<exists>s'. pup_str_to_sym s (st, t) = Ret (of_nat (fst (intern s ss))) s' \<and>
     symbols s' (snd (intern s ss))"
proof -
  from assms(1) obtain xs where st: "sym_table_is st xs ss" and t: "fresh_tape t (dom (st_entries st))"
    by (auto simp: symbols_def)
  have "\<exists>y s'. pup_str_to_sym s (st, t) = Ret y s'"
  proof (cases "index_of s ss")
    case (Some i)
    with pup_str_to_sym_old [OF st Some] show ?thesis by blast
  next
    case None
    then have new: "s \<notin> set ss"
      by (simp add: index_of_None)
    obtain q junk t' where m: "malloc t = (q, junk, t')"
      by (cases "malloc t") auto
    with assms(2) new have "q \<noteq> NULL" and "Suc (Suc (length ss)) < 2 ^ 31"
      by auto
    moreover from this fresh_tape_head [OF t m] have "q \<notin> dom (st_entries st)"
      by blast
    ultimately show ?thesis
      using pup_str_to_sym_new [OF st new _ m] by blast
  qed
  with symbols_step [OF assms(1)] show ?thesis by blast
qed

definition demo_table :: sym_state where
  "demo_table = (\<lparr>next_sym = 1, st_head = NULL, st_entries = Map.empty\<rparr>, [(32, 0), (64, 0)])"

lemma demo_table_symbols: "symbols demo_table []"
  by (simp add: demo_table_def symbols_def sym_table_is_def)

lemma pup_str_to_sym_refines_intern_witness:
  "symbols demo_table [] \<and> fst (malloc (snd demo_table)) \<noteq> NULL \<and>
   (\<exists>s'. pup_str_to_sym ''foobar'' demo_table = Ret 1 s' \<and> symbols s' [''foobar''])"
  using pup_str_to_sym_refines_intern [of "fst demo_table" "snd demo_table" "[]" "''foobar''"]
    demo_table_symbols
  by (simp add: demo_table_def intern_def)

text \<open>C28: A symbol stands for its string: after \<open>pup_str_to_sym\<close> returned a symbol,
  \<open>pup_sym_to_str\<close> of it gives the string back, and \<open>pup_get_sym\<close> of the string finds it.\<close>

theorem symbol_string_roundtrip:
  assumes "symbols (st, t) ss" and "pup_str_to_sym x (st, t) = Ret y (st', t')"
  shows "pup_sym_to_str st' y = Ret (Some x) st' \<and> pup_get_sym x st' = Ret (Some y) st'"
proof -
  have str: "pup_sym_to_str st' y = Ret (Some x) st'"
    using table.roundtrip [OF assms] by (auto simp: outcome_simps)
  from symbols_step [OF assms] obtain xs where
    y: "y = of_nat (fst (intern x ss))" and st': "sym_table_is st' xs (snd (intern x ss))"
    by (auto simp: symbols_def)
  have "map_option Suc (index_of x (snd (intern x ss))) = Some (fst (intern x ss))"
    by (auto simp: intern_def index_of_None index_of_snoc split: option.splits)
  then obtain i where "index_of x (snd (intern x ss)) = Some i" "fst (intern x ss) = Suc i"
    by (cases "index_of x (snd (intern x ss))") simp_all
  then have "pup_get_sym x st' = Ret (Some y) st'"
    using pup_get_sym_spec [OF st', of x] y by simp
  with str show ?thesis by simp
qed

lemma symbol_string_roundtrip_witness:
  "\<exists>st' t'. pup_str_to_sym ''foobar'' demo_table = Ret 1 (st', t') \<and>
     pup_sym_to_str st' 1 = Ret (Some ''foobar'') st' \<and> pup_get_sym ''foobar'' st' = Ret (Some 1) st'"
proof -
  obtain st' t' where r: "pup_str_to_sym ''foobar'' demo_table = Ret 1 (st', t')"
    by (simp add: demo_table_def pup_str_to_sym_def find_entry_def find_slot.simps
        entry_create_def INT_MAX_def Let_def)
  show ?thesis
    using r symbol_string_roundtrip [of "fst demo_table" "snd demo_table" "[]" "''foobar''" 1 st' t']
      demo_table_symbols by simp
qed

text \<open>Two strings interned one after the other have the same symbol exactly when they are
  equal, and the first one keeps its symbol.\<close>

theorem symbols_distinguish_strings:
  assumes "symbols (st, t) ss"
    and "pup_str_to_sym x (st, t) = Ret y (st1, t1)"
    and "pup_str_to_sym x' (st1, t1) = Ret y' (st2, t2)"
  shows "(y = y' \<longleftrightarrow> x = x') \<and> pup_sym_to_str st2 y = Ret (Some x) st2"
proof
  show "y = y' \<longleftrightarrow> x = x'"
    by (rule table.injective [OF assms])
  have y: "y = of_nat (fst (intern x ss))" and s1: "symbols (st1, t1) (snd (intern x ss))"
    using symbols_step [OF assms(1,2)] by auto
  have k: "fst (intern x ss) < 2 ^ 32"
    using table.intern_nth [OF assms(1), of x] by (intro table.small [OF s1]) simp
  show "pup_sym_to_str st2 y = Ret (Some x) st2"
    using table.stable [OF s1 assms(3) k] table.roundtrip [OF assms(1,2)] y
    by (auto simp: outcome_simps)
qed

lemma symbols_distinguish_strings_witness:
  "\<exists>st1 t1 st2 t2.
     pup_str_to_sym ''foobar'' demo_table = Ret 1 (st1, t1) \<and>
     pup_str_to_sym ''barblat'' (st1, t1) = Ret 2 (st2, t2) \<and>
     ((1 :: i32) = 2 \<longleftrightarrow> ''foobar'' = ''barblat'') \<and> pup_sym_to_str st2 1 = Ret (Some ''foobar'') st2"
proof -
  obtain st1 t1 st2 t2 where
    r1: "pup_str_to_sym ''foobar'' demo_table = Ret 1 (st1, t1)" and
    r2: "pup_str_to_sym ''barblat'' (st1, t1) = Ret 2 (st2, t2)"
    by (simp add: demo_table_def pup_str_to_sym_def find_entry_def find_slot.simps
        entry_create_def INT_MAX_def Let_def)
  show ?thesis
    using r1 r2 demo_table_symbols
      symbols_distinguish_strings
        [of "fst demo_table" "snd demo_table" "[]" "''foobar''" 1 st1 t1 "''barblat''" 2 st2 t2]
    by (auto simp del: list.inject)
qed

text \<open>C29: \<open>pup_sym_table_destroy\<close> frees each entry once and leaves none behind.\<close>

theorem pup_sym_table_destroy_frees_all:
  assumes "symbols (st, t) ss"
  shows "pup_sym_table_destroy st = Ret () Map.empty"
  using assms destroy_entries_chain
  by (fastforce simp: symbols_def sym_table_is_def pup_sym_table_destroy_def restrict_map_def
      fun_eq_iff)

lemma pup_sym_table_destroy_frees_all_witness:
  "\<exists>st1 t1. pup_str_to_sym ''foobar'' demo_table = Ret 1 (st1, t1) \<and>
     st_entries st1 \<noteq> Map.empty \<and> pup_sym_table_destroy st1 = Ret () Map.empty"
proof -
  obtain st1 t1 where
    r: "pup_str_to_sym ''foobar'' demo_table = Ret 1 (st1, t1)" and ne: "st_entries st1 \<noteq> Map.empty"
    by (simp add: demo_table_def pup_str_to_sym_def find_entry_def find_slot.simps
        entry_create_def INT_MAX_def Let_def)
  have "symbols (st1, t1) [''foobar'']"
    using symbols_step [of "fst demo_table" "snd demo_table" "[]" "''foobar''" 1 "(st1, t1)"]
      r demo_table_symbols by (simp add: intern_def)
  with r ne pup_sym_table_destroy_frees_all [of st1 t1 "[''foobar'']"] show ?thesis by simp
qed

end
