(* ===== verification/Leb128.thy ===== *)
theory Leb128
  imports Prelude
begin

text \<open>
  The readers of raise.c: variable-length integers and encoded pointers of the exception tables
  (DWARF).  A reader takes the memory and the data pointer \<open>*data\<close>, which is its state; memory
  is a partial map of bytes, and a load outside it is undefined.
\<close>

section \<open>Memory\<close>

type_synonym mem = "ptr \<rightharpoonup> u8"

text \<open>A little-endian load of \<open>n\<close> bytes.\<close>

fun load_le :: "mem \<Rightarrow> ptr \<Rightarrow> nat \<Rightarrow> int option" where
  "load_le m p 0 = Some 0"
| "load_le m p (Suc n) =
     (case m p of
        None \<Rightarrow> None
      | Some b \<Rightarrow> map_option (\<lambda>r. uint b + 256 * r) (load_le m (p + 1) n))"

text \<open>The bytes stored from an address on.\<close>

fun bytes_at :: "mem \<Rightarrow> ptr \<Rightarrow> u8 list \<Rightarrow> bool" where
  "bytes_at m p [] = True"
| "bytes_at m p (b # bs) = (m p = Some b \<and> bytes_at m (p + 1) bs)"

lemma bytes_at_append:
  "bytes_at m p (bs @ cs) \<longleftrightarrow> bytes_at m p bs \<and> bytes_at m (p + of_nat (length bs)) cs"
  by (induction bs arbitrary: p) (auto simp: algebra_simps)

section \<open>LEB128\<close>

text \<open>
  \<open>byte & 0x7f\<close> is an \<open>int\<close>, so the shift is one of 32 bits, whatever the width of the count: the
  compilers the Makefile names shift into the sign bit and drop what leaves the word, and a count
  of 32 or more is undefined (\<open>None\<close>).
\<close>

definition int_shl :: "i32 \<Rightarrow> nat \<Rightarrow> i32 option" where
  "int_shl x n = (if n < 32 then Some (push_bit n x) else None)"

text \<open>
  The loop the two readers share: \<open>do { byte = *p++; result |= (byte & 0x7f) << shift;
  shift += 7; } while (byte & 0x80)\<close>.  Its result is \<open>result\<close>, the last \<open>byte\<close> and \<open>shift\<close>.
\<close>

function leb_loop :: "mem \<Rightarrow> u64 \<Rightarrow> nat \<Rightarrow> ptr \<Rightarrow> (u64 \<times> u8 \<times> nat, ptr) outcome" where
  "leb_loop m result shift p =
     (case m p of
        None \<Rightarrow> Undef
      | Some byte \<Rightarrow>
          (case int_shl (ucast (byte AND 0x7f)) shift of
             None \<Rightarrow> Undef
           | Some v \<Rightarrow>
               if byte AND 0x80 \<noteq> 0 then leb_loop m (result OR scast v) (shift + 7) (p + 1)
               else Ret (result OR scast v, byte, shift + 7) (p + 1)))"
  by pat_completeness auto
termination
  by (relation "measure (\<lambda>(m, result, shift, p). 32 - shift)")
    (auto simp: int_shl_def split: if_splits)

declare leb_loop.simps [simp del]

definition readULEB128 :: "mem \<Rightarrow> ptr \<Rightarrow> (u64, ptr) outcome" where
  "readULEB128 m data = andthen (leb_loop m 0 0 data) (\<lambda>(result, byte, shift) p. Ret result p)"

definition readSLEB128 :: "mem \<Rightarrow> ptr \<Rightarrow> (u64, ptr) outcome" where
  "readSLEB128 m data =
     andthen (leb_loop m 0 0 data) (\<lambda>(result, byte, shift) p.
       if byte AND 0x40 \<noteq> 0 \<and> shift < 64
       then deref (int_shl (- 1) shift) (\<lambda>v. Ret (result OR scast v) p)
       else Ret result p)"

subsection \<open>The encoding\<close>

text \<open>Seven bits to a byte, the low ones first, the top bit of a byte set when more follow.\<close>

fun leb_bytes :: "nat list \<Rightarrow> u8 list" where
  "leb_bytes [] = []"
| "leb_bytes [d] = [of_nat d]"
| "leb_bytes (d # ds) = of_nat (d + 128) # leb_bytes ds"

fun leb_value :: "nat list \<Rightarrow> nat" where
  "leb_value [] = 0"
| "leb_value (d # ds) = d + 128 * leb_value ds"

fun uleb_digits :: "nat \<Rightarrow> nat list" where
  "uleb_digits n = (if n < 128 then [n] else n mod 128 # uleb_digits (n div 128))"

function sleb_digits :: "int \<Rightarrow> nat list" where
  "sleb_digits i =
     (if - 64 \<le> i \<and> i < 64 then [nat (i mod 128)] else nat (i mod 128) # sleb_digits (i div 128))"
  by pat_completeness auto
termination
  by (relation "measure (\<lambda>i. nat (if i < 0 then - i - 1 else i))") auto

declare uleb_digits.simps [simp del]
declare sleb_digits.simps [simp del]

definition uleb :: "nat \<Rightarrow> u8 list" where
  "uleb n = leb_bytes (uleb_digits n)"

definition sleb :: "int \<Rightarrow> u8 list" where
  "sleb i = leb_bytes (sleb_digits i)"

lemma length_leb_bytes [simp]: "length (leb_bytes ds) = length ds"
  by (induction ds rule: leb_bytes.induct) auto

subsection \<open>One byte\<close>

lemma unat_low_bits: "unat (ucast ((w :: u8) AND 127) :: i32) = unat w mod 128"
proof -
  have "w AND 127 = take_bit 7 w"
    by (simp add: take_bit_eq_mask mask_eq_exp_minus_1)
  then have "unat (ucast (w AND 127) :: i32) = take_bit 7 (unat w)"
    by (simp add: unsigned_ucast_eq unsigned_take_bit_eq)
  then show ?thesis
    by (simp add: take_bit_eq_mod)
qed

lemma unat_byte: "k < 256 \<Longrightarrow> unat (of_nat k :: u8) = k"
  by (simp add: unsigned_of_nat take_bit_nat_eq_self)

lemma low_bits:
  "d < 128 \<Longrightarrow> (ucast ((of_nat d :: u8) AND 127) :: i32) = of_nat d"
  "d < 128 \<Longrightarrow> (ucast ((of_nat (d + 128) :: u8) AND 127) :: i32) = of_nat d"
  by (simp_all add: word_unat_eq_iff unat_low_bits unat_byte unsigned_of_nat take_bit_nat_eq_self
      del: of_nat_add)

lemma and_128: "(w :: u8) AND 128 = 0 \<longleftrightarrow> \<not> bit w 7"
  using and_exp_eq_0_iff_not_bit [of w 7] by simp

lemma and_64: "(w :: u8) AND 64 = 0 \<longleftrightarrow> \<not> bit w 6"
  using and_exp_eq_0_iff_not_bit [of w 6] by simp

lemma bit_byte: "bit (of_nat k :: u8) n \<longleftrightarrow> odd (k div 2 ^ n)" if "k < 256" "n < 8"
  using that bit_unsigned_iff [of "of_nat k :: u8" n, where 'a = nat] unat_byte [of k]
  by (simp add: bit_iff_odd [of k])

lemma more_bit:
  "d < 128 \<Longrightarrow> (of_nat d :: u8) AND 128 = 0"
  "d < 128 \<Longrightarrow> (of_nat (d + 128) :: u8) AND 128 \<noteq> 0"
proof -
  have "(d + 128) div 128 = 1" if "d < 128"
    using that by (simp add: div_add_self2)
  then show "d < 128 \<Longrightarrow> (of_nat d :: u8) AND 128 = 0"
    and "d < 128 \<Longrightarrow> (of_nat (d + 128) :: u8) AND 128 \<noteq> 0"
    by (simp_all add: and_128 bit_byte del: of_nat_add)
qed

lemma sint_of_nat_small: "sint (of_nat k :: i32) = int k" if "k < 2 ^ 31"
  using that by (simp add: signed_of_nat signed_take_bit_int_eq_self)

lemma scast_of_nat: "(scast (of_nat k :: i32) :: u64) = of_nat k" if "k < 2 ^ 31"
proof -
  have "(scast (of_nat k :: i32) :: u64) = word_of_int (sint (of_nat k :: i32))"
    by simp
  with sint_of_nat_small [OF that] show ?thesis by simp
qed

lemma or_of_nat: "(of_nat r OR of_nat (k * 2 ^ s) :: u64) = of_nat (r + k * 2 ^ s)" if "r < 2 ^ s"
proof -
  have "take_bit s r AND push_bit s k = 0"
    by (rule bit_eqI) (simp add: bit_simps)
  then have "r OR push_bit s k = r + push_bit s k"
    using that by (simp add: disjunctive_add_eq_or take_bit_nat_eq_self)
  then have "r OR k * 2 ^ s = r + k * 2 ^ s"
    by (simp add: push_bit_eq_mult)
  then show ?thesis
    by (metis of_nat_or_eq)
qed

text \<open>One turn of the loop.\<close>

lemma shl_digit:
  assumes "d * 2 ^ shift < 2 ^ 31" and "shift < 32"
  shows "int_shl (of_nat d) shift = Some (of_nat (d * 2 ^ shift))"
  using assms by (simp add: int_shl_def push_bit_of_nat push_bit_eq_mult)

lemma leb_turn:
  assumes "m p = Some b" and "ucast (b AND 127) = (of_nat d :: i32)" and "shift < 32"
    and "r < 2 ^ shift" and "d * 2 ^ shift < 2 ^ 31"
  shows "leb_loop m (of_nat r) shift p =
     (if b AND 128 \<noteq> 0 then leb_loop m (of_nat (r + d * 2 ^ shift)) (shift + 7) (p + 1)
      else Ret (of_nat (r + d * 2 ^ shift), b, shift + 7) (p + 1))"
  using assms
  by (simp add: leb_loop.simps [of m _ shift p] shl_digit scast_of_nat or_of_nat
      del: of_nat_add of_nat_mult)

text \<open>The loop over the digits of a value below \<open>2\<^sup>3\<^sup>1\<close>: each digit lands in its place.\<close>

lemma leb_loop_digits:
  assumes "bytes_at m p (leb_bytes ds)" and "ds \<noteq> []" and "\<forall>d \<in> set ds. d < 128"
    and "shift + 7 * (length ds - 1) < 32" and "r < 2 ^ shift"
    and "leb_value ds * 2 ^ shift < 2 ^ 31"
  shows "leb_loop m (of_nat r) shift p =
     Ret (of_nat (r + leb_value ds * 2 ^ shift), of_nat (last ds), shift + 7 * length ds)
       (p + of_nat (length ds))"
  using assms
proof (induction ds arbitrary: p r shift rule: leb_bytes.induct)
  case 1
  then show ?case by simp
next
  case (2 d)
  then show ?case
    using leb_turn [of m p "of_nat d" d shift r] by (simp add: low_bits more_bit)
next
  case (3 d d' ds)
  let ?ds = "d' # ds"
  let ?v = "leb_value ?ds"
  have d: "d < 128"
    using "3.prems" by simp
  have val: "leb_value (d # ?ds) * 2 ^ shift = d * 2 ^ shift + ?v * 2 ^ (shift + 7)"
    by (simp add: power_add algebra_simps)
  have r: "r + d * 2 ^ shift < 2 ^ (shift + 7)"
  proof -
    have "d * 2 ^ shift \<le> 127 * 2 ^ shift"
      using d by (intro mult_right_mono) simp_all
    moreover have "(2 :: nat) ^ (shift + 7) = 128 * 2 ^ shift"
      by (simp add: power_add)
    ultimately show ?thesis
      using "3.prems"(5) by linarith
  qed
  have "leb_loop m (of_nat r) shift p = leb_loop m (of_nat (r + d * 2 ^ shift)) (shift + 7) (p + 1)"
    using leb_turn [of m p "of_nat (d + 128)" d shift r] "3.prems" d val more_bit(2) [OF d]
    by (simp add: low_bits del: of_nat_add)
  also have "\<dots> = Ret (of_nat (r + d * 2 ^ shift + ?v * 2 ^ (shift + 7)), of_nat (last ?ds),
      shift + 7 + 7 * length ?ds) (p + 1 + of_nat (length ?ds))"
    using "3.prems" r val by (intro "3.IH") auto
  also have "r + d * 2 ^ shift + ?v * 2 ^ (shift + 7) = r + leb_value (d # ?ds) * 2 ^ shift"
    using val by simp
  finally show ?case
    by (simp add: algebra_simps del: of_nat_add of_nat_mult leb_value.simps)
qed

subsection \<open>The digits of a number\<close>

lemma uleb_digits_facts:
  "uleb_digits n \<noteq> [] \<and> (\<forall>d \<in> set (uleb_digits n). d < 128) \<and> leb_value (uleb_digits n) = n"
proof (induction n rule: uleb_digits.induct)
  case (1 n)
  then show ?case
    by (cases "n < 128") (auto simp: uleb_digits.simps [of n])
qed

lemma uleb_digits_length: "n < 128 ^ k \<Longrightarrow> 0 < k \<Longrightarrow> length (uleb_digits n) \<le> k"
proof (induction n arbitrary: k rule: uleb_digits.induct)
  case (1 n)
  show ?case
  proof (cases "n < 128")
    case True
    with "1.prems" show ?thesis by (simp add: uleb_digits.simps [of n])
  next
    case False
    with "1.prems" obtain j where k: "k = Suc j" "0 < j"
      by (cases k; cases "k - 1") auto
    with "1.prems" have "n div 128 < 128 ^ j"
      by (simp add: less_mult_imp_div_less mult.commute)
    with "1.IH" [OF False] k False show ?thesis
      by (simp add: uleb_digits.simps [of n])
  qed
qed

lemma sleb_digits_facts:
  "sleb_digits i \<noteq> [] \<and> (\<forall>d \<in> set (sleb_digits i). d < 128) \<and>
   int (leb_value (sleb_digits i)) = i mod 2 ^ (7 * length (sleb_digits i)) \<and>
   (64 \<le> last (sleb_digits i) \<longleftrightarrow> i < 0)"
proof (induction i rule: sleb_digits.induct)
  case (1 i)
  show ?case
  proof (cases "- 64 \<le> i \<and> i < 64")
    case True
    then have "i mod 128 = (if i < 0 then i + 128 else i)"
      by presburger
    with True show ?thesis
      by (auto simp: sleb_digits.simps [of i] nat_less_iff)
  next
    case False
    let ?ds = "sleb_digits (i div 128)"
    from "1.IH" [OF False] have IH: "?ds \<noteq> []" "\<forall>d \<in> set ?ds. d < 128"
        "int (leb_value ?ds) = (i div 128) mod 2 ^ (7 * length ?ds)"
        "64 \<le> last ?ds \<longleftrightarrow> i div 128 < 0"
      by auto
    have "i mod (128 * 2 ^ (7 * length ?ds)) =
        128 * (i div 128 mod 2 ^ (7 * length ?ds)) + i mod 128"
      by (rule zmod_zmult2_eq) simp
    then show ?thesis
      using IH False by (auto simp: sleb_digits.simps [of i] power_add nat_less_iff)
  qed
qed

lemma div_128_range: "- (128 * M) \<le> i \<and> i < 128 * M \<longleftrightarrow> - M \<le> i div 128 \<and> i div 128 < M"
  for i M :: int
proof -
  have "i = 128 * (i div 128) + i mod 128" and "0 \<le> i mod 128" and "i mod 128 < 128"
    by simp_all
  then show ?thesis by linarith
qed

lemma sleb_digits_range:
  "- (2 ^ (7 * length (sleb_digits i) - 1)) \<le> i \<and> i < 2 ^ (7 * length (sleb_digits i) - 1)"
proof (induction i rule: sleb_digits.induct)
  case (1 i)
  show ?case
  proof (cases "- 64 \<le> i \<and> i < 64")
    case True
    then show ?thesis by (simp add: sleb_digits.simps [of i])
  next
    case False
    let ?n = "7 * length (sleb_digits (i div 128))"
    have n: "0 < ?n"
      using sleb_digits_facts [of "i div 128"] by simp
    then obtain j where j: "?n = Suc j"
      using not0_implies_Suc by blast
    have p: "(2 :: int) ^ (7 + ?n - 1) = 128 * 2 ^ (?n - 1)"
      unfolding j by (simp add: power_add)
    have "7 * length (sleb_digits i) = 7 + ?n"
      using False by (subst sleb_digits.simps) auto
    then show ?thesis
      using "1.IH" [OF False] by (simp only: p div_128_range)
  qed
qed

lemma sleb_digits_length:
  "- (2 ^ (7 * k - 1)) \<le> i \<Longrightarrow> i < 2 ^ (7 * k - 1) \<Longrightarrow> 0 < k \<Longrightarrow> length (sleb_digits i) \<le> k"
proof (induction i arbitrary: k rule: sleb_digits.induct)
  case (1 i)
  show ?case
  proof (cases "- 64 \<le> i \<and> i < 64")
    case True
    with "1.prems" show ?thesis by (simp add: sleb_digits.simps [of i])
  next
    case False
    have "k \<noteq> 1"
      using "1.prems" False by auto
    with "1.prems"(3) obtain j where k: "k = Suc (Suc j)"
      by (metis One_nat_def not0_implies_Suc not_gr0)
    have p: "(2 :: int) ^ (7 * k - 1) = 128 * 2 ^ (7 * Suc j - 1)"
      unfolding k by (simp add: power_add)
    have "- (2 ^ (7 * Suc j - 1)) \<le> i div 128 \<and> i div 128 < 2 ^ (7 * Suc j - 1)"
      using "1.prems" by (simp only: p div_128_range [symmetric])
    then have "length (sleb_digits (i div 128)) \<le> Suc j"
      by (intro "1.IH" [OF False]) auto
    with False k show ?thesis
      by (simp add: sleb_digits.simps [of i])
  qed
qed

subsection \<open>Reading what was encoded\<close>

lemma leb_loop_start:
  assumes "bytes_at m p (leb_bytes ds)" and "ds \<noteq> []" and "\<forall>d \<in> set ds. d < 128"
    and "length ds \<le> 5" and "leb_value ds < 2 ^ 31"
  shows "leb_loop m 0 0 p =
     Ret (of_nat (leb_value ds), of_nat (last ds), 7 * length ds) (p + of_nat (length ds))"
proof -
  have "0 + 7 * (length ds - 1) < 32"
    using assms(4) by arith
  then show ?thesis
    using leb_loop_digits [of m p ds 0 0] assms by simp
qed

lemma read_uleb:
  assumes "n < 2 ^ 31" and "bytes_at m p (uleb n)"
  shows "readULEB128 m p = Ret (of_nat n) (p + of_nat (length (uleb n)))"
proof -
  have len: "length (uleb_digits n) \<le> 5"
    by (rule uleb_digits_length) (use assms(1) in simp_all)
  have v: "leb_value (uleb_digits n) = n"
    using uleb_digits_facts [of n] by simp
  have "leb_loop m 0 0 p =
     Ret (of_nat (leb_value (uleb_digits n)), of_nat (last (uleb_digits n)), 7 * length (uleb_digits n))
       (p + of_nat (length (uleb_digits n)))"
    by (rule leb_loop_start)
      (use assms(2) len uleb_digits_facts [of n] in \<open>simp_all add: uleb_def assms(1) [simplified]\<close>)
  then show ?thesis
    unfolding readULEB128_def v by (simp add: uleb_def)
qed

lemma sign_extend:
  assumes "k < 2 ^ s" and "s < 32"
  shows "(of_nat k :: u64) OR scast (push_bit s (- 1 :: i32)) = of_int (int k - 2 ^ s)"
proof -
  have "(scast (push_bit s (- 1 :: i32)) :: u64) = push_bit s (- 1)"
    using assms(2) by (intro bit_word_eqI) (auto simp: bit_simps)
  moreover have "take_bit s (of_nat k) = (of_nat k :: u64)"
    using assms by (simp flip: of_nat_take_bit add: take_bit_nat_eq_self)
  moreover have "take_bit s (of_nat k :: u64) AND push_bit s (- 1) = 0"
    by (rule bit_eqI) (simp add: bit_simps)
  ultimately show ?thesis
    by (simp add: disjunctive_add_eq_or [symmetric] push_bit_eq_mult)
qed

lemma odd_div_64: "odd (k div 64) \<longleftrightarrow> 64 \<le> k" if "k < 128" for k :: nat
proof (cases "64 \<le> k")
  case True
  then have "k div 64 = 1"
    by (intro div_nat_eqI) (use that in simp_all)
  with True show ?thesis by simp
next
  case False
  then show ?thesis by simp
qed

text \<open>What the digits of a signed number are worth without their sign.\<close>

lemma sleb_value:
  defines "v i \<equiv> leb_value (sleb_digits i)" and "w i \<equiv> 7 * length (sleb_digits i)"
  shows "int (v i) = (if i < 0 then i + 2 ^ w i else i)" "v i < 2 ^ w i"
proof -
  have ds: "sleb_digits i \<noteq> []" "int (v i) = i mod 2 ^ w i"
    using sleb_digits_facts [of i] by (auto simp: v_def w_def)
  have range: "- (2 ^ (w i - 1)) \<le> i" "i < 2 ^ (w i - 1)"
    using sleb_digits_range [of i] by (auto simp: w_def)
  have half: "(2 :: int) ^ (w i - 1) < 2 ^ w i"
    using ds(1) by (intro power_strict_increasing) (auto simp: w_def)
  show "int (v i) = (if i < 0 then i + 2 ^ w i else i)"
  proof (cases "i < 0")
    case True
    have "i mod 2 ^ w i = (i + 2 ^ w i) mod 2 ^ w i"
      by simp
    also have "\<dots> = i + 2 ^ w i"
      by (rule mod_pos_pos_trivial) (use True range half in linarith)+
    finally show ?thesis
      using True ds(2) by simp
  next
    case False
    have "i mod 2 ^ w i = i"
      by (rule mod_pos_pos_trivial) (use False range half in linarith)+
    with False ds(2) show ?thesis by simp
  qed
  have "int (v i) < 2 ^ w i"
    unfolding ds(2) by simp
  then show "v i < 2 ^ w i"
    by (metis of_nat_less_numeral_power_cancel_iff)
qed

lemma read_sleb:
  assumes "- (2 ^ 27) \<le> i" and "i < 2 ^ 31" and "bytes_at m p (sleb i)"
  shows "readSLEB128 m p = Ret (of_int i) (p + of_nat (length (sleb i)))"
proof -
  let ?ds = "sleb_digits i"
  let ?s = "7 * length ?ds"
  from sleb_digits_facts [of i] have ds: "?ds \<noteq> []" "\<forall>d \<in> set ?ds. d < 128" "64 \<le> last ?ds \<longleftrightarrow> i < 0"
    by auto
  have len: "length ?ds \<le> 5"
    by (rule sleb_digits_length) (use assms in simp_all)
  have neg: "length ?ds \<le> 4" if "i < 0"
    by (rule sleb_digits_length) (use assms that in simp_all)
  note val = sleb_value [of i]
  have "leb_value ?ds < 2 ^ 31"
  proof (cases "i < 0")
    case True
    have "(2 :: nat) ^ ?s \<le> 2 ^ 28"
      by (rule power_increasing) (use neg [OF True] in simp_all)
    with val(2) show ?thesis by simp
  next
    case False
    with val(1) assms(2) show ?thesis by simp
  qed
  then have l: "leb_loop m 0 0 p =
      Ret (of_nat (leb_value ?ds), of_nat (last ?ds), ?s) (p + of_nat (length ?ds))"
    by (intro leb_loop_start) (use assms(3) ds len in \<open>simp_all add: sleb_def\<close>)
  have "last ?ds < 128"
    using ds(1,2) by simp
  then have bit: "(of_nat (last ?ds) :: u8) AND 64 \<noteq> 0 \<longleftrightarrow> i < 0"
    using ds(3) odd_div_64 by (simp add: and_64 bit_byte)
  show ?thesis
  proof (cases "i < 0")
    case True
    then have "int_shl (- 1) ?s = Some (push_bit ?s (- 1))"
      using neg by (simp add: int_shl_def)
    moreover have "(of_nat (leb_value ?ds) :: u64) OR scast (push_bit ?s (- 1 :: i32)) = of_int i"
      using sign_extend [OF val(2)] neg [OF True] val(1) True by simp
    ultimately show ?thesis
      using l bit True neg by (simp add: readSLEB128_def sleb_def)
  next
    case False
    have "(of_nat (leb_value ?ds) :: u64) = of_int i"
      using val(1) False by (metis of_int_of_nat_eq)
    with l bit False show ?thesis
      by (simp add: readSLEB128_def sleb_def)
  qed
qed

section \<open>Encoded pointers\<close>

text \<open>The encodings of dwarf.h.\<close>

definition DW_EH_PE_absptr :: u8 where "DW_EH_PE_absptr = 0x00"
definition DW_EH_PE_omit :: u8 where "DW_EH_PE_omit = 0xff"
definition DW_EH_PE_uleb128 :: u8 where "DW_EH_PE_uleb128 = 0x01"
definition DW_EH_PE_udata2 :: u8 where "DW_EH_PE_udata2 = 0x02"
definition DW_EH_PE_udata4 :: u8 where "DW_EH_PE_udata4 = 0x03"
definition DW_EH_PE_udata8 :: u8 where "DW_EH_PE_udata8 = 0x04"
definition DW_EH_PE_sleb128 :: u8 where "DW_EH_PE_sleb128 = 0x09"
definition DW_EH_PE_sdata2 :: u8 where "DW_EH_PE_sdata2 = 0x0A"
definition DW_EH_PE_sdata4 :: u8 where "DW_EH_PE_sdata4 = 0x0B"
definition DW_EH_PE_sdata8 :: u8 where "DW_EH_PE_sdata8 = 0x0C"
definition DW_EH_PE_pcrel :: u8 where "DW_EH_PE_pcrel = 0x10"
definition DW_EH_PE_indirect :: u8 where "DW_EH_PE_indirect = 0x80"

lemmas dw_eh_pe_defs =
  DW_EH_PE_absptr_def DW_EH_PE_omit_def DW_EH_PE_uleb128_def DW_EH_PE_udata2_def
  DW_EH_PE_udata4_def DW_EH_PE_udata8_def DW_EH_PE_sleb128_def DW_EH_PE_sdata2_def
  DW_EH_PE_sdata4_def DW_EH_PE_sdata8_def DW_EH_PE_pcrel_def DW_EH_PE_indirect_def

text \<open>\<open>*((uintN_t* )p)\<close> and \<open>p += sizeof(uintN_t)\<close>: the value converted to \<open>uintptr_t\<close> by \<open>conv\<close>.\<close>

definition read_data :: "mem \<Rightarrow> nat \<Rightarrow> (int \<Rightarrow> u64) \<Rightarrow> ptr \<Rightarrow> (u64, ptr) outcome" where
  "read_data m n conv p = deref (load_le m p n) (\<lambda>v. Ret (conv v) (p + of_nat n))"

text \<open>The first switch, on the low four bits.\<close>

definition read_value :: "mem \<Rightarrow> ptr \<Rightarrow> u8 \<Rightarrow> (u64, ptr) outcome" where
  "read_value m p form =
     (if form = DW_EH_PE_absptr then read_data m 8 of_int p
      else if form = DW_EH_PE_uleb128 then readULEB128 m p
      else if form = DW_EH_PE_sleb128 then readSLEB128 m p
      else if form = DW_EH_PE_udata2 then read_data m 2 (\<lambda>v. ucast (of_int v :: u16)) p
      else if form = DW_EH_PE_udata4 then read_data m 4 (\<lambda>v. ucast (of_int v :: u32)) p
      else if form = DW_EH_PE_udata8 then read_data m 8 of_int p
      else if form = DW_EH_PE_sdata2 then read_data m 2 (\<lambda>v. scast (of_int v :: u16)) p
      else if form = DW_EH_PE_sdata4 then read_data m 4 (\<lambda>v. scast (of_int v :: u32)) p
      else if form = DW_EH_PE_sdata8 then read_data m 8 of_int p
      else Aborted)"

text \<open>The value, then the relative offset, then the indirection.\<close>

definition readEncodedPointer :: "mem \<Rightarrow> ptr \<Rightarrow> u8 \<Rightarrow> (u64, ptr) outcome" where
  "readEncodedPointer m data encoding =
     (if encoding = DW_EH_PE_omit then Ret 0 data
      else
        andthen
          (read_value m data (encoding AND 0x0F))
          (\<lambda>result p.
             andthen
               (let relative = encoding AND 0x70 in
                if relative = DW_EH_PE_absptr then Ret result p
                else if relative = DW_EH_PE_pcrel then Ret (result + data) p
                else Aborted)
               (\<lambda>result p.
                  if encoding AND DW_EH_PE_indirect \<noteq> 0
                  then deref (load_le m result 8) (\<lambda>v. Ret (of_int v) p)
                  else Ret result p)))"

text \<open>The bytes of a little-endian integer.\<close>

fun le_bytes :: "nat \<Rightarrow> int \<Rightarrow> u8 list" where
  "le_bytes 0 v = []"
| "le_bytes (Suc n) v = of_int (v mod 256) # le_bytes n (v div 256)"

lemma length_le_bytes [simp]: "length (le_bytes n v) = n"
  by (induction n arbitrary: v) auto

lemma le_bytes_numeral [simp]:
  "le_bytes (numeral k) v = of_int (v mod 256) # le_bytes (pred_numeral k) (v div 256)"
  by (simp add: numeral_eq_Suc)

lemma load_le_bytes: "bytes_at m p (le_bytes n v) \<Longrightarrow> load_le m p n = Some (v mod 2 ^ (8 * n))"
proof (induction n arbitrary: p v)
  case 0
  then show ?case by simp
next
  case (Suc n)
  have "v mod (256 * 2 ^ (8 * n)) = 256 * (v div 256 mod 2 ^ (8 * n)) + v mod 256"
    by (rule zmod_zmult2_eq) simp
  moreover have "uint (of_int (v mod 256) :: u8) = v mod 256"
    by (simp add: uint_word_of_int)
  ultimately show ?case
    using Suc by (simp add: power_add)
qed

text \<open>How a producer of the tables writes a value in a form, if the form can hold it.\<close>

definition pointer_bytes :: "u8 \<Rightarrow> int \<Rightarrow> u8 list option" where
  "pointer_bytes form v =
     (if form = DW_EH_PE_absptr then
        (if 0 \<le> v \<and> v < 2 ^ 64 then Some (le_bytes 8 v) else None)
      else if form = DW_EH_PE_uleb128 then
        (if 0 \<le> v \<and> v < 2 ^ 31 then Some (uleb (nat v)) else None)
      else if form = DW_EH_PE_sleb128 then
        (if - (2 ^ 27) \<le> v \<and> v < 2 ^ 31 then Some (sleb v) else None)
      else if form = DW_EH_PE_udata2 then
        (if 0 \<le> v \<and> v < 2 ^ 16 then Some (le_bytes 2 v) else None)
      else if form = DW_EH_PE_udata4 then
        (if 0 \<le> v \<and> v < 2 ^ 32 then Some (le_bytes 4 v) else None)
      else if form = DW_EH_PE_udata8 then
        (if 0 \<le> v \<and> v < 2 ^ 64 then Some (le_bytes 8 v) else None)
      else if form = DW_EH_PE_sdata2 then
        (if - (2 ^ 15) \<le> v \<and> v < 2 ^ 15 then Some (le_bytes 2 v) else None)
      else if form = DW_EH_PE_sdata4 then
        (if - (2 ^ 31) \<le> v \<and> v < 2 ^ 31 then Some (le_bytes 4 v) else None)
      else if form = DW_EH_PE_sdata8 then
        (if - (2 ^ 63) \<le> v \<and> v < 2 ^ 63 then Some (le_bytes 8 v) else None)
      else None)"

lemma read_data_bytes:
  "bytes_at m p (le_bytes n v) \<Longrightarrow> read_data m n conv p = Ret (conv (v mod 2 ^ (8 * n))) (p + of_nat n)"
  by (simp add: read_data_def load_le_bytes)

lemma of_int_mod_words:
  "(of_int (v mod 2 ^ 64) :: u64) = of_int v"
  "(of_int (v mod 2 ^ 32) :: u32) = of_int v"
  "(of_int (v mod 2 ^ 16) :: u16) = of_int v"
  by (simp_all add: word_of_int_eq_iff take_bit_eq_mod)

lemma unsigned_values:
  "0 \<le> v \<Longrightarrow> v < 2 ^ 16 \<Longrightarrow> (ucast (of_int v :: u16) :: u64) = of_int v"
  "0 \<le> v \<Longrightarrow> v < 2 ^ 32 \<Longrightarrow> (ucast (of_int v :: u32) :: u64) = of_int v"
  by (simp_all add: word_uint_eq_iff unsigned_ucast_eq uint_word_of_int take_bit_eq_mod)

lemma signed_values:
  "- (2 ^ 15) \<le> v \<Longrightarrow> v < 2 ^ 15 \<Longrightarrow> (scast (of_int v :: u16) :: u64) = of_int v"
  "- (2 ^ 31) \<le> v \<Longrightarrow> v < 2 ^ 31 \<Longrightarrow> (scast (of_int v :: u32) :: u64) = of_int v"
proof -
  have s16: "(scast w :: u64) = of_int (sint w)" for w :: u16
    by simp
  have s32: "(scast w :: u64) = of_int (sint w)" for w :: u32
    by simp
  show "- (2 ^ 15) \<le> v \<Longrightarrow> v < 2 ^ 15 \<Longrightarrow> (scast (of_int v :: u16) :: u64) = of_int v"
    unfolding s16 by (simp add: signed_of_int signed_take_bit_int_eq_self)
  show "- (2 ^ 31) \<le> v \<Longrightarrow> v < 2 ^ 31 \<Longrightarrow> (scast (of_int v :: u32) :: u64) = of_int v"
    unfolding s32 by (simp add: signed_of_int signed_take_bit_int_eq_self)
qed

lemma read_value_bytes:
  assumes "pointer_bytes form v = Some bs" and "bytes_at m p bs"
  shows "read_value m p form = Ret (of_int v) (p + of_nat (length bs))"
proof -
  have mods: "(of_int (v mod 2 ^ (8 * 8)) :: u64) = of_int v"
      "(of_int (v mod 2 ^ (8 * 4)) :: u32) = of_int v"
      "(of_int (v mod 2 ^ (8 * 2)) :: u16) = of_int v"
    using of_int_mod_words [of v] by simp_all
  have uleb: "0 \<le> v \<Longrightarrow> v < 2 ^ 31 \<Longrightarrow> bytes_at m p (uleb (nat v)) \<Longrightarrow>
      readULEB128 m p = Ret (of_int v) (p + of_nat (length (uleb (nat v))))"
    using read_uleb [of "nat v" m p] by (simp add: nat_less_iff)
  show ?thesis
    using assms unfolding pointer_bytes_def read_value_def
    by (simp only: split: if_splits)
      (auto simp only: option.inject read_data_bytes mods unsigned_values signed_values uleb
        read_sleb length_le_bytes option.distinct simp_thms if_False if_True split: if_splits)
qed

section \<open>Properties\<close>

text \<open>C30: \<open>readULEB128\<close> decodes what it is meant to: on the standard encoding of any number below
  \<open>2\<^sup>3\<^sup>1\<close> it returns the number and leaves the pointer just past the encoding.\<close>

theorem readULEB128_decodes:
  assumes "n < 2 ^ 31" and "bytes_at m p (uleb n)"
  shows "readULEB128 m p = Ret (of_nat n) (p + of_nat (length (uleb n)))"
  using assms by (rule read_uleb)

definition demo_bytes :: "u8 list \<Rightarrow> mem" where
  "demo_bytes bs = (\<lambda>p. if unat p < length bs then Some (bs ! unat p) else None)"

lemma readULEB128_decodes_witness:
  "uleb 624485 = [0xe5, 0x8e, 0x26] \<and> bytes_at (demo_bytes [0xe5, 0x8e, 0x26]) 0 (uleb 624485) \<and>
   readULEB128 (demo_bytes [0xe5, 0x8e, 0x26]) 0 = Ret 624485 3"
proof -
  have e: "uleb 624485 = [0xe5, 0x8e, 0x26]"
    by (simp add: uleb_def uleb_digits.simps)
  moreover have b: "bytes_at (demo_bytes [0xe5, 0x8e, 0x26]) 0 (uleb 624485)"
    unfolding e by (simp add: demo_bytes_def)
  moreover have "readULEB128 (demo_bytes [0xe5, 0x8e, 0x26]) 0 = Ret 624485 3"
    using readULEB128_decodes [of 624485, OF _ b] by (simp add: e)
  ultimately show ?thesis by blast
qed

text \<open>C31: \<open>readSLEB128\<close> decodes the standard signed encoding of every integer from \<open>-2\<^sup>2\<^sup>7\<close> (four
  bytes; sign extension from a fifth would shift by 35) up to \<open>2\<^sup>3\<^sup>1\<close>.\<close>

theorem readSLEB128_decodes:
  assumes "- (2 ^ 27) \<le> i" and "i < 2 ^ 31" and "bytes_at m p (sleb i)"
  shows "readSLEB128 m p = Ret (of_int i) (p + of_nat (length (sleb i)))"
  using assms by (rule read_sleb)

lemma readSLEB128_decodes_witness:
  "sleb (- 129) = [0xff, 0x7e] \<and> bytes_at (demo_bytes [0xff, 0x7e]) 0 (sleb (- 129)) \<and>
   readSLEB128 (demo_bytes [0xff, 0x7e]) 0 = Ret (- 129) 2"
proof -
  have e: "sleb (- 129) = [0xff, 0x7e]"
    by (simp add: sleb_def sleb_digits.simps)
  moreover have b: "bytes_at (demo_bytes [0xff, 0x7e]) 0 (sleb (- 129))"
    unfolding e by (simp add: demo_bytes_def)
  moreover have "readSLEB128 (demo_bytes [0xff, 0x7e]) 0 = Ret (- 129) 2"
    using readSLEB128_decodes [of "- 129", OF _ _ b] by (simp add: e)
  ultimately show ?thesis by blast
qed




end
