(* ===== verification/Personality.thy ===== *)
theory Personality
  imports Leb128
begin

text \<open>
  The exception half of raise.c: the exception object handed to the unwinder, and the personality
  routine, which the unwinder calls for each frame in two phases to find and to enter a landing
  pad.  The unwinder itself (\<open>_Unwind_RaiseException\<close> and the driver that calls the personality)
  is the platform's; the registers and the instruction pointer it keeps for the frame are the
  record \<open>unwind_context\<close>, which the accessors \<open>_Unwind_GetIP\<close>, \<open>_Unwind_SetIP\<close>,
  \<open>_Unwind_SetGR\<close> and \<open>_Unwind_GetRegionStart\<close> read and write.
\<close>

section \<open>The exception object\<close>

text \<open>The characters H o l r P u p and a zero byte.\<close>

definition pup_unwindclass :: u64 where
  "pup_unwindclass =
     push_bit 56 0x48 OR push_bit 48 0x6f OR push_bit 40 0x6c OR push_bit 32 0x72
     OR push_bit 24 0x50 OR push_bit 16 0x75 OR push_bit 8 0x70 OR 0"

definition is_foreign_unwindclass :: "u64 \<Rightarrow> bool" where
  "is_foreign_unwindclass unwindclass \<longleftrightarrow> unwindclass \<noteq> pup_unwindclass"

text \<open>
  \<open>struct PupUnwindException\<close>: the Pup exception and, embedded behind it, the unwinder's
  header, which starts \<open>unwindException_offset\<close> bytes into the struct (the header is aligned to
  16 bytes).  The structs are malloc'ed; the state is the store of them and the tape.
\<close>

record PupUnwindException =
  pup_exception :: ptr
  exception_class :: u64

type_synonym unwind_state = "(ptr \<rightharpoonup> PupUnwindException) \<times> tape"

definition unwindException_offset :: u64 where
  "unwindException_offset = 16"

text \<open>The result of malloc goes to memset unchecked.\<close>

definition create_unwind_exception :: "ptr \<Rightarrow> unwind_state \<Rightarrow> (ptr, unwind_state) outcome" where
  "create_unwind_exception pup_exception_obj = (\<lambda>(m, t).
     (case malloc t of (ret, junk, t') \<Rightarrow>
        if ret = NULL then Undef
        else Ret (ret + unwindException_offset)
               (m(ret \<mapsto> \<lparr>pup_exception = pup_exception_obj, exception_class = pup_unwindclass\<rparr>), t')))"

definition extract_exception_obj :: "ptr \<Rightarrow> unwind_state \<Rightarrow> (ptr, unwind_state) outcome" where
  "extract_exception_obj exceptionObject s =
     (let baseFromUnwindOffset = 0 - unwindException_offset;
          ue = exceptionObject + baseFromUnwindOffset
      in deref (fst s ue) (\<lambda>e. Ret (pup_exception e) s))"

section \<open>Action records\<close>

text \<open>
  Each action record is two signed integers, the type offset and the offset, from its own
  position, of the next record.  A negative type offset is a filter, which aborts; a positive one
  catches; zero is a cleanup, and the chain goes on unless the next offset is zero.  The result is
  \<open>*resultAction\<close> when the function returns true.
\<close>

partial_function (option) action_loop ::
    "mem \<Rightarrow> nat \<Rightarrow> ptr \<Rightarrow> (i64 option, unit) outcome option" where
  "action_loop m i actionPos =
     (case readSLEB128 m actionPos of
        Ret typeOffset actionPos' \<Rightarrow>
          (case readSLEB128 m actionPos' of
             Ret actionOffset tempActionPos \<Rightarrow>
               if typeOffset <s 0 then Some Aborted
               else if 0 <s typeOffset then Some (Ret (Some (of_nat (i + 1))) ())
               else if actionOffset = 0 then Some (Ret None ())
               else action_loop m (i + 1) (actionPos' + actionOffset)
           | _ \<Rightarrow> Some Undef)
      | _ \<Rightarrow> Some Undef)"

declare action_loop.simps [code]

definition handle_action_value ::
    "mem \<Rightarrow> ptr \<Rightarrow> ptr \<Rightarrow> u64 \<Rightarrow> ptr \<Rightarrow> (i64 option, unit) outcome" where
  "handle_action_value m resultAction action_table_entry exceptionClass exceptionObject =
     (if resultAction = NULL \<or> exceptionObject = NULL \<or> is_foreign_unwindclass exceptionClass
      then Ret None ()
      else of_loop (action_loop m 0 action_table_entry))"

section \<open>The call-site table\<close>

record UnwindCallsite =
  start :: u64
  len :: u64
  landingPad :: u64
  action :: u64

definition unwind_callsite_read :: "mem \<Rightarrow> u8 \<Rightarrow> ptr \<Rightarrow> (UnwindCallsite, ptr) outcome" where
  "unwind_callsite_read m encoding p =
     andthen (readEncodedPointer m p encoding) (\<lambda>s p.
     andthen (readEncodedPointer m p encoding) (\<lambda>l p.
     andthen (readEncodedPointer m p encoding) (\<lambda>lp p.
     andthen (readULEB128 m p) (\<lambda>a p.
       Ret \<lparr>start = s, len = l, landingPad = lp, action = a\<rparr> p))))"

definition unwind_callsite_contains :: "UnwindCallsite \<Rightarrow> u64 \<Rightarrow> bool" where
  "unwind_callsite_contains callsite pcOffset \<longleftrightarrow>
     start callsite \<le> pcOffset \<and> pcOffset < start callsite + len callsite"

section \<open>The personality routine\<close>

text \<open>The reason codes the routine returns, and its bit of \<open>actions\<close> (unwind.h).\<close>

datatype reason = URC_CONTINUE_UNWIND | URC_HANDLER_FOUND | URC_INSTALL_CONTEXT

definition UA_SEARCH_PHASE :: "32 word" where
  "UA_SEARCH_PHASE = 1"

record unwind_context =
  ip :: u64
  region_start :: u64
  gr :: "nat \<Rightarrow> u64"

text \<open>
  One turn of the loop of \<open>handle_lsda\<close> once a call site is read: \<open>None\<close> to go on with the next
  call site, or what the routine returns.  \<open>&actionValue\<close> is the address of a local variable,
  here any non-null pointer.
\<close>

definition callsite_turn ::
    "mem \<Rightarrow> 32 word \<Rightarrow> u64 \<Rightarrow> ptr \<Rightarrow> ptr \<Rightarrow> UnwindCallsite \<Rightarrow> unwind_context \<Rightarrow>
       (reason option, unwind_context) outcome" where
  "callsite_turn m actions unwindclass ue_header action_table_start callsite ctx =
     (let pcOffset = (ip ctx - 1) - region_start ctx;
          action_table_entry =
            (if \<not> is_foreign_unwindclass unwindclass \<and> action callsite \<noteq> 0
             then action_table_start + action callsite - 1 else 0)
      in if landingPad callsite = 0 then Ret None ctx
         else if unwind_callsite_contains callsite pcOffset then
           (case (if action_table_entry \<noteq> 0
                  then handle_action_value m 1 action_table_entry unwindclass ue_header
                  else Ret None ()) of
              Ret matched _ \<Rightarrow>
                if actions AND UA_SEARCH_PHASE = 0 then
                  Ret (Some URC_INSTALL_CONTEXT)
                    (ctx\<lparr>gr := (gr ctx)(0 := ue_header,
                        1 := (case matched of
                                None \<Rightarrow> 0
                              | Some actionValue \<Rightarrow> actionValue)),
                      ip := region_start ctx + landingPad callsite\<rparr>)
                else if matched \<noteq> None then Ret (Some URC_HANDLER_FOUND) ctx
                else Ret None ctx
            | Raised e _ \<Rightarrow> Raised e ctx
            | Aborted \<Rightarrow> Aborted
            | Exited \<Rightarrow> Exited
            | Undef \<Rightarrow> Undef
            | Diverged \<Rightarrow> Diverged)
         else Ret None ctx)"

partial_function (option) callsite_loop ::
    "mem \<Rightarrow> u8 \<Rightarrow> (UnwindCallsite \<Rightarrow> unwind_context \<Rightarrow> (reason option, unwind_context) outcome) \<Rightarrow>
       ptr \<Rightarrow> ptr \<Rightarrow> unwind_context \<Rightarrow> (reason, unwind_context) outcome option" where
  "callsite_loop m enc turn callSiteTableEnd p ctx =
     (if p < callSiteTableEnd then
        (case unwind_callsite_read m enc p of
           Ret callsite p' \<Rightarrow>
             (case turn callsite ctx of
                Ret r ctx' \<Rightarrow>
                  (case r of
                     None \<Rightarrow> callsite_loop m enc turn callSiteTableEnd p' ctx'
                   | Some reason \<Rightarrow> Some (Ret reason ctx'))
              | Raised e ctx' \<Rightarrow> Some (Raised e ctx')
              | Aborted \<Rightarrow> Some Aborted
              | Exited \<Rightarrow> Some Exited
              | Undef \<Rightarrow> Some Undef
              | Diverged \<Rightarrow> Some Diverged)
         | Aborted \<Rightarrow> Some Aborted
         | _ \<Rightarrow> Some Undef)
      else Some (Ret URC_CONTINUE_UNWIND ctx))"

declare callsite_loop.simps [code]

text \<open>The header of the language-specific data: the encoding of the call sites, where their table
  starts and where it ends (and the action table starts).\<close>

definition read_byte :: "mem \<Rightarrow> ptr \<Rightarrow> (u8, ptr) outcome" where
  "read_byte m p = deref (m p) (\<lambda>b. Ret b (p + 1))"

definition lsda_header :: "mem \<Rightarrow> ptr \<Rightarrow> (u8 \<times> ptr, ptr) outcome" where
  "lsda_header m lsda =
     andthen (read_byte m lsda) (\<lambda>lpStartEncoding lsda.
     andthen (if lpStartEncoding \<noteq> DW_EH_PE_omit then readEncodedPointer m lsda lpStartEncoding
              else Ret 0 lsda) (\<lambda>_ lsda.
     andthen (read_byte m lsda) (\<lambda>ttypeEncoding lsda.
     andthen (if ttypeEncoding \<noteq> DW_EH_PE_omit then readULEB128 m lsda else Ret 0 lsda) (\<lambda>_ lsda.
     andthen (read_byte m lsda) (\<lambda>callSiteEncoding lsda.
     andthen (readULEB128 m lsda) (\<lambda>callSiteTableLength lsda.
       Ret (callSiteEncoding, lsda + ucast (ucast callSiteTableLength :: u32)) lsda))))))"

definition handle_lsda ::
    "mem \<Rightarrow> ptr \<Rightarrow> 32 word \<Rightarrow> u64 \<Rightarrow> ptr \<Rightarrow> unwind_context \<Rightarrow> (reason, unwind_context) outcome" where
  "handle_lsda m lsda actions unwindclass ue_header ctx =
     (case lsda_header m lsda of
        Ret (callSiteEncoding, callSiteTableEnd) callSiteTableStart \<Rightarrow>
          of_loop (callsite_loop m callSiteEncoding
            (callsite_turn m actions unwindclass ue_header callSiteTableEnd)
            callSiteTableEnd callSiteTableStart ctx)
      | Aborted \<Rightarrow> Aborted
      | _ \<Rightarrow> Undef)"

text \<open>\<open>lsda\<close> is what \<open>_Unwind_GetLanguageSpecificData\<close> answers for the frame.\<close>

definition pup_eh_personality ::
    "mem \<Rightarrow> ptr \<Rightarrow> i32 \<Rightarrow> 32 word \<Rightarrow> u64 \<Rightarrow> ptr \<Rightarrow> unwind_context \<Rightarrow> (reason, unwind_context) outcome" where
  "pup_eh_personality m lsda version actions unwindclass ue_header ctx =
     (if version \<noteq> 1 then Ret URC_CONTINUE_UNWIND ctx
      else if lsda = NULL then Ret URC_CONTINUE_UNWIND ctx
      else handle_lsda m lsda actions unwindclass ue_header ctx)"

section \<open>Chains of action records\<close>

text \<open>A chain of action records in memory, by the type offsets along it.\<close>

inductive action_chain :: "mem \<Rightarrow> ptr \<Rightarrow> i64 list \<Rightarrow> bool" for m where
  last_action: "readSLEB128 m p = Ret t p' \<Longrightarrow> readSLEB128 m p' = Ret 0 p'' \<Longrightarrow> action_chain m p [t]"
| more_actions: "readSLEB128 m p = Ret t p' \<Longrightarrow> readSLEB128 m p' = Ret off p'' \<Longrightarrow> off \<noteq> 0 \<Longrightarrow>
    action_chain m (p' + off) ts \<Longrightarrow> action_chain m p (t # ts)"

fun first_catch :: "nat \<Rightarrow> i64 list \<Rightarrow> nat option" where
  "first_catch i [] = None"
| "first_catch i (t # ts) = (if 0 <s t then Some (i + 1) else first_catch (i + 1) ts)"

lemma action_loop_chain:
  "action_chain m p ts \<Longrightarrow> \<forall>t \<in> set ts. 0 \<le>s t \<Longrightarrow>
     action_loop m i p = Some (Ret (map_option of_nat (first_catch i ts)) ())"
proof (induction arbitrary: i rule: action_chain.induct)
  case (last_action p t p' p'')
  then show ?case
    by (auto simp: action_loop.simps [of m i p] word_sless_alt word_sle_eq)
next
  case (more_actions p t p' off p'' ts)
  then show ?case
    by (auto simp: action_loop.simps [of m i p] word_sless_alt word_sle_eq)
qed

section \<open>The call-site table as a list\<close>

inductive callsite_table :: "mem \<Rightarrow> u8 \<Rightarrow> ptr \<Rightarrow> ptr \<Rightarrow> UnwindCallsite list \<Rightarrow> bool" for m enc e where
  table_end: "\<not> p < e \<Longrightarrow> callsite_table m enc e p []"
| table_more: "p < e \<Longrightarrow> unwind_callsite_read m enc p = Ret c p' \<Longrightarrow> callsite_table m enc e p' cs \<Longrightarrow>
    callsite_table m enc e p (c # cs)"

fun walk_callsites ::
    "(UnwindCallsite \<Rightarrow> unwind_context \<Rightarrow> (reason option, unwind_context) outcome) \<Rightarrow>
       UnwindCallsite list \<Rightarrow> unwind_context \<Rightarrow> (reason, unwind_context) outcome" where
  "walk_callsites turn [] ctx = Ret URC_CONTINUE_UNWIND ctx"
| "walk_callsites turn (c # cs) ctx =
     andthen (turn c ctx) (\<lambda>r ctx'.
       case r of None \<Rightarrow> walk_callsites turn cs ctx' | Some reason \<Rightarrow> Ret reason ctx')"

lemma callsite_loop_walk:
  "callsite_table m enc e p cs \<Longrightarrow>
     callsite_loop m enc turn e p ctx = Some (walk_callsites turn cs ctx)"
proof (induction arbitrary: ctx rule: callsite_table.induct)
  case (table_end p)
  then show ?case by (simp add: callsite_loop.simps)
next
  case (table_more p c p' cs)
  then show ?case
    by (cases "turn c ctx")
      (auto simp: callsite_loop.simps [of m enc turn e p] split: option.splits)
qed

text \<open>What a turn of the loop can do, by phase.\<close>

lemma turn_search:
  assumes "callsite_turn m UA_SEARCH_PHASE uc ue at c ctx = Ret r ctx'"
  shows "ctx' = ctx \<and> (r = None \<or> r = Some URC_HANDLER_FOUND)"
  using assms
  by (auto simp: callsite_turn_def Let_def UA_SEARCH_PHASE_def split: if_splits outcome.splits)

lemma turn_skips:
  "landingPad c = 0 \<or> \<not> unwind_callsite_contains c (ip ctx - 1 - region_start ctx) \<Longrightarrow>
     callsite_turn m actions uc ue at c ctx = Ret None ctx"
  by (auto simp: callsite_turn_def Let_def)

text \<open>The action value of a call site for an exception: none for a cleanup.\<close>

definition callsite_match :: "mem \<Rightarrow> u64 \<Rightarrow> ptr \<Rightarrow> ptr \<Rightarrow> UnwindCallsite \<Rightarrow> (i64 option, unit) outcome" where
  "callsite_match m uc ue at c =
     (if \<not> is_foreign_unwindclass uc \<and> action c \<noteq> 0 \<and> at + action c - 1 \<noteq> 0
      then handle_action_value m 1 (at + action c - 1) uc ue else Ret None ())"

lemma turn_covering:
  assumes "landingPad c \<noteq> 0" and "unwind_callsite_contains c (ip ctx - 1 - region_start ctx)"
    and "callsite_match m uc ue at c = Ret matched u"
  shows "callsite_turn m actions uc ue at c ctx =
     (if actions AND UA_SEARCH_PHASE = 0 then
        Ret (Some URC_INSTALL_CONTEXT)
          (ctx\<lparr>gr := (gr ctx)(0 := ue, 1 := (case matched of None \<Rightarrow> 0 | Some v \<Rightarrow> v)),
             ip := region_start ctx + landingPad c\<rparr>)
      else if matched \<noteq> None then Ret (Some URC_HANDLER_FOUND) ctx
      else Ret None ctx)"
  using assms
  by (auto simp: callsite_turn_def callsite_match_def Let_def split: if_splits)

lemma turn_covering_found:
  assumes "callsite_turn m UA_SEARCH_PHASE uc ue at c ctx = Ret (Some r) ctx'"
  shows "landingPad c \<noteq> 0 \<and> unwind_callsite_contains c (ip ctx - 1 - region_start ctx) \<and>
    (\<exists>v. callsite_match m uc ue at c = Ret (Some v) ())"
  using assms
  by (auto simp: callsite_turn_def callsite_match_def Let_def UA_SEARCH_PHASE_def
      split: if_splits outcome.splits)

section \<open>An encoded LSDA\<close>

text \<open>
  The language-specific data with the encodings the compiler chooses here: no landing-pad base, no
  type table, and uleb128 call sites.
\<close>

definition callsite_bytes :: "UnwindCallsite \<Rightarrow> u8 list" where
  "callsite_bytes c =
     uleb (unat (start c)) @ uleb (unat (len c)) @ uleb (unat (landingPad c)) @ uleb (unat (action c))"

definition table_bytes :: "UnwindCallsite list \<Rightarrow> u8 list" where
  "table_bytes cs = concat (map callsite_bytes cs)"

definition lsda_head :: "UnwindCallsite list \<Rightarrow> u8 list" where
  "lsda_head cs =
     [DW_EH_PE_omit, DW_EH_PE_omit, DW_EH_PE_uleb128] @ uleb (length (table_bytes cs))"

definition small_callsite :: "UnwindCallsite \<Rightarrow> bool" where
  "small_callsite c \<longleftrightarrow>
     unat (start c) < 2 ^ 31 \<and> unat (len c) < 2 ^ 31 \<and> unat (landingPad c) < 2 ^ 31 \<and>
     unat (action c) < 2 ^ 31"

lemma uleb_not_Nil: "0 < length (uleb n)"
  using uleb_digits_facts [of n] by (simp add: uleb_def)

lemma callsite_bytes_length: "0 < length (callsite_bytes c)"
  using uleb_not_Nil by (simp add: callsite_bytes_def)

lemma read_uleb_pointer:
  assumes "n < 2 ^ 31" and "bytes_at m p (uleb n)"
  shows "readEncodedPointer m p DW_EH_PE_uleb128 = Ret (of_nat n) (p + of_nat (length (uleb n)))"
  using read_uleb [OF assms] by (simp add: readEncodedPointer_def read_value_def dw_eh_pe_defs)

lemma read_callsite:
  assumes "small_callsite c" and "bytes_at m p (callsite_bytes c)"
  shows "unwind_callsite_read m DW_EH_PE_uleb128 p = Ret c (p + of_nat (length (callsite_bytes c)))"
proof -
  let ?s = "uleb (unat (start c))" and ?l = "uleb (unat (len c))"
  let ?lp = "uleb (unat (landingPad c))" and ?a = "uleb (unat (action c))"
  let ?p1 = "p + of_nat (length ?s)"
  let ?p2 = "?p1 + of_nat (length ?l)"
  let ?p3 = "?p2 + of_nat (length ?lp)"
  have small: "unat (start c) < 2 ^ 31" "unat (len c) < 2 ^ 31" "unat (landingPad c) < 2 ^ 31"
      "unat (action c) < 2 ^ 31"
    using assms(1) by (simp_all add: small_callsite_def)
  have bytes: "bytes_at m p ?s" "bytes_at m ?p1 ?l" "bytes_at m ?p2 ?lp" "bytes_at m ?p3 ?a"
    using assms(2) by (simp_all add: callsite_bytes_def bytes_at_append add.assoc)
  show ?thesis
    using read_uleb_pointer [OF small(1) bytes(1)] read_uleb_pointer [OF small(2) bytes(2)]
      read_uleb_pointer [OF small(3) bytes(3)] read_uleb [OF small(4) bytes(4)]
    by (simp add: unwind_callsite_read_def callsite_bytes_def add.assoc)
qed

lemma of_nat_advance:
  assumes "unat (p :: ptr) + n < 2 ^ 64"
  shows "unat (p + of_nat n) = unat p + n"
  using assms by (simp add: unat_word_ariths unsigned_of_nat take_bit_eq_mod)

lemma read_table:
  assumes "\<forall>c \<in> set cs. small_callsite c" and "bytes_at m p (table_bytes cs)"
    and "unat p + length (table_bytes cs) < 2 ^ 64"
  shows "callsite_table m DW_EH_PE_uleb128 (p + of_nat (length (table_bytes cs))) p cs"
  using assms
proof (induction cs arbitrary: p)
  case Nil
  then show ?case by (auto simp: table_bytes_def intro: table_end)
next
  case (Cons c cs)
  let ?n = "length (callsite_bytes c)" and ?rest = "length (table_bytes cs)"
  have bytes: "table_bytes (c # cs) = callsite_bytes c @ table_bytes cs"
    by (simp add: table_bytes_def)
  have e: "p + of_nat (length (table_bytes (c # cs))) = (p + of_nat ?n) + of_nat ?rest"
    by (simp add: bytes algebra_simps)
  have u: "unat (p + of_nat ?n) = unat p + ?n"
    by (rule of_nat_advance) (use Cons.prems(3) bytes in simp)
  have rest: "callsite_table m DW_EH_PE_uleb128 (p + of_nat ?n + of_nat ?rest) (p + of_nat ?n) cs"
    by (rule Cons.IH) (use Cons.prems u in \<open>simp_all add: bytes bytes_at_append\<close>)
  have "unat (p + of_nat (length (table_bytes (c # cs)))) = unat p + length (table_bytes (c # cs))"
    by (rule of_nat_advance) (use Cons.prems(3) in simp)
  then have "p < p + of_nat (length (table_bytes (c # cs)))"
    using callsite_bytes_length [of c] by (simp add: word_less_nat_alt bytes)
  then show ?case
    unfolding e
    by (rule table_more) (use Cons.prems rest read_callsite in \<open>simp_all add: bytes bytes_at_append\<close>)
qed

lemma read_lsda_head:
  assumes "bytes_at m lsda (lsda_head cs)" and "length (table_bytes cs) < 2 ^ 31"
  shows "lsda_header m lsda =
     (let table = lsda + of_nat (length (lsda_head cs))
      in Ret (DW_EH_PE_uleb128, table + of_nat (length (table_bytes cs))) table)"
proof -
  let ?n = "length (table_bytes cs)"
  have m: "m lsda = Some DW_EH_PE_omit" "m (lsda + 1) = Some DW_EH_PE_omit"
      "m (lsda + 1 + 1) = Some DW_EH_PE_uleb128" "bytes_at m (lsda + 1 + 1 + 1) (uleb ?n)"
    using assms(1) by (simp_all add: lsda_head_def)
  have "unat (of_nat ?n :: u64) = ?n"
    using assms(2) by (simp add: unsigned_of_nat take_bit_nat_eq_self)
  then have "(ucast (ucast (of_nat ?n :: u64) :: u32) :: u64) = of_nat ?n"
    using assms(2)
    by (simp add: word_unat_eq_iff unsigned_ucast_eq unsigned_take_bit_eq take_bit_nat_eq_self)
  then show ?thesis
    using m read_uleb [OF assms(2) m(4)]
    by (simp add: lsda_header_def read_byte_def lsda_head_def Let_def algebra_simps)
qed

lemma handle_lsda_encoded:
  assumes "bytes_at m lsda (lsda_head cs @ table_bytes cs)" and "\<forall>c \<in> set cs. small_callsite c"
    and "length (table_bytes cs) < 2 ^ 31"
    and "unat lsda + length (lsda_head cs @ table_bytes cs) < 2 ^ 64"
  shows "handle_lsda m lsda actions uc ue ctx =
     walk_callsites
       (callsite_turn m actions uc ue
         (lsda + of_nat (length (lsda_head cs)) + of_nat (length (table_bytes cs)))) cs ctx"
proof -
  let ?t = "lsda + of_nat (length (lsda_head cs))"
  have u: "unat ?t = unat lsda + length (lsda_head cs)"
    by (rule of_nat_advance) (use assms(4) in simp)
  have "callsite_table m DW_EH_PE_uleb128 (?t + of_nat (length (table_bytes cs))) ?t cs"
    by (rule read_table) (use assms u in \<open>simp_all add: bytes_at_append\<close>)
  then show ?thesis
    using read_lsda_head [of m lsda cs] assms(1,3)
    by (simp add: handle_lsda_def callsite_loop_walk bytes_at_append Let_def)
qed

section \<open>The two phases on a list of call sites\<close>

definition covers :: "unwind_context \<Rightarrow> UnwindCallsite \<Rightarrow> bool" where
  "covers ctx c \<longleftrightarrow>
     landingPad c \<noteq> 0 \<and> unwind_callsite_contains c (ip ctx - 1 - region_start ctx)"

lemma walk_search:
  "walk_callsites (callsite_turn m UA_SEARCH_PHASE uc ue at) cs ctx = Ret r ctx' \<Longrightarrow>
     ctx' = ctx \<and> (r = URC_CONTINUE_UNWIND \<or> r = URC_HANDLER_FOUND)"
proof (induction cs arbitrary: ctx)
  case Nil
  then show ?case by simp
next
  case (Cons c cs)
  then show ?case
    by (auto simp: outcome_simps dest!: turn_search split: option.splits)
qed

lemma walk_search_found:
  "walk_callsites (callsite_turn m UA_SEARCH_PHASE uc ue at) cs ctx = Ret URC_HANDLER_FOUND ctx' \<Longrightarrow>
     \<exists>c v. c \<in> set cs \<and> covers ctx c \<and> callsite_match m uc ue at c = Ret (Some v) ()"
proof (induction cs arbitrary: ctx)
  case Nil
  then show ?case by simp
next
  case (Cons c cs)
  then obtain r ctx1 where t: "callsite_turn m UA_SEARCH_PHASE uc ue at c ctx = Ret r ctx1"
    by (auto simp: outcome_simps)
  from turn_search [OF this] have ctx1: "ctx1 = ctx"
    by simp
  show ?case
  proof (cases r)
    case None
    with Cons.prems t ctx1
    have "walk_callsites (callsite_turn m UA_SEARCH_PHASE uc ue at) cs ctx = Ret URC_HANDLER_FOUND ctx'"
      by simp
    from Cons.IH [OF this] show ?thesis by auto
  next
    case (Some r')
    with t have "callsite_turn m UA_SEARCH_PHASE uc ue at c ctx = Ret (Some r') ctx1"
      by simp
    from turn_covering_found [OF this] show ?thesis
      by (auto simp: covers_def)
  qed
qed

lemma walk_skip:
  "\<forall>c \<in> set cs. \<not> covers ctx c \<Longrightarrow>
     walk_callsites (callsite_turn m actions uc ue at) (cs @ ds) ctx =
     walk_callsites (callsite_turn m actions uc ue at) ds ctx"
proof (induction cs)
  case Nil
  show ?case by simp
next
  case (Cons c cs)
  then have "landingPad c = 0 \<or> \<not> unwind_callsite_contains c (ip ctx - 1 - region_start ctx)"
    by (auto simp: covers_def)
  from turn_skips [OF this] Cons show ?case by simp
qed

lemma walk_install:
  assumes "c \<in> set cs" and "covers ctx c" and "\<forall>d \<in> set cs. covers ctx d \<longrightarrow> d = c"
    and "callsite_match m uc ue at c = Ret matched u" and "actions AND UA_SEARCH_PHASE = 0"
  shows "walk_callsites (callsite_turn m actions uc ue at) cs ctx =
     Ret URC_INSTALL_CONTEXT
       (ctx\<lparr>gr := (gr ctx)(0 := ue, 1 := (case matched of None \<Rightarrow> 0 | Some v \<Rightarrow> v)),
          ip := region_start ctx + landingPad c\<rparr>)"
proof -
  obtain as bs where cs: "cs = as @ c # bs" "c \<notin> set as"
    using split_list_first [OF assms(1)] by blast
  have "\<forall>d \<in> set as. \<not> covers ctx d"
    using assms(3) cs by auto
  from walk_skip [OF this] show ?thesis
    using turn_covering [of c ctx m uc ue at matched u actions] assms(2,4,5)
    by (simp add: cs covers_def)
qed

text \<open>Whatever the table holds: what is true of each turn is true of the loop.\<close>

lemma callsite_loop_result:
  assumes ret: "callsite_loop m enc turn e p ctx = Some (Ret r ctx')"
    and none: "\<And>c ctx1. turn c ctx = Ret None ctx1 \<Longrightarrow> ctx1 = ctx"
    and some: "\<And>c r ctx1. turn c ctx = Ret (Some r) ctx1 \<Longrightarrow> Q r ctx1"
  shows "r = URC_CONTINUE_UNWIND \<and> ctx' = ctx \<or> Q r ctx'"
proof -
  have "(\<forall>c ctx1. turn c ctx = Ret None ctx1 \<longrightarrow> ctx1 = ctx) \<longrightarrow>
      (\<forall>c r ctx1. turn c ctx = Ret (Some r) ctx1 \<longrightarrow> Q r ctx1) \<longrightarrow>
      x = Ret r ctx' \<longrightarrow> r = URC_CONTINUE_UNWIND \<and> ctx' = ctx \<or> Q r ctx'"
    if "callsite_loop m enc turn e p ctx = Some x" for x
  proof (rule callsite_loop.raw_induct [OF _ that, of
        "\<lambda>m enc turn e p ctx x. (\<forall>c ctx1. turn c ctx = Ret None ctx1 \<longrightarrow> ctx1 = ctx) \<longrightarrow>
          (\<forall>c r ctx1. turn c ctx = Ret (Some r) ctx1 \<longrightarrow> Q r ctx1) \<longrightarrow>
          x = Ret r ctx' \<longrightarrow> r = URC_CONTINUE_UNWIND \<and> ctx' = ctx \<or> Q r ctx'"], goal_cases)
    case (1 loop m enc turn e p ctx x)
    then show ?case
      by (auto split: if_splits outcome.splits option.splits; blast)
  qed
  with assms show ?thesis by blast
qed

section \<open>Properties\<close>

text \<open>The exception object survives the unwinder: what \<open>create_unwind_exception\<close> returns is
  a pointer from which \<open>extract_exception_obj\<close> gets the same Pup object back, and an exception
  created earlier still gives its own.\<close>

lemma unwind_exception_roundtrip:
  assumes "fresh_tape t (dom m)" and "create_unwind_exception obj (m, t) = Ret p (m', t')"
  shows "extract_exception_obj p (m', t') = Ret obj (m', t') \<and>
     (\<forall>q obj0. extract_exception_obj q (m, t) = Ret obj0 (m, t) \<longrightarrow>
        extract_exception_obj q (m', t') = Ret obj0 (m', t'))"
proof -
  obtain ret junk t1 where mt: "malloc t = (ret, junk, t1)"
    by (cases "malloc t") auto
  with assms(2) have r: "ret \<noteq> NULL" "p = ret + unwindException_offset"
      "m' = m(ret \<mapsto> \<lparr>pup_exception = obj, exception_class = pup_unwindclass\<rparr>)" "t' = t1"
    by (auto simp: create_unwind_exception_def split: if_splits)
  have "ret \<notin> dom m"
    using fresh_tape_head [OF assms(1) mt r(1)] by simp
  with r show ?thesis
    by (auto simp: extract_exception_obj_def Let_def outcome_simps)
qed

lemma unwind_exception_roundtrip_example:
  "\<exists>m' t'. create_unwind_exception 7 (Map.empty, [(64, 0)]) = Ret 80 (m', t') \<and>
     extract_exception_obj 80 (m', t') = Ret 7 (m', t')"
proof -
  obtain m' t' where c: "create_unwind_exception 7 (Map.empty, [(64, 0)]) = Ret 80 (m', t')"
    by (simp add: create_unwind_exception_def unwindException_offset_def)
  show ?thesis
    using c unwind_exception_roundtrip [OF _ c] by simp
qed



text \<open>C34: A foreign exception is never caught here: whatever the tables hold, the personality
  routine never reports a handler for it, and if it enters a landing pad it does so as a cleanup,
  with selector 0.\<close>

theorem foreign_exception_not_caught:
  assumes "is_foreign_unwindclass uc"
    and "pup_eh_personality m lsda version actions uc ue ctx = Ret r ctx'"
  shows "r \<noteq> URC_HANDLER_FOUND \<and> (r = URC_INSTALL_CONTEXT \<longrightarrow> gr ctx' 0 = ue \<and> gr ctx' 1 = 0)"
proof -
  let ?Q = "\<lambda>r ctx'. r = URC_INSTALL_CONTEXT \<and> gr ctx' 0 = ue \<and> gr ctx' 1 = 0"
  have turn: "callsite_turn m actions uc ue at c ctx = Ret r' ctx1 \<Longrightarrow>
      (case r' of None \<Rightarrow> ctx1 = ctx | Some r \<Rightarrow> ?Q r ctx1)" for at c r' ctx1
    using assms(1) by (auto simp: callsite_turn_def Let_def split: if_splits)
  have "r = URC_CONTINUE_UNWIND \<and> ctx' = ctx \<or> ?Q r ctx'"
    if loop: "callsite_loop m enc (callsite_turn m actions uc ue at) e p ctx = Some (Ret r ctx')"
    for enc at e p
    by (rule callsite_loop_result [OF loop]) (use turn in \<open>fastforce\<close>)+
  with assms(2) show ?thesis
    by (auto simp: pup_eh_personality_def handle_lsda_def of_loop_def
        split: if_splits outcome.splits option.splits)
qed

text \<open>The bytes of a function with one call site: it covers 16 bytes from the start, its landing
  pad is at 32, and its action is the first of a table with one catch.\<close>

definition demo_lsda :: mem where
  "demo_lsda = demo_bytes [0, 0xff, 0xff, 0x01, 0x04, 0x00, 0x10, 0x20, 0x01, 0x01, 0x00]"

definition demo_context :: unwind_context where
  "demo_context = \<lparr>ip = 0x1006, region_start = 0x1000, gr = (\<lambda>_. 0)\<rparr>"

lemmas demo_lsda_run =
  demo_lsda_def demo_context_def demo_bytes_def pup_eh_personality_def handle_lsda_def
  lsda_header_def read_byte_def readULEB128_def readSLEB128_def leb_loop.simps int_shl_def
  dw_eh_pe_defs callsite_loop.simps unwind_callsite_read_def readEncodedPointer_def read_value_def
  callsite_turn_def unwind_callsite_contains_def handle_action_value_def action_loop.simps
  is_foreign_unwindclass_def UA_SEARCH_PHASE_def Let_def word_sless_alt

lemma foreign_exception_not_caught_witness:
  "is_foreign_unwindclass 0 \<and>
   (\<exists>ctx'. pup_eh_personality demo_lsda 1 1 0 0 64 demo_context = Ret URC_INSTALL_CONTEXT ctx' \<and>
      gr ctx' 1 = 0)"
proof -
  have f: "is_foreign_unwindclass 0"
    by (simp add: is_foreign_unwindclass_def pup_unwindclass_def)
  moreover obtain ctx' where
    "pup_eh_personality demo_lsda 1 1 0 0 64 demo_context = Ret URC_INSTALL_CONTEXT ctx'"
    using f by (simp add: demo_lsda_run)
  ultimately show ?thesis
    using foreign_exception_not_caught by blast
qed

text \<open>C13: The two phases agree.  When at most one call site with a landing pad covers the
  program counter and the search phase reports a handler, the search has changed nothing in the
  context, and the cleanup phase enters the landing pad of that call site with the exception in
  register 0 and its action value in register 1.\<close>

theorem search_and_cleanup_agree:
  assumes "lsda \<noteq> NULL" and "lsda_header m lsda = Ret (enc, e) table"
    and "callsite_table m enc e table cs"
    and "\<forall>c \<in> set cs. \<forall>d \<in> set cs. covers ctx c \<and> covers ctx d \<longrightarrow> c = d"
    and "pup_eh_personality m lsda 1 UA_SEARCH_PHASE uc ue ctx = Ret URC_HANDLER_FOUND ctx'"
    and "actions AND UA_SEARCH_PHASE = 0"
  shows "ctx' = ctx \<and>
     (\<exists>c v. c \<in> set cs \<and> covers ctx c \<and> callsite_match m uc ue e c = Ret (Some v) () \<and>
        pup_eh_personality m lsda 1 actions uc ue ctx =
          Ret URC_INSTALL_CONTEXT
            (ctx\<lparr>gr := (gr ctx)(0 := ue, 1 := v), ip := region_start ctx + landingPad c\<rparr>))"
proof -
  have run: "pup_eh_personality m lsda 1 act uc ue ctx =
      walk_callsites (callsite_turn m act uc ue e) cs ctx" for act
    using assms(1,2) callsite_loop_walk [OF assms(3)]
    by (simp add: pup_eh_personality_def handle_lsda_def)
  have search: "walk_callsites (callsite_turn m UA_SEARCH_PHASE uc ue e) cs ctx =
      Ret URC_HANDLER_FOUND ctx'"
    using assms(5) run by simp
  from walk_search_found [OF this] obtain c v where
    c: "c \<in> set cs" "covers ctx c" "callsite_match m uc ue e c = Ret (Some v) ()"
    by blast
  with assms(4) have one: "\<forall>d \<in> set cs. covers ctx d \<longrightarrow> d = c"
    by blast
  have "ctx' = ctx"
    using walk_search [OF search] by simp
  moreover have "pup_eh_personality m lsda 1 actions uc ue ctx =
      Ret URC_INSTALL_CONTEXT
        (ctx\<lparr>gr := (gr ctx)(0 := ue, 1 := v), ip := region_start ctx + landingPad c\<rparr>)"
    unfolding run walk_install [OF c(1,2) one c(3) assms(6)] by simp
  ultimately show ?thesis
    using c by blast
qed

definition demo_callsite :: UnwindCallsite where
  "demo_callsite = \<lparr>start = 0, len = 16, landingPad = 32, action = 1\<rparr>"

lemma demo_table:
  "lsda_header demo_lsda 1 = Ret (0x01, 9) 5" "callsite_table demo_lsda 0x01 9 5 [demo_callsite]"
proof -
  show "lsda_header demo_lsda 1 = Ret (0x01, 9) 5"
    by (simp add: demo_lsda_run)
  have "unwind_callsite_read demo_lsda 0x01 5 = Ret demo_callsite 9"
    by (simp add: demo_lsda_run demo_callsite_def)
  then show "callsite_table demo_lsda 0x01 9 5 [demo_callsite]"
    by (intro table_more [of 5 9 demo_lsda 1 demo_callsite 9] table_end) simp_all
qed

lemma search_and_cleanup_agree_witness:
  "pup_eh_personality demo_lsda 1 1 UA_SEARCH_PHASE pup_unwindclass 64 demo_context =
     Ret URC_HANDLER_FOUND demo_context \<and>
   pup_eh_personality demo_lsda 1 1 0 pup_unwindclass 64 demo_context =
     Ret URC_INSTALL_CONTEXT
       (demo_context\<lparr>gr := (gr demo_context)(0 := 64, 1 := 1), ip := 0x1020\<rparr>)"
proof -
  have s: "pup_eh_personality demo_lsda 1 1 UA_SEARCH_PHASE pup_unwindclass 64 demo_context =
     Ret URC_HANDLER_FOUND demo_context"
    by (simp add: demo_lsda_run)
  have m: "callsite_match demo_lsda pup_unwindclass 64 9 demo_callsite = Ret (Some 1) ()"
    by (simp add: callsite_match_def demo_callsite_def demo_lsda_run)
  show ?thesis
    using s m search_and_cleanup_agree [OF _ demo_table _ s, of 0]
    by (simp add: demo_callsite_def demo_context_def)
qed



end
