(* ===== verification/Runtime.thy ===== *)
theory Runtime
  imports SymTable Personality
begin

text \<open>
  The state of the runtime: the structs of object.c, class.c, string.c, fixnum.c, heap.c, gc.c,
  gc/refqueue.c and env.c as records, and one record \<open>rt\<close> of all memory a mutator thread sees.
  Memory that holds structs of one kind is a map from their addresses.  A struct that starts with
  an embedded \<open>struct PupObject\<close> (a class, a string, a fixnum) is an object whose \<open>body\<close> holds the
  members behind the header; a cast down reads the body and is undefined on another one.
\<close>

section \<open>Objects\<close>

text \<open>The C functions a method-table entry can point to, and the compiled methods by number.\<close>

datatype pup_method =
    Object_initialize
  | Object_raise
  | Object_puts
  | Object_op_equals
  | Class_new
  | Object_allocate
  | Class_to_s
  | Exception_initialize
  | Exception_message
  | Fixnum_plus
  | Fixnum_op_equals
  | Fixnum_op_lessthan
  | Compiled nat

text \<open>The hooks of a class.  \<open>Copy_indeterminate\<close> is a function pointer that was never set.\<close>

datatype alloc_fn = Alloc_object | Alloc_class | Alloc_string | Alloc_fixnum

datatype destroy_fn = Destroy_object | Destroy_class | Destroy_string | Destroy_fixnum

datatype copy_fn = Copy_object | Copy_class | Copy_indeterminate

record class_body =
  superclass :: ptr
  name :: "string option"
  method_list_head :: ptr
  scope :: ptr
  allocate_instance :: "alloc_fn option"
  destroy_instance :: "destroy_fn option"
  gc_copy_instance :: "copy_fn option"

datatype body = PlainBody | ClassBody class_body | StringBody "string option" | FixnumBody i32

record object =
  otype :: ptr
  attr_list_head :: ptr
  gc_mark :: "1 word"
  body :: body

record attr_entry =
  attr_sym :: i64
  attr_value :: ptr
  attr_next :: ptr

record method_entry =
  meth_sym :: i64
  meth :: pup_method
  meth_next :: ptr

section \<open>The heap\<close>

datatype heap_kind = PUP_KIND_OBJ | PUP_KIND_ATTR

record heap_region =
  region :: ptr
  region_end :: ptr
  allocated :: ptr
  region_next :: ptr
  read_only :: bool

record heap_object =
  object_size :: u64
  kind :: heap_kind

record thread_info =
  tid :: u64
  local_region :: ptr
  threadinfo_next :: ptr
  gc_waiting :: bool
  current_gc_mark :: i32

text \<open>
  \<open>struct PupHeap\<close> with the memory it manages: the region structs, the headers in front of the
  heap objects, the thread structs, and what each thread stored under the key
  \<open>this_thread_info\<close>.
\<close>

record pup_heap =
  region_list :: ptr
  thread_list :: ptr
  this_thread_info :: "u64 \<Rightarrow> ptr"
  regions :: "ptr \<rightharpoonup> heap_region"
  headers :: "ptr \<rightharpoonup> heap_object"
  threads :: "ptr \<rightharpoonup> thread_info"

section \<open>The collector\<close>

record ref_queue_segment =
  next_segment :: ptr
  in_use :: nat
  refs :: "ptr list"

record gc_state =
  reference_queue_head :: ptr
  live_mark_value :: u64
  garbage_count :: i32
  live_count :: i32
  copy_target :: ptr
  current_segment :: ptr

section \<open>The environment\<close>

record runtime_env =
  class_object :: ptr
  class_class :: ptr
  class_string :: ptr
  class_exception :: ptr
  class_standarderror :: ptr
  class_runtimeerror :: ptr
  class_true :: ptr
  class_false :: ptr
  object_true :: ptr
  object_false :: ptr
  class_fixnum :: ptr

text \<open>
  All of it, with the thread that runs (\<open>self\<close>), the answers malloc and mmap will give, and the
  lines written to the standard output.  \<open>gc\<close> is the struct \<open>heap->gc_state\<close> points to, \<open>None\<close>
  for \<open>NULL\<close>.
\<close>

record rt =
  objects :: "ptr \<rightharpoonup> object"
  attrs :: "ptr \<rightharpoonup> attr_entry"
  methods :: "ptr \<rightharpoonup> method_entry"
  heap :: pup_heap
  segments :: "ptr \<rightharpoonup> ref_queue_segment"
  gc :: "gc_state option"
  unwinds :: "ptr \<rightharpoonup> PupUnwindException"
  sym_tab :: sym_table
  env :: runtime_env
  self :: u64
  mallocs :: tape
  mmaps :: "ptr list"
  stdout :: "string list"

text \<open>Reading a struct through a pointer, and writing a changed one back.\<close>

definition the_class :: "object \<Rightarrow> class_body option" where
  "the_class ob = (case body ob of ClassBody c \<Rightarrow> Some c | _ \<Rightarrow> None)"

definition class_at :: "rt \<Rightarrow> ptr \<Rightarrow> class_body option" where
  "class_at s p = Option.bind (objects s p) the_class"

definition with_object :: "ptr \<Rightarrow> (object \<Rightarrow> object) \<Rightarrow> rt \<Rightarrow> (unit, rt) outcome" where
  "with_object p f s = deref (objects s p) (\<lambda>ob. Ret () (s\<lparr>objects := (objects s)(p \<mapsto> f ob)\<rparr>))"

definition with_class :: "ptr \<Rightarrow> (class_body \<Rightarrow> class_body) \<Rightarrow> rt \<Rightarrow> (unit, rt) outcome" where
  "with_class p f s =
     deref (objects s p) (\<lambda>ob.
     deref (the_class ob) (\<lambda>c.
       Ret () (s\<lparr>objects := (objects s)(p \<mapsto> ob\<lparr>body := ClassBody (f c)\<rparr>)\<rparr>)))"

lemma class_at_Some:
  "class_at s p = Some c \<longleftrightarrow> (\<exists>ob. objects s p = Some ob \<and> body ob = ClassBody c)"
  by (cases "objects s p") (auto simp: class_at_def the_class_def split: body.splits)

lemma the_class_Some: "the_class ob = Some c \<longleftrightarrow> body ob = ClassBody c"
  by (auto simp: the_class_def split: body.splits)

lemma with_object_Ret [outcome_simps]:
  "with_object p f s = Ret u s' \<longleftrightarrow>
     (\<exists>ob. objects s p = Some ob \<and> s' = s\<lparr>objects := (objects s)(p \<mapsto> f ob)\<rparr>)"
  by (auto simp: with_object_def outcome_simps)

lemma with_class_Ret [outcome_simps]:
  "with_class p f s = Ret u s' \<longleftrightarrow>
     (\<exists>ob c. objects s p = Some ob \<and> body ob = ClassBody c \<and>
        s' = s\<lparr>objects := (objects s)(p \<mapsto> ob\<lparr>body := ClassBody (f c)\<rparr>)\<rparr>)"
  by (auto simp: with_class_def outcome_simps the_class_Some)

end
