(* ===== verification/Heap.thy ===== *)
theory Heap
  imports Runtime
begin

text \<open>
  The allocator of heap.c: regions of one megabyte from mmap, a bump pointer in each, one region
  per thread for allocation and a list of the full ones.  A mutator thread is the only writer of
  its own region; the compare-and-swap loops that touch the shared list are here the calls of one
  thread, their interleavings are the subject of another theory.
\<close>

section \<open>Regions\<close>

definition REGION_SIZE :: u64 where
  "REGION_SIZE = 0x100000"

definition MAX_REGION_ALLOCATION :: u64 where
  "MAX_REGION_ALLOCATION = 0x1000"

definition MAP_FAILED :: ptr where
  "MAP_FAILED = - 1"

text \<open>
  The layout of \<open>struct HeapObject\<close> in the x86-64 ABI: 16 bytes, \<open>object_size\<close> in the first
  eight, the bit-field \<open>kind\<close> in the ninth, and the flexible member \<open>data\<close>, of alignment 1, right
  behind it.
\<close>

definition sizeof_HeapObject :: u64 where
  "sizeof_HeapObject = 16"

definition data_offset :: u64 where
  "data_offset = 9"

fun mmap :: "ptr list \<Rightarrow> ptr \<times> ptr list" where
  "mmap [] = (MAP_FAILED, [])"
| "mmap (a # t) = (a, t)"

text \<open>The pointer to the new region, or \<open>NULL\<close>.\<close>

definition pup_heap_region_allocate :: "rt \<Rightarrow> ptr \<times> rt" where
  "pup_heap_region_allocate s =
     (case malloc (mallocs s) of (r, junk, t) \<Rightarrow>
        if r = NULL then (NULL, s\<lparr>mallocs := t\<rparr>)
        else case mmap (mmaps s) of (a, t') \<Rightarrow>
          if a = MAP_FAILED then (NULL, s\<lparr>mallocs := t, mmaps := t'\<rparr>)
          else (r, s\<lparr>mallocs := t, mmaps := t',
                     heap := (heap s)\<lparr>regions := (regions (heap s))(r \<mapsto>
                       \<lparr>region = a, region_end = a + REGION_SIZE, allocated = a,
                        region_next = 0, read_only = False\<rparr>)\<rparr>\<rparr>))"

definition alloc_size_for :: "u64 \<Rightarrow> u64" where
  "alloc_size_for request_size = request_size + sizeof_HeapObject"

section \<open>Threads\<close>

definition get_thread_info :: "rt \<Rightarrow> (ptr, rt) outcome" where
  "get_thread_info s =
     (let res = this_thread_info (heap s) (self s) in abort_on (res = NULL) (Ret res s))"

definition set_thread_info :: "ptr \<Rightarrow> rt \<Rightarrow> (unit, rt) outcome" where
  "set_thread_info info s =
     abort_on (info = NULL)
       (Ret () (s\<lparr>heap := (heap s)\<lparr>this_thread_info :=
                    (this_thread_info (heap s))(self s := info)\<rparr>\<rparr>))"

definition with_thread :: "ptr \<Rightarrow> (thread_info \<Rightarrow> thread_info) \<Rightarrow> rt \<Rightarrow> (unit, rt) outcome" where
  "with_thread p f s =
     deref (threads (heap s) p) (\<lambda>t.
       Ret () (s\<lparr>heap := (heap s)\<lparr>threads := (threads (heap s))(p \<mapsto> f t)\<rparr>\<rparr>))"

definition with_region :: "ptr \<Rightarrow> (heap_region \<Rightarrow> heap_region) \<Rightarrow> rt \<Rightarrow> (unit, rt) outcome" where
  "with_region p f s =
     deref (regions (heap s) p) (\<lambda>r.
       Ret () (s\<lparr>heap := (heap s)\<lparr>regions := (regions (heap s))(p \<mapsto> f r)\<rparr>\<rparr>))"

definition set_local_region :: "ptr \<Rightarrow> rt \<Rightarrow> (unit, rt) outcome" where
  "set_local_region r s =
     abort_on (r = NULL)
       (andthen (get_thread_info s) (\<lambda>ti s. with_thread ti (local_region_update (\<lambda>_. r)) s))"

text \<open>
  The head of the list becomes the new thread; its \<open>next\<close> stays what it was.  A compare-and-swap
  writes the new value if the old one is still there, and tells whether it was.
\<close>

definition get_thread_list_head :: "rt \<Rightarrow> (ptr, rt) outcome" where
  "get_thread_list_head s = Ret (thread_list (heap s)) s"

definition swap_thread_list_head :: "ptr \<Rightarrow> ptr \<Rightarrow> rt \<Rightarrow> (bool, rt) outcome" where
  "swap_thread_list_head old_head new_head s =
     (if thread_list (heap s) = old_head
      then Ret True (s\<lparr>heap := (heap s)\<lparr>thread_list := new_head\<rparr>\<rparr>)
      else Ret False s)"

definition attach_thread_to_heap :: "ptr \<Rightarrow> rt \<Rightarrow> (unit, rt) outcome" where
  "attach_thread_to_heap new_head s =
     of_loop (retry (\<lambda>s.
       andthen (get_thread_list_head s) (\<lambda>old_head s.
       andthen (swap_thread_list_head old_head new_head s) (\<lambda>swapped s.
         Ret (if swapped then Some () else None) s))) s)"

lemma attach_thread_to_heap_once:
  "attach_thread_to_heap new_head s = Ret () (s\<lparr>heap := (heap s)\<lparr>thread_list := new_head\<rparr>\<rparr>)"
  unfolding attach_thread_to_heap_def
  by (rule retry_once) (simp add: get_thread_list_head_def swap_thread_list_head_def)

text \<open>
  False stands for the result -1.  The members \<open>local_region\<close> and \<open>current_gc_mark\<close> are not
  initialised: they are what the malloc'ed block holds.
\<close>

definition attach_thread :: "u64 \<Rightarrow> rt \<Rightarrow> (bool, rt) outcome" where
  "attach_thread thread s =
     (case malloc (mallocs s) of (ti, junk, t) \<Rightarrow>
        if ti = NULL then Ret False (s\<lparr>mallocs := t\<rparr>)
        else
          andthen (set_thread_info ti
            (s\<lparr>mallocs := t,
               heap := (heap s)\<lparr>threads := (threads (heap s))(ti \<mapsto>
                 \<lparr>tid = thread, local_region = junk, threadinfo_next = 0, gc_waiting = False,
                  current_gc_mark = ucast junk\<rparr>)\<rparr>\<rparr>)) (\<lambda>_ s.
          andthen (attach_thread_to_heap ti s) (\<lambda>_ s. Ret True s)))"

definition pup_heap_thread_init :: "rt \<Rightarrow> (bool, rt) outcome" where
  "pup_heap_thread_init s =
     (case pup_heap_region_allocate s of (r, s) \<Rightarrow>
        if r = NULL then Ret False s
        else
          andthen (attach_thread (self s) s) (\<lambda>ok s.
            if \<not> ok then Aborted
            else andthen (set_local_region r s) (\<lambda>_ s. Ret True s)))"

section \<open>Allocation\<close>

definition have_room_for :: "heap_region \<Rightarrow> u64 \<Rightarrow> bool" where
  "have_room_for r sz \<longleftrightarrow> allocated r + alloc_size_for sz \<le> region_end r"

definition pup_heap_region_have_room_for :: "ptr \<Rightarrow> u64 \<Rightarrow> rt \<Rightarrow> (bool, rt) outcome" where
  "pup_heap_region_have_room_for r sz s =
     deref (regions (heap s) r) (\<lambda>reg. Ret (have_room_for reg sz) s)"

text \<open>
  The block is the memory as mmap gave it, all zero, seen at the type the kind says: an object or
  an attribute entry.
\<close>

definition zero_object :: object where
  "zero_object = \<lparr>otype = 0, attr_list_head = 0, gc_mark = 0, body = PlainBody\<rparr>"

definition zero_attr :: attr_entry where
  "zero_attr = \<lparr>attr_sym = 0, attr_value = 0, attr_next = 0\<rparr>"

definition zero_block :: "heap_kind \<Rightarrow> ptr \<Rightarrow> rt \<Rightarrow> rt" where
  "zero_block k p s =
     (case k of
        PUP_KIND_OBJ \<Rightarrow> s\<lparr>objects := (objects s)(p \<mapsto> zero_object)\<rparr>
      | PUP_KIND_ATTR \<Rightarrow> s\<lparr>attrs := (attrs s)(p \<mapsto> zero_attr)\<rparr>)"

definition pup_heap_region_make_room_for :: "ptr \<Rightarrow> u64 \<Rightarrow> heap_kind \<Rightarrow> rt \<Rightarrow> (ptr, rt) outcome" where
  "pup_heap_region_make_room_for r sz k s =
     deref (regions (heap s) r) (\<lambda>reg.
       let tmp = allocated reg;
           h = heap s;
           h' = h\<lparr>regions := (regions h)(r \<mapsto> reg\<lparr>allocated := tmp + alloc_size_for sz\<rparr>),
                  headers := (headers h)(tmp \<mapsto> \<lparr>object_size = sz, kind = k\<rparr>)\<rparr>
       in Ret (tmp + data_offset) (zero_block k (tmp + data_offset) (s\<lparr>heap := h'\<rparr>)))"

text \<open>
  \<open>pup_object_gc_mark_unconditionally\<close> on the new block: the mark bit of an object; in the block
  of an attribute entry the same bit is the lowest of \<open>next\<close>.
\<close>

definition mark_block :: "heap_kind \<Rightarrow> ptr \<Rightarrow> i32 \<Rightarrow> rt \<Rightarrow> (unit, rt) outcome" where
  "mark_block k p mark_value s =
     (case k of
        PUP_KIND_OBJ \<Rightarrow> with_object p (gc_mark_update (\<lambda>_. ucast mark_value)) s
      | PUP_KIND_ATTR \<Rightarrow>
          deref (attrs s p) (\<lambda>a. Ret () (s\<lparr>attrs := (attrs s)(p \<mapsto>
            a\<lparr>attr_next := (attr_next a AND NOT 1) OR (ucast mark_value AND 1)\<rparr>)\<rparr>)))"

definition global_heap_head :: "rt \<Rightarrow> (ptr, rt) outcome" where
  "global_heap_head s = Ret (region_list (heap s)) s"

definition swap_heap_region_head :: "ptr \<Rightarrow> ptr \<Rightarrow> rt \<Rightarrow> (bool, rt) outcome" where
  "swap_heap_region_head old_region new_region s =
     (if region_list (heap s) = old_region
      then Ret True (s\<lparr>heap := (heap s)\<lparr>region_list := new_region\<rparr>\<rparr>)
      else Ret False s)"

definition set_region_next :: "ptr \<Rightarrow> ptr \<Rightarrow> rt \<Rightarrow> (unit, rt) outcome" where
  "set_region_next r nx s = with_region r (region_next_update (\<lambda>_. nx)) s"

text \<open>The number is what is left of \<open>limit\<close> before a turn; the loop gives up when it reaches 0.\<close>

fun add_to_global_heap_loop :: "nat \<Rightarrow> ptr \<Rightarrow> rt \<Rightarrow> (unit, rt) outcome" where
  "add_to_global_heap_loop 0 r s = Aborted"
| "add_to_global_heap_loop (Suc limit) r s =
     andthen (global_heap_head s) (\<lambda>old_head s.
     andthen (set_region_next r old_head s) (\<lambda>_ s.
     andthen (swap_heap_region_head old_head r s) (\<lambda>swapped s.
       if swapped then Ret () s else add_to_global_heap_loop limit r s)))"

definition pup_heap_add_to_global_heap :: "ptr \<Rightarrow> rt \<Rightarrow> (unit, rt) outcome" where
  "pup_heap_add_to_global_heap r s = add_to_global_heap_loop 1000 r s"

lemma add_to_global_heap_once:
  "pup_heap_add_to_global_heap r s =
     andthen (with_region r (region_next_update (\<lambda>_. region_list (heap s))) s) (\<lambda>_ s'.
       Ret () (s'\<lparr>heap := (heap s')\<lparr>region_list := r\<rparr>\<rparr>))"
proof -
  have l: "(1000 :: nat) = Suc 999"
    by simp
  show ?thesis
    unfolding pup_heap_add_to_global_heap_def l add_to_global_heap_loop.simps
    by (cases "regions (heap s) r")
      (simp_all add: global_heap_head_def set_region_next_def swap_heap_region_head_def with_region_def)
qed

definition thread_local_alloc :: "u64 \<Rightarrow> heap_kind \<Rightarrow> rt \<Rightarrow> (ptr, rt) outcome" where
  "thread_local_alloc sz k s =
     andthen (get_thread_info s) (\<lambda>ti s.
     deref (threads (heap s) ti) (\<lambda>tinfo.
     andthen (pup_heap_region_have_room_for (local_region tinfo) sz s) (\<lambda>room s.
     andthen
       (if room then Ret (local_region tinfo) s
        else case pup_heap_region_allocate s of (r, s) \<Rightarrow>
          abort_on (r = NULL)
            (andthen (set_local_region r s) (\<lambda>_ s.
             andthen (pup_heap_add_to_global_heap (local_region tinfo) s) (\<lambda>_ s. Ret r s))))
       (\<lambda>r s.
         andthen (pup_heap_region_make_room_for r sz k s) (\<lambda>p s.
         deref (threads (heap s) ti) (\<lambda>tinfo.
         andthen (mark_block k p (current_gc_mark tinfo) s) (\<lambda>_ s. Ret p s)))))))"

definition is_large_object :: "u64 \<Rightarrow> bool" where
  "is_large_object sz \<longleftrightarrow> sz > MAX_REGION_ALLOCATION"

definition pup_heap_alloc :: "u64 \<Rightarrow> heap_kind \<Rightarrow> rt \<Rightarrow> (ptr, rt) outcome" where
  "pup_heap_alloc sz k s = abort_on (is_large_object sz) (thread_local_alloc sz k s)"

text \<open>The two entry points of env.c.\<close>

definition pup_alloc_obj :: "u64 \<Rightarrow> rt \<Rightarrow> (ptr, rt) outcome" where
  "pup_alloc_obj sz s = pup_heap_alloc sz PUP_KIND_OBJ s"

definition pup_alloc_attr :: "u64 \<Rightarrow> rt \<Rightarrow> (ptr, rt) outcome" where
  "pup_alloc_attr sz s = pup_heap_alloc sz PUP_KIND_ATTR s"

section \<open>The invariant of the heap\<close>

lemma unat_u64: "unat (x :: u64) < 2 ^ 64"
proof -
  have "unat x < 2 ^ LENGTH(64)"
    by (rule unsigned_less)
  then show ?thesis by simp
qed

lemma unat_add_small: "unat (a :: u64) + unat b < 2 ^ 64 \<Longrightarrow> unat (a + b) = unat a + unat b"
  by (simp add: unat_word_ariths)

text \<open>The addresses of the megabyte from \<open>a\<close> on.\<close>

definition mapped :: "ptr \<Rightarrow> ptr set" where
  "mapped a = {p. unat a \<le> unat p \<and> unat p < unat a + 2 ^ 20}"

definition region_ok :: "heap_region \<Rightarrow> bool" where
  "region_ok R \<longleftrightarrow>
     0 < unat (region R) \<and> unat (region R) + 2 ^ 20 < 2 ^ 47 \<and>
     region_end R = region R + REGION_SIZE \<and>
     region R \<le> allocated R \<and> allocated R \<le> region_end R"

text \<open>
  The blocks of a region: from its start, each header followed by the next one \<open>alloc_size_for\<close>
  of its size further, up to the bump pointer.
\<close>

fun blocks :: "(ptr \<rightharpoonup> heap_object) \<Rightarrow> ptr \<Rightarrow> ptr \<Rightarrow> (ptr \<times> heap_object) list \<Rightarrow> bool" where
  "blocks h a e [] = (a = e)"
| "blocks h a e ((q, ob) # bs) =
     (q = a \<and> h a = Some ob \<and> unat a + unat (object_size ob) + 16 \<le> unat e \<and>
      blocks h (a + alloc_size_for (object_size ob)) e bs)"

text \<open>
  The documented behaviour of mmap: a new mapping covers no address in use, is not at address 0 and
  ends below the top of the address space.
\<close>

fun fresh_maps :: "ptr list \<Rightarrow> ptr set \<Rightarrow> bool" where
  "fresh_maps [] used = True"
| "fresh_maps (a # t) used =
     (if a = MAP_FAILED then fresh_maps t used
      else 0 < unat a \<and> unat a + 2 ^ 20 < 2 ^ 47 \<and> mapped a \<inter> used = {} \<and>
        fresh_maps t (used \<union> mapped a))"

lemma fresh_maps_mono: "fresh_maps t used \<Longrightarrow> used' \<subseteq> used \<Longrightarrow> fresh_maps t used'"
proof (induction t used arbitrary: used' rule: fresh_maps.induct)
  case (1 used)
  show ?case by simp
next
  case (2 a t used)
  show ?case
  proof (cases "a = MAP_FAILED")
    case True
    with "2.IH"(1) "2.prems" show ?thesis by simp
  next
    case False
    have "fresh_maps t (used' \<union> mapped a)"
      by (rule "2.IH"(2)) (use "2.prems" False in auto)
    with False "2.prems" show ?thesis by auto
  qed
qed

lemma fresh_tape_beyond:
  "fresh_tape t used \<Longrightarrow> (\<And>q. q \<in> fst ` set t \<Longrightarrow> q \<noteq> NULL \<Longrightarrow> q \<notin> extra) \<Longrightarrow>
     fresh_tape t (used \<union> extra)"
proof (induction t used rule: fresh_tape.induct)
  case (1 used)
  show ?case by simp
next
  case (2 p junk t used)
  then show ?case by (cases "p = NULL") auto
qed

definition region_addresses :: "pup_heap \<Rightarrow> ptr set" where
  "region_addresses h = (\<Union>r. case regions h r of None \<Rightarrow> {} | Some R \<Rightarrow> mapped (region R))"

text \<open>The blocks malloc has given out and not got back.\<close>

definition malloced :: "rt \<Rightarrow> ptr set" where
  "malloced s =
     dom (regions (heap s)) \<union> dom (threads (heap s)) \<union> dom (methods s) \<union> dom (segments s) \<union>
     dom (unwinds s) \<union> dom (st_entries (sym_tab s)) \<union> dom (objects s)"

definition occupied :: "rt \<Rightarrow> ptr set" where
  "occupied s =
     region_addresses (heap s) \<union> dom (objects s) \<union> dom (attrs s) \<union> dom (headers (heap s)) \<union>
     fst ` set (mallocs s)"

text \<open>
  The memory is well formed: regions are megabytes of their own, filled with blocks up to the bump
  pointer and with nothing above it; nothing is at \<open>NULL\<close>; and malloc and mmap answer as
  documented.
\<close>

definition unused_above :: "rt \<Rightarrow> heap_region \<Rightarrow> bool" where
  "unused_above s R \<longleftrightarrow>
     (\<forall>p \<in> mapped (region R). allocated R \<le> p \<longrightarrow>
        p \<notin> dom (objects s) \<and> p \<notin> dom (attrs s) \<and> p \<notin> dom (headers (heap s)))"

definition heap_wf :: "rt \<Rightarrow> bool" where
  "heap_wf s \<longleftrightarrow>
     (\<forall>r R. regions (heap s) r = Some R \<longrightarrow>
        r \<noteq> NULL \<and> region_ok R \<and> unused_above s R \<and>
        (\<exists>bs. blocks (headers (heap s)) (region R) (allocated R) bs)) \<and>
     (\<forall>r r' R R'. regions (heap s) r = Some R \<longrightarrow> regions (heap s) r' = Some R' \<longrightarrow> r \<noteq> r' \<longrightarrow>
        mapped (region R) \<inter> mapped (region R') = {}) \<and>
     NULL \<notin> dom (objects s) \<and> NULL \<notin> dom (attrs s) \<and>
     fst ` set (mallocs s) \<inter> region_addresses (heap s) \<subseteq> {NULL} \<and>
     fresh_tape (mallocs s) (malloced s) \<and>
     fresh_maps (mmaps s) (occupied s)"

text \<open>The running thread is attached and has a region.\<close>

definition thread_ready :: "rt \<Rightarrow> bool" where
  "thread_ready s \<longleftrightarrow>
     (\<exists>T R. this_thread_info (heap s) (self s) \<noteq> NULL \<and>
        threads (heap s) (this_thread_info (heap s) (self s)) = Some T \<and>
        regions (heap s) (local_region T) = Some R)"

lemma heap_wf_region:
  assumes "heap_wf s" and "regions (heap s) r = Some R"
  shows "r \<noteq> NULL" "region_ok R" "unused_above s R"
    "\<exists>bs. blocks (headers (heap s)) (region R) (allocated R) bs"
  using assms by (auto simp: heap_wf_def)

lemma heap_wf_disjoint:
  "heap_wf s \<Longrightarrow> regions (heap s) r = Some R \<Longrightarrow> regions (heap s) r' = Some R' \<Longrightarrow> r \<noteq> r' \<Longrightarrow>
     mapped (region R) \<inter> mapped (region R') = {}"
  by (simp add: heap_wf_def)

lemma heap_wf_tapes:
  assumes "heap_wf s"
  shows "fst ` set (mallocs s) \<inter> region_addresses (heap s) \<subseteq> {NULL}"
    "fresh_tape (mallocs s) (malloced s)" "fresh_maps (mmaps s) (occupied s)"
    "NULL \<notin> dom (objects s)" "NULL \<notin> dom (attrs s)"
  using assms unfolding heap_wf_def by blast+

lemma heap_wfI:
  assumes "\<And>r R. regions (heap s) r = Some R \<Longrightarrow> r \<noteq> NULL"
    and "\<And>r R. regions (heap s) r = Some R \<Longrightarrow> region_ok R"
    and "\<And>r R. regions (heap s) r = Some R \<Longrightarrow> unused_above s R"
    and "\<And>r R. regions (heap s) r = Some R \<Longrightarrow>
      \<exists>bs. blocks (headers (heap s)) (region R) (allocated R) bs"
    and "\<And>r r' R R'. regions (heap s) r = Some R \<Longrightarrow> regions (heap s) r' = Some R' \<Longrightarrow> r \<noteq> r' \<Longrightarrow>
      mapped (region R) \<inter> mapped (region R') = {}"
    and "NULL \<notin> dom (objects s)" and "NULL \<notin> dom (attrs s)"
    and "fst ` set (mallocs s) \<inter> region_addresses (heap s) \<subseteq> {NULL}"
    and "fresh_tape (mallocs s) (malloced s)" and "fresh_maps (mmaps s) (occupied s)"
  shows "heap_wf s"
  unfolding heap_wf_def using assms by blast

subsection \<open>Bump allocation\<close>

lemma alloc_size_small: "sz \<le> MAX_REGION_ALLOCATION \<Longrightarrow> unat (alloc_size_for sz) = unat sz + 16"
  by (simp add: alloc_size_for_def MAX_REGION_ALLOCATION_def sizeof_HeapObject_def word_le_nat_alt
      unat_add_small)

lemma have_room_small:
  assumes "region_ok R" and "sz \<le> MAX_REGION_ALLOCATION"
  shows "have_room_for R sz \<longleftrightarrow>
     unat (allocated R) + unat sz + 16 \<le> unat (region R) + 2 ^ 20"
    and "unat (region_end R) = unat (region R) + 2 ^ 20"
proof -
  have e: "unat (region_end R) = unat (region R) + 2 ^ 20"
    using assms(1) unat_add_small [of "region R" REGION_SIZE]
    by (simp add: region_ok_def REGION_SIZE_def)
  have "unat (allocated R) \<le> unat (region R) + 2 ^ 20"
    using assms(1) e by (simp add: region_ok_def word_le_nat_alt)
  moreover have "unat sz \<le> 4096"
    using assms(2) by (simp add: MAX_REGION_ALLOCATION_def word_le_nat_alt)
  moreover have "unat (region R) + 2 ^ 20 < 2 ^ 47"
    using assms(1) by (simp add: region_ok_def)
  ultimately show "have_room_for R sz \<longleftrightarrow>
     unat (allocated R) + unat sz + 16 \<le> unat (region R) + 2 ^ 20"
    using e alloc_size_small [OF assms(2)] 
    by (simp add: have_room_for_def word_le_nat_alt unat_word_ariths)
  show "unat (region_end R) = unat (region R) + 2 ^ 20" by (rule e)
qed

lemma blocks_inside:
  "blocks h a e bs \<Longrightarrow> (q, ob) \<in> set bs \<Longrightarrow>
     unat a \<le> unat q \<and> unat q + unat (object_size ob) + 16 \<le> unat e"
proof (induction bs arbitrary: a)
  case Nil
  then show ?case by simp
next
  case (Cons b bs)
  obtain q0 ob0 where b: "b = (q0, ob0)"
    by (cases b)
  with Cons.prems(1) have le: "unat a + unat (object_size ob0) + 16 \<le> unat e"
    and rest: "q0 = a" "blocks h (a + alloc_size_for (object_size ob0)) e bs"
    by auto
  have "unat (object_size ob0) + 16 < 2 ^ 64"
    using le unat_u64 [of e] by simp
  then have sz: "unat (alloc_size_for (object_size ob0)) = unat (object_size ob0) + 16"
    by (simp add: alloc_size_for_def sizeof_HeapObject_def unat_add_small)
  have step: "unat (a + alloc_size_for (object_size ob0)) = unat a + unat (object_size ob0) + 16"
    using le sz unat_u64 [of e] by (simp add: unat_add_small)
  show ?case
  proof (cases "(q, ob) \<in> set bs")
    case True
    from Cons.IH [OF rest(2) True] step show ?thesis by simp
  next
    case False
    with Cons.prems(2) b rest(1) le show ?thesis by auto
  qed
qed

lemma blocks_other_header:
  "(\<And>q ob. (q, ob) \<in> set bs \<Longrightarrow> q \<noteq> x) \<Longrightarrow> blocks (h(x \<mapsto> ob')) a e bs = blocks h a e bs"
  by (induction bs arbitrary: a) force+

lemma blocks_append:
  "blocks h a e bs \<Longrightarrow> h e = Some ob \<Longrightarrow> unat e + unat (object_size ob) + 16 \<le> unat e' \<Longrightarrow>
     e' = e + alloc_size_for (object_size ob) \<Longrightarrow> blocks h a e' (bs @ [(e, ob)])"
proof (induction bs arbitrary: a)
  case Nil
  then show ?case by simp
next
  case (Cons b bs)
  obtain q0 ob0 where b: "b = (q0, ob0)"
    by (cases b)
  then show ?case
    using Cons by auto
qed

text \<open>What the invariant depends on.\<close>

definition region_key :: "heap_region \<Rightarrow> ptr \<times> ptr \<times> ptr" where
  "region_key R = (region R, region_end R, allocated R)"

lemma heap_wf_cong:
  assumes "heap_wf s"
    and key: "\<And>r. map_option region_key (regions (heap s') r) = map_option region_key (regions (heap s) r)"
    and "headers (heap s') = headers (heap s)" and "dom (threads (heap s')) = dom (threads (heap s))"
    and "mallocs s' = mallocs s" and "mmaps s' = mmaps s"
    and "dom (objects s') = dom (objects s)" and "dom (attrs s') = dom (attrs s)"
    and "dom (methods s') = dom (methods s)" and "dom (segments s') = dom (segments s)"
    and "dom (unwinds s') = dom (unwinds s)"
    and "dom (st_entries (sym_tab s')) = dom (st_entries (sym_tab s))"
  shows "heap_wf s'"
proof -
  have R: "\<exists>R0. regions (heap s) r = Some R0 \<and> region R = region R0 \<and>
      region_end R = region_end R0 \<and> allocated R = allocated R0"
    if "regions (heap s') r = Some R" for r R
    using key [of r] that by (cases "regions (heap s) r") (auto simp: region_key_def)
  have "regions (heap s') r = None \<longleftrightarrow> regions (heap s) r = None" for r
    using key [of r] by (cases "regions (heap s') r"; cases "regions (heap s) r") auto
  then have dr: "dom (regions (heap s')) = dom (regions (heap s))"
    by (simp add: dom_def)
  have "(case regions (heap s') r of None \<Rightarrow> {} | Some R \<Rightarrow> mapped (region R)) =
      (case regions (heap s) r of None \<Rightarrow> {} | Some R \<Rightarrow> mapped (region R))" for r
    using key [of r] by (cases "regions (heap s') r"; cases "regions (heap s) r")
      (auto simp: region_key_def)
  then have addr: "region_addresses (heap s') = region_addresses (heap s)"
    by (simp add: region_addresses_def)
  have "malloced s' = malloced s" "occupied s' = occupied s"
    using assms dr addr by (simp_all add: malloced_def occupied_def)
  moreover have "r \<noteq> NULL \<and> region_ok R \<and> unused_above s' R \<and>
      (\<exists>bs. blocks (headers (heap s')) (region R) (allocated R) bs)"
    if r: "regions (heap s') r = Some R" for r R
  proof -
    from R [OF r] obtain R0 where R0: "regions (heap s) r = Some R0" "region R = region R0"
        "region_end R = region_end R0" "allocated R = allocated R0"
      by blast
    have "region_ok R = region_ok R0" "unused_above s' R = unused_above s R0"
      using R0 assms(3,7,8) by (simp_all add: region_ok_def unused_above_def)
    with heap_wf_region [OF assms(1) R0(1)] R0 assms(3) show ?thesis
      by simp
  qed
  moreover have "mapped (region R1) \<inter> mapped (region R2) = {}"
    if "regions (heap s') r1 = Some R1" "regions (heap s') r2 = Some R2" "r1 \<noteq> r2" for r1 r2 R1 R2
    using R [OF that(1)] R [OF that(2)] that(3) assms(1) unfolding heap_wf_def by metis
  ultimately show ?thesis
    using assms addr unfolding heap_wf_def by auto
qed

text \<open>The state after the bump pointer of a region has passed over a new block.\<close>

definition bumped :: "ptr \<Rightarrow> heap_region \<Rightarrow> u64 \<Rightarrow> heap_kind \<Rightarrow> rt \<Rightarrow> rt" where
  "bumped r R sz k s =
     zero_block k (allocated R + data_offset)
       (s\<lparr>heap := (heap s)\<lparr>
           regions := (regions (heap s))(r \<mapsto> R\<lparr>allocated := allocated R + alloc_size_for sz\<rparr>),
           headers := (headers (heap s))(allocated R \<mapsto> \<lparr>object_size = sz, kind = k\<rparr>)\<rparr>\<rparr>)"

lemma make_room_bumped:
  "regions (heap s) r = Some R \<Longrightarrow>
     pup_heap_region_make_room_for r sz k s = Ret (allocated R + data_offset) (bumped r R sz k s)"
  by (simp add: pup_heap_region_make_room_for_def bumped_def Let_def)

lemma bump_addresses:
  assumes "region_ok R" and "sz \<le> MAX_REGION_ALLOCATION" and "have_room_for R sz"
  shows "unat (allocated R + alloc_size_for sz) = unat (allocated R) + unat sz + 16"
    and "unat (allocated R + data_offset) = unat (allocated R) + 9"
    and "allocated R + data_offset \<in> mapped (region R)"
    and "allocated R \<in> mapped (region R)"
    and "unat (allocated R) + unat sz + 16 \<le> unat (region R) + 2 ^ 20"
    and "allocated R + data_offset \<noteq> NULL"
proof -
  have ok: "unat (region R) + 2 ^ 20 < 2 ^ 47" "unat (region R) \<le> unat (allocated R)"
    using assms(1) by (auto simp: region_ok_def word_le_nat_alt)
  show le: "unat (allocated R) + unat sz + 16 \<le> unat (region R) + 2 ^ 20"
    using have_room_small(1) [OF assms(1,2)] assms(3) by simp
  show "unat (allocated R + alloc_size_for sz) = unat (allocated R) + unat sz + 16"
    using le ok alloc_size_small [OF assms(2)] by (simp add: unat_add_small)
  show d: "unat (allocated R + data_offset) = unat (allocated R) + 9"
    using le ok by (simp add: data_offset_def unat_add_small)
  show "allocated R + data_offset \<in> mapped (region R)" "allocated R \<in> mapped (region R)"
    using le ok d by (auto simp: mapped_def)
  show "allocated R + data_offset \<noteq> NULL"
    using d by (metis add_eq_0_iff_both_eq_0 unat_0 zero_neq_numeral)
qed

lemma bumped_sel [simp]:
  "mallocs (bumped r R sz k s) = mallocs s" "mmaps (bumped r R sz k s) = mmaps s"
  "methods (bumped r R sz k s) = methods s" "segments (bumped r R sz k s) = segments s"
  "unwinds (bumped r R sz k s) = unwinds s" "sym_tab (bumped r R sz k s) = sym_tab s"
  "env (bumped r R sz k s) = env s" "self (bumped r R sz k s) = self s"
  "gc (bumped r R sz k s) = gc s" "stdout (bumped r R sz k s) = stdout s"
  "heap (bumped r R sz k s) =
     (heap s)\<lparr>
       regions := (regions (heap s))(r \<mapsto> R\<lparr>allocated := allocated R + alloc_size_for sz\<rparr>),
       headers := (headers (heap s))(allocated R \<mapsto> \<lparr>object_size = sz, kind = k\<rparr>)\<rparr>"
  "objects (bumped r R sz k s) =
     (case k of PUP_KIND_OBJ \<Rightarrow> (objects s)(allocated R + data_offset \<mapsto> zero_object)
      | PUP_KIND_ATTR \<Rightarrow> objects s)"
  "attrs (bumped r R sz k s) =
     (case k of PUP_KIND_OBJ \<Rightarrow> attrs s
      | PUP_KIND_ATTR \<Rightarrow> (attrs s)(allocated R + data_offset \<mapsto> zero_attr))"
  by (simp_all add: bumped_def zero_block_def split: heap_kind.splits)

lemma region_addresses_mem: "regions h r = Some R \<Longrightarrow> p \<in> mapped (region R) \<Longrightarrow> p \<in> region_addresses h"
  unfolding region_addresses_def by (rule UN_I [of r]) auto

lemma region_addresses_bump:
  "regions h r = Some R \<Longrightarrow>
     region_addresses (h\<lparr>regions := (regions h)(r \<mapsto> R\<lparr>allocated := a\<rparr>), headers := hs\<rparr>) =
     region_addresses h"
proof -
  assume r: "regions h r = Some R"
  have "(case ((regions h)(r \<mapsto> R\<lparr>allocated := a\<rparr>)) x of
        None \<Rightarrow> {} | Some R \<Rightarrow> mapped (region R)) =
      (case regions h x of None \<Rightarrow> {} | Some R \<Rightarrow> mapped (region R))" for x
    using r by (cases "x = r") auto
  then show ?thesis
    by (simp del: fun_upd_apply add: region_addresses_def)
qed

lemma fresh_slot:
  assumes "heap_wf s" and "regions (heap s) r = Some R" and "sz \<le> MAX_REGION_ALLOCATION"
    and "have_room_for R sz"
  shows "allocated R + data_offset \<notin> dom (objects s)" "allocated R + data_offset \<notin> dom (attrs s)"
    "allocated R \<notin> dom (headers (heap s))"
proof -
  note R = heap_wf_region [OF assms(1,2)]
  note b = bump_addresses [OF R(2) assms(3,4)]
  have "allocated R \<le> allocated R + data_offset"
    using b(2) by (simp add: word_le_nat_alt)
  with R(3) b(3,4) show "allocated R + data_offset \<notin> dom (objects s)"
    "allocated R + data_offset \<notin> dom (attrs s)" "allocated R \<notin> dom (headers (heap s))"
    by (auto simp: unused_above_def)
qed

text \<open>The addresses that a bump puts to use: a header and a block, in the region and not used before.\<close>

lemma bumped_doms:
  "dom (objects (bumped r R sz k s)) \<subseteq> insert (allocated R + data_offset) (dom (objects s))"
  "dom (attrs (bumped r R sz k s)) \<subseteq> insert (allocated R + data_offset) (dom (attrs s))"
  "dom (headers (heap (bumped r R sz k s))) = insert (allocated R) (dom (headers (heap s)))"
  by (auto split: heap_kind.splits)

lemma bumped_unused:
  assumes "unused_above s X" and "region X' = region X" and "allocated X \<le> allocated X'"
    and "\<And>q. q = allocated R + data_offset \<or> q = allocated R \<Longrightarrow> q \<in> mapped (region X) \<Longrightarrow> q < allocated X'"
  shows "unused_above (bumped r R sz k s) X'"
  unfolding unused_above_def
proof (intro ballI impI)
  fix q
  assume q: "q \<in> mapped (region X')" "allocated X' \<le> q"
  then have "q \<noteq> allocated R + data_offset" "q \<noteq> allocated R"
    using assms(2) assms(4) [of q] by auto
  moreover have "q \<notin> dom (objects s) \<and> q \<notin> dom (attrs s) \<and> q \<notin> dom (headers (heap s))"
    using q assms(1-3) by (simp add: unused_above_def)
  ultimately show "q \<notin> dom (objects (bumped r R sz k s)) \<and> q \<notin> dom (attrs (bumped r R sz k s)) \<and>
      q \<notin> dom (headers (heap (bumped r R sz k s)))"
    using bumped_doms [of r R sz k s] by blast
qed

lemma bumped_region:
  assumes wf: "heap_wf s" and r: "regions (heap s) r = Some R"
    and sz: "sz \<le> MAX_REGION_ALLOCATION" and room: "have_room_for R sz"
  defines "R' \<equiv> R\<lparr>allocated := allocated R + alloc_size_for sz\<rparr>"
  shows "region_ok R'" "unused_above (bumped r R sz k s) R'"
    "\<exists>bs. blocks (headers (heap (bumped r R sz k s))) (region R') (allocated R') bs"
proof -
  note R = heap_wf_region [OF wf r]
  note b = bump_addresses [OF R(2) sz room]
  show "region_ok R'"
    using R(2) b have_room_small(2) [OF R(2) sz]
    by (auto simp: R'_def region_ok_def word_le_nat_alt)
  show "unused_above (bumped r R sz k s) R'"
    by (rule bumped_unused [OF R(3)]) (use b in \<open>auto simp: R'_def word_less_nat_alt word_le_nat_alt\<close>)
  obtain bs where bs: "blocks (headers (heap s)) (region R) (allocated R) bs"
    using R(4) by blast
  moreover have "q \<noteq> allocated R" if "(q, ob) \<in> set bs" for q ob
    using blocks_inside [OF bs that] by auto
  ultimately have "blocks (headers (heap (bumped r R sz k s))) (region R) (allocated R) bs"
    by (simp add: blocks_other_header)
  then have "blocks (headers (heap (bumped r R sz k s))) (region R) (allocated R')
      (bs @ [(allocated R, \<lparr>object_size = sz, kind = k\<rparr>)])"
    by (rule blocks_append) (use b(1) in \<open>simp_all add: R'_def\<close>)
  then show "\<exists>bs. blocks (headers (heap (bumped r R sz k s))) (region R') (allocated R') bs"
    by (auto simp: R'_def)
qed

lemma bumped_other_region:
  assumes wf: "heap_wf s" and r: "regions (heap s) r = Some R"
    and sz: "sz \<le> MAX_REGION_ALLOCATION" and room: "have_room_for R sz"
    and x: "regions (heap s) x = Some X" "x \<noteq> r"
  shows "unused_above (bumped r R sz k s) X"
    "\<exists>bs. blocks (headers (heap (bumped r R sz k s))) (region X) (allocated X) bs"
proof -
  note b = bump_addresses [OF heap_wf_region(2) [OF wf r] sz room]
  note X = heap_wf_region [OF wf x(1)]
  have d: "allocated R + data_offset \<notin> mapped (region X)" "allocated R \<notin> mapped (region X)"
    using heap_wf_disjoint [OF wf x(1) r x(2)] b(3,4) by auto
  show "unused_above (bumped r R sz k s) X"
    by (rule bumped_unused [OF X(3)]) (use d in auto)
  obtain bs where bs: "blocks (headers (heap s)) (region X) (allocated X) bs"
    using X(4) by blast
  have "unat (allocated X) \<le> unat (region X) + 2 ^ 20"
    using X(2) have_room_small(2) [OF X(2) sz] by (simp add: region_ok_def word_le_nat_alt)
  then have "q \<noteq> allocated R" if "(q, ob) \<in> set bs" for q ob
    using blocks_inside [OF bs that] d(2) by (auto simp: mapped_def)
  then show "\<exists>bs. blocks (headers (heap (bumped r R sz k s))) (region X) (allocated X) bs"
    using bs by (intro exI [of _ bs]) (simp add: blocks_other_header)
qed

lemma bumped_tapes:
  fixes k :: heap_kind
  assumes wf: "heap_wf s" and r: "regions (heap s) r = Some R"
    and sz: "sz \<le> MAX_REGION_ALLOCATION" and room: "have_room_for R sz"
  defines "s' \<equiv> bumped r R sz k s"
  shows "fst ` set (mallocs s') \<inter> region_addresses (heap s') \<subseteq> {NULL}"
    "fresh_tape (mallocs s') (malloced s')" "fresh_maps (mmaps s') (occupied s')"
proof -
  note b = bump_addresses [OF heap_wf_region(2) [OF wf r] sz room]
  note tapes = heap_wf_tapes [OF wf]
  let ?p = "allocated R + data_offset"
  have addr: "region_addresses (heap s') = region_addresses (heap s)"
    using r by (simp add: s'_def region_addresses_bump)
  then show "fst ` set (mallocs s') \<inter> region_addresses (heap s') \<subseteq> {NULL}"
    using tapes(1) by (simp add: s'_def)
  have "malloced s' \<subseteq> malloced s \<union> {?p}"
    using bumped_doms [of r R sz k s] r by (auto simp: s'_def malloced_def)
  moreover have "q \<noteq> ?p" if "q \<in> fst ` set (mallocs s)" "q \<noteq> NULL" for q
    using tapes(1) that region_addresses_mem [OF r b(3)] by auto
  then have "fresh_tape (mallocs s) (malloced s \<union> {?p})"
    using tapes(2) by (intro fresh_tape_beyond) auto
  ultimately show "fresh_tape (mallocs s') (malloced s')"
    unfolding s'_def bumped_sel by (rule fresh_tape_mono [rotated])
  have "occupied s' \<subseteq> occupied s"
    using bumped_doms [of r R sz k s] addr b(3,4) region_addresses_mem [OF r]
    by (auto simp: s'_def occupied_def)
  then show "fresh_maps (mmaps s') (occupied s')"
    using tapes(3) unfolding s'_def bumped_sel by (rule fresh_maps_mono [rotated])
qed

lemma heap_wf_bumped:
  assumes wf: "heap_wf s" and r: "regions (heap s) r = Some R"
    and sz: "sz \<le> MAX_REGION_ALLOCATION" and room: "have_room_for R sz"
  shows "heap_wf (bumped r R sz k s)" (is "heap_wf ?s")
proof (rule heap_wfI)
  have cases: "x = r \<and> X = R\<lparr>allocated := allocated R + alloc_size_for sz\<rparr> \<or> x \<noteq> r \<and> regions (heap s) x = Some X"
    if "regions (heap ?s) x = Some X" for x X
    using that by (auto split: if_splits)
  fix x X
  assume x: "regions (heap ?s) x = Some X"
  note reg = bumped_region [OF assms] and oth = bumped_other_region [OF assms]
  show "x \<noteq> NULL" "region_ok X" "unused_above ?s X" "\<exists>bs. blocks (headers (heap ?s)) (region X) (allocated X) bs"
    using cases [OF x] heap_wf_region(1) [OF wf r] reg(1) reg(2,3) [of k]
      heap_wf_region(1,2) [OF wf, of x X] oth [of x X k] by blast+
  show "mapped (region X) \<inter> mapped (region Y) = {}" if y: "regions (heap ?s) y = Some Y" "x \<noteq> y" for y Y
  proof -
    have "\<exists>Z0. regions (heap s) z = Some Z0 \<and> region Z0 = region Z" if "regions (heap ?s) z = Some Z" for z Z
      using cases [OF that] r by auto
    from this [OF x] this [OF y(1)] show ?thesis
      using heap_wf_disjoint [OF wf _ _ y(2)] by metis
  qed
next
  show "NULL \<notin> dom (objects ?s)" "NULL \<notin> dom (attrs ?s)"
    using bumped_doms(1,2) [of r R sz k s] heap_wf_tapes(4,5) [OF wf]
      bump_addresses(6) [OF heap_wf_region(2) [OF wf r] sz room] by auto
qed (rule bumped_tapes [OF assms])+

subsection \<open>A new region\<close>

definition new_region :: "ptr \<Rightarrow> heap_region" where
  "new_region a = \<lparr>region = a, region_end = a + REGION_SIZE, allocated = a, region_next = 0,
     read_only = False\<rparr>"

lemma new_region_sel [simp]:
  "region (new_region a) = a" "region_end (new_region a) = a + REGION_SIZE"
  "allocated (new_region a) = a" "region_next (new_region a) = 0" "\<not> read_only (new_region a)"
  by (simp_all add: new_region_def)

lemma region_allocate_cases:
  obtains (malloc_fails) r junk t where "malloc (mallocs s) = (r, junk, t)" "r = NULL"
    "pup_heap_region_allocate s = (NULL, s\<lparr>mallocs := t\<rparr>)"
  | (mmap_fails) r junk t a t' where "malloc (mallocs s) = (r, junk, t)" "r \<noteq> NULL"
    "mmap (mmaps s) = (a, t')" "a = MAP_FAILED"
    "pup_heap_region_allocate s = (NULL, s\<lparr>mallocs := t, mmaps := t'\<rparr>)"
  | (new) r junk t a t' where "malloc (mallocs s) = (r, junk, t)" "r \<noteq> NULL"
    "mmap (mmaps s) = (a, t')" "a \<noteq> MAP_FAILED"
    "pup_heap_region_allocate s = (r, s\<lparr>mallocs := t, mmaps := t',
       heap := (heap s)\<lparr>regions := (regions (heap s))(r \<mapsto> new_region a)\<rparr>\<rparr>)"
proof -
  obtain r junk t where m: "malloc (mallocs s) = (r, junk, t)"
    by (cases "malloc (mallocs s)")
  obtain a t' where a: "mmap (mmaps s) = (a, t')"
    by (cases "mmap (mmaps s)")
  show thesis
  proof (cases "r = NULL")
    case True
    then show thesis
      using m by (intro malloc_fails) (simp_all add: pup_heap_region_allocate_def)
  next
    case False
    then show thesis
      using m a mmap_fails [OF m False a] new [OF m False a]
      by (cases "a = MAP_FAILED") (simp_all add: pup_heap_region_allocate_def new_region_def)
  qed
qed

lemma mmap_fresh:
  "fresh_maps t used \<Longrightarrow> mmap t = (a, t') \<Longrightarrow> a \<noteq> MAP_FAILED \<Longrightarrow>
     0 < unat a \<and> unat a + 2 ^ 20 < 2 ^ 47 \<and> mapped a \<inter> used = {} \<and> fresh_maps t' (used \<union> mapped a)"
  by (cases t) auto

lemma malloc_tape:
  "malloc t = (p, junk, t') \<Longrightarrow> p \<noteq> NULL \<Longrightarrow> p \<in> fst ` set t \<and> set t' \<subseteq> set t"
  by (cases t) auto

lemma new_region_ok:
  assumes "0 < unat a" and "unat a + 2 ^ 20 < 2 ^ 47"
  shows "region_ok (new_region a)"
proof -
  have "unat (a + REGION_SIZE) = unat a + 2 ^ 20"
    using assms unat_add_small [of a REGION_SIZE] by (simp add: REGION_SIZE_def)
  then show ?thesis
    using assms by (simp add: region_ok_def word_le_nat_alt)
qed

lemma region_addresses_new:
  "r \<notin> dom (regions h) \<Longrightarrow>
     region_addresses (h\<lparr>regions := (regions h)(r \<mapsto> new_region a)\<rparr>) = mapped a \<union> region_addresses h"
proof -
  assume r: "r \<notin> dom (regions h)"
  let ?c = "\<lambda>m x. case m x of None \<Rightarrow> {} | Some R \<Rightarrow> mapped (region R)"
  have "?c ((regions h)(r \<mapsto> new_region a)) x = (if x = r then mapped a else ?c (regions h) x)" for x
    by simp
  then have "region_addresses (h\<lparr>regions := (regions h)(r \<mapsto> new_region a)\<rparr>) =
      (\<Union>x. if x = r then mapped a else ?c (regions h) x)"
    by (simp del: fun_upd_apply add: region_addresses_def)
  also have "\<dots> = mapped a \<union> (\<Union>x. ?c (regions h) x)"
  proof (intro equalityI subsetI)
    fix z
    assume "z \<in> mapped a \<union> (\<Union>x. ?c (regions h) x)"
    then have "z \<in> mapped a \<or> (\<exists>x. z \<in> ?c (regions h) x)"
      by blast
    moreover have "x \<noteq> r" if "z \<in> ?c (regions h) x" for x
      using that r by (auto simp: dom_def)
    ultimately consider "z \<in> mapped a" | x where "x \<noteq> r" "z \<in> ?c (regions h) x"
      by blast
    then show "z \<in> (\<Union>x. if x = r then mapped a else ?c (regions h) x)"
      by cases auto
  qed (auto split: if_splits)
  finally show ?thesis
    by (simp add: region_addresses_def)
qed

lemma new_region_fresh:
  assumes wf: "heap_wf s" and m: "malloc (mallocs s) = (r, junk, t)" "r \<noteq> NULL"
    and a: "mmap (mmaps s) = (a, t')" "a \<noteq> MAP_FAILED"
  shows "r \<notin> dom (regions (heap s))" "mapped a \<inter> occupied s = {}"
    "regions (heap s) x = Some R \<Longrightarrow> mapped a \<inter> mapped (region R) = {}"
proof -
  note tape = heap_wf_tapes(2,3) [OF wf]
  show "r \<notin> dom (regions (heap s))"
    using fresh_tape_head [OF tape(1) m] by (simp add: malloced_def)
  show disj: "mapped a \<inter> occupied s = {}"
    using mmap_fresh [OF tape(2) a] by blast
  show "mapped a \<inter> mapped (region R) = {}" if "regions (heap s) x = Some R"
    using disj region_addresses_mem [OF that] by (auto simp: occupied_def)
qed

lemma new_region_tapes:
  assumes wf: "heap_wf s" and m: "malloc (mallocs s) = (r, junk, t)" "r \<noteq> NULL"
    and a: "mmap (mmaps s) = (a, t')" "a \<noteq> MAP_FAILED"
  defines "s' \<equiv> s\<lparr>mallocs := t, mmaps := t', heap := (heap s)\<lparr>regions := (regions (heap s))(r \<mapsto> new_region a)\<rparr>\<rparr>"
  shows "fst ` set (mallocs s') \<inter> region_addresses (heap s') \<subseteq> {NULL}"
    "fresh_tape (mallocs s') (malloced s')" "fresh_maps (mmaps s') (occupied s')"
proof -
  note tape = heap_wf_tapes(2,3,1) [OF wf]
  note new = new_region_fresh [OF wf m a]
  have addr: "region_addresses (heap s') = mapped a \<union> region_addresses (heap s)"
    using region_addresses_new [OF new(1)] by (simp add: s'_def)
  have left: "fst ` set t \<subseteq> fst ` set (mallocs s)"
    using malloc_tape [OF m] by blast
  moreover have "mapped a \<inter> fst ` set (mallocs s) = {}"
    using new(2) unfolding occupied_def by blast
  ultimately have "fst ` set t \<inter> region_addresses (heap s') \<subseteq> {NULL}"
    using tape(3) addr by blast
  then show "fst ` set (mallocs s') \<inter> region_addresses (heap s') \<subseteq> {NULL}"
    by (simp add: s'_def)
  show "fresh_tape (mallocs s') (malloced s')"
    using fresh_tape_head [OF tape(1) m] by (auto simp: s'_def malloced_def intro: fresh_tape_mono)
  have "occupied s' \<subseteq> occupied s \<union> mapped a"
    using addr left by (auto simp: s'_def occupied_def)
  moreover have "fresh_maps t' (occupied s \<union> mapped a)"
    using mmap_fresh [OF tape(2) a] by blast
  ultimately show "fresh_maps (mmaps s') (occupied s')"
    by (simp add: s'_def fresh_maps_mono)
qed

lemma heap_wf_new_region:
  assumes wf: "heap_wf s" and m: "malloc (mallocs s) = (r, junk, t)" "r \<noteq> NULL"
    and a: "mmap (mmaps s) = (a, t')" "a \<noteq> MAP_FAILED"
  shows "heap_wf (s\<lparr>mallocs := t, mmaps := t',
       heap := (heap s)\<lparr>regions := (regions (heap s))(r \<mapsto> new_region a)\<rparr>\<rparr>)" (is "heap_wf ?s")
    and "r \<notin> dom (regions (heap s))"
proof -
  note new = new_region_fresh [OF assms]
  note fa = mmap_fresh [OF heap_wf_tapes(3) [OF wf] a]
  show "r \<notin> dom (regions (heap s))"
    by (rule new(1))
  show "heap_wf ?s"
  proof (rule heap_wfI)
    have cases: "x = r \<and> X = new_region a \<or> x \<noteq> r \<and> regions (heap s) x = Some X"
      if "regions (heap ?s) x = Some X" for x X
      using that by (auto split: if_splits)
    fix x X
    assume x: "regions (heap ?s) x = Some X"
    have fresh: "unused_above ?s (new_region a)"
      using new(2) by (auto simp: unused_above_def occupied_def)
    have empty: "\<exists>bs. blocks (headers (heap s)) a a bs"
      by (rule exI [of _ "[]"]) simp
    show "x \<noteq> NULL" "region_ok X" "unused_above ?s X"
        "\<exists>bs. blocks (headers (heap ?s)) (region X) (allocated X) bs"
      using cases [OF x] m(2) new_region_ok [of a] fa fresh empty heap_wf_region [OF wf, of x X]
      by (auto simp: unused_above_def)
    show "mapped (region X) \<inter> mapped (region Y) = {}" if y: "regions (heap ?s) y = Some Y" "x \<noteq> y" for y Y
      using cases [OF x] cases [OF y(1)] y(2) heap_wf_disjoint [OF wf, of x X y Y] new(3) [of x X] new(3) [of y Y]
      by (auto simp: Int_commute)
  next
    show "NULL \<notin> dom (objects ?s)" "NULL \<notin> dom (attrs ?s)"
      using heap_wf_tapes(4,5) [OF wf] by simp_all
  qed (rule new_region_tapes [OF assms])+
qed

subsection \<open>What an allocation does\<close>

text \<open>
  The new block of each kind: zero but for the mark bit, which \<open>pup_object_gc_mark_unconditionally\<close>
  sets to the thread's mark.
\<close>

definition marked_object :: "i32 \<Rightarrow> object" where
  "marked_object m = zero_object\<lparr>gc_mark := ucast m\<rparr>"

definition marked_attr :: "i32 \<Rightarrow> attr_entry" where
  "marked_attr m = zero_attr\<lparr>attr_next := ucast m AND 1\<rparr>"

definition stored :: "heap_kind \<Rightarrow> ptr \<Rightarrow> i32 \<Rightarrow> rt \<Rightarrow> rt" where
  "stored k p m s =
     (case k of
        PUP_KIND_OBJ \<Rightarrow> s\<lparr>objects := (objects s)(p \<mapsto> marked_object m)\<rparr>
      | PUP_KIND_ATTR \<Rightarrow> s\<lparr>attrs := (attrs s)(p \<mapsto> marked_attr m)\<rparr>)"

text \<open>The thread of the running code and its mark.\<close>

definition my_thread :: "rt \<Rightarrow> thread_info option" where
  "my_thread s =
     (let ti = this_thread_info (heap s) (self s) in
      if ti = NULL then None else threads (heap s) ti)"

definition my_mark :: "rt \<Rightarrow> i32" where
  "my_mark s = (case my_thread s of None \<Rightarrow> 0 | Some T \<Rightarrow> current_gc_mark T)"

text \<open>
  How many allocations are possible whatever their sizes: the blocks of the largest size that fit in
  the thread's region, and one for each new region that mmap will give before it fails.
\<close>

definition largest_block :: nat where
  "largest_block = 4112"

definition spare :: "rt \<Rightarrow> nat" where
  "spare s =
     (case my_thread s of
        None \<Rightarrow> 0
      | Some T \<Rightarrow>
          (case regions (heap s) (local_region T) of
             None \<Rightarrow> 0
           | Some R \<Rightarrow> unat (region_end R - allocated R) div largest_block)) +
     length (takeWhile (\<lambda>a. a \<noteq> MAP_FAILED) (mmaps s))"

lemma spare_cong:
  "my_thread s' = my_thread s \<Longrightarrow> regions (heap s') = regions (heap s) \<Longrightarrow> mmaps s' = mmaps s \<Longrightarrow>
     spare s' = spare s"
  unfolding spare_def by (simp only:)

lemma spare_heap: "heap s' = heap s \<Longrightarrow> self s' = self s \<Longrightarrow> mmaps s' = mmaps s \<Longrightarrow> spare s' = spare s"
  unfolding spare_def my_thread_def by (simp only:)

lemma spare_update [simp]:
  "spare (s\<lparr>env := e\<rparr>) = spare s" "spare (s\<lparr>objects := obs\<rparr>) = spare s"
  "spare (s\<lparr>mallocs := t\<rparr>) = spare s"
  by (rule spare_heap; simp)+

text \<open>Between the two states at most \<open>n\<close> answers of malloc have been used, and as many allocations.\<close>

definition uses_at_most :: "nat \<Rightarrow> rt \<Rightarrow> rt \<Rightarrow> bool" where
  "uses_at_most n s s' \<longleftrightarrow> (\<exists>k \<le> n. mallocs s' = drop k (mallocs s)) \<and> spare s \<le> spare s' + n"

lemma uses_none: "mallocs s' = mallocs s \<Longrightarrow> spare s' = spare s \<Longrightarrow> uses_at_most n s s'"
  unfolding uses_at_most_def by (intro conjI exI [of _ 0]) simp_all

lemma uses_one:
  "malloc (mallocs s) = (p, junk, t) \<Longrightarrow> mallocs s' = t \<Longrightarrow> spare s' = spare s \<Longrightarrow> uses_at_most (Suc n) s s'"
  unfolding uses_at_most_def
  by (cases "mallocs s"; cases "hd (mallocs s)") (auto intro: exI [of _ 0] exI [of _ 1])

lemma uses_malloc:
  "malloc (mallocs s) = (p, junk, t) \<Longrightarrow> mallocs s' = t \<Longrightarrow>
     heap s' = heap s \<Longrightarrow> self s' = self s \<Longrightarrow> mmaps s' = mmaps s \<Longrightarrow> uses_at_most (Suc n) s s'"
  by (rule uses_one [OF _ _ spare_heap])

lemma uses_trans:
  assumes "uses_at_most n s s'" and "uses_at_most m s' s''"
  shows "uses_at_most (n + m) s s''"
proof -
  obtain k l where "k \<le> n" "mallocs s' = drop k (mallocs s)" "l \<le> m" "mallocs s'' = drop l (mallocs s')"
    using assms by (auto simp: uses_at_most_def)
  then have "k + l \<le> n + m \<and> mallocs s'' = drop (k + l) (mallocs s)"
    by (simp add: add.commute)
  with assms show ?thesis
    unfolding uses_at_most_def by (intro conjI exI [of _ "k + l"]) auto
qed

lemma uses_more: "uses_at_most n s s' \<Longrightarrow> n \<le> m \<Longrightarrow> uses_at_most m s s'"
  unfolding uses_at_most_def by (meson add_left_mono le_trans)

text \<open>
  There are \<open>n\<close> answers of malloc left and none of all is a failure; and besides there is memory for
  \<open>n\<close> allocations.
\<close>

definition answers :: "nat \<Rightarrow> rt \<Rightarrow> bool" where
  "answers n s \<longleftrightarrow> n \<le> length (mallocs s) \<and> NULL \<notin> fst ` set (mallocs s)"

definition plenty :: "nat \<Rightarrow> rt \<Rightarrow> bool" where
  "plenty n s \<longleftrightarrow> answers n s \<and> n \<le> spare s"

lemma answers_less: "answers n s \<Longrightarrow> m \<le> n \<Longrightarrow> answers m s"
  by (simp add: answers_def)

lemma answers_drop: "answers (n + m) s \<Longrightarrow> mallocs s' = drop k (mallocs s) \<Longrightarrow> k \<le> n \<Longrightarrow> answers m s'"
  by (auto simp: answers_def dest!: in_set_dropD)

lemma answers_same: "mallocs s' = mallocs s \<Longrightarrow> answers n s' = answers n s"
  by (simp add: answers_def)

lemma answers_malloc: "answers (Suc n) s \<Longrightarrow> fst (malloc (mallocs s)) \<noteq> NULL"
  by (cases "mallocs s") (auto simp: answers_def)

lemma plenty_uses: "plenty (n + m) s \<Longrightarrow> uses_at_most n s s' \<Longrightarrow> plenty m s'"
  by (auto simp: plenty_def answers_def uses_at_most_def dest!: in_set_dropD)

lemma plenty_less: "plenty n s \<Longrightarrow> m \<le> n \<Longrightarrow> plenty m s"
  by (simp add: plenty_def answers_def)

lemma plenty_malloc: "plenty (Suc n) s \<Longrightarrow> malloc (mallocs s) = (p, junk, t) \<Longrightarrow> p \<noteq> NULL"
  by (cases "mallocs s") (auto simp: plenty_def answers_def)

text \<open>A block takes at most one of the places for blocks.\<close>

lemma places_bumped:
  assumes "unat a \<le> unat e" and "n \<le> largest_block" and "unat a + n \<le> unat (e :: u64)" and "unat x = n"
  shows "unat (e - a) div largest_block \<le> Suc (unat (e - (a + x)) div largest_block)"
proof -
  have ax: "unat (a + x) = unat a + n"
    using assms(3,4) unat_u64 [of e] by (simp add: unat_add_small)
  have ea: "unat (e - a) = unat e - unat a"
    using assms(1) by (simp add: unat_sub word_le_nat_alt)
  have "unat (e - (a + x)) = unat e - (unat a + n)"
    using assms(3) ax by (simp add: unat_sub word_le_nat_alt)
  then have le: "unat (e - a) \<le> unat (e - (a + x)) + largest_block"
    using ea assms(2,3) by simp
  have "(unat (e - (a + x)) + largest_block) div largest_block = Suc (unat (e - (a + x)) div largest_block)"
    by (simp add: largest_block_def)
  with div_le_mono [OF le, of largest_block] show ?thesis
    by simp
qed

text \<open>
  \<open>alloc_step s k p s'\<close>: from \<open>s\<close> to \<open>s'\<close> one block of kind \<open>k\<close> at \<open>p\<close> was allocated.  Nothing but
  the store of that kind, the heap's own structs and the tapes have changed, and the store only
  at the fresh address \<open>p\<close>.
\<close>

definition alloc_step :: "rt \<Rightarrow> heap_kind \<Rightarrow> ptr \<Rightarrow> rt \<Rightarrow> bool" where
  "alloc_step s k p s' \<longleftrightarrow>
     heap_wf s' \<and> thread_ready s' \<and> my_mark s' = my_mark s \<and>
     p \<noteq> NULL \<and> p \<notin> dom (objects s) \<and> p \<notin> dom (attrs s) \<and>
     p \<in> region_addresses (heap s') \<and> region_addresses (heap s) \<subseteq> region_addresses (heap s') \<and>
     uses_at_most 1 s s' \<and>
     s' = stored k p (my_mark s) (s\<lparr>heap := heap s', mallocs := mallocs s', mmaps := mmaps s'\<rparr>)"

lemma stored_sel [simp]:
  "mallocs (stored k p m s) = mallocs s" "mmaps (stored k p m s) = mmaps s"
  "methods (stored k p m s) = methods s" "segments (stored k p m s) = segments s"
  "unwinds (stored k p m s) = unwinds s" "sym_tab (stored k p m s) = sym_tab s"
  "env (stored k p m s) = env s" "self (stored k p m s) = self s"
  "gc (stored k p m s) = gc s" "stdout (stored k p m s) = stdout s"
  "heap (stored k p m s) = heap s"
  "objects (stored k p m s) =
     (case k of PUP_KIND_OBJ \<Rightarrow> (objects s)(p \<mapsto> marked_object m) | PUP_KIND_ATTR \<Rightarrow> objects s)"
  "attrs (stored k p m s) =
     (case k of PUP_KIND_OBJ \<Rightarrow> attrs s | PUP_KIND_ATTR \<Rightarrow> (attrs s)(p \<mapsto> marked_attr m))"
  by (simp_all add: stored_def split: heap_kind.splits)

lemma alloc_step_frame:
  assumes "alloc_step s k p s'"
  shows "methods s' = methods s" "segments s' = segments s" "unwinds s' = unwinds s"
    "sym_tab s' = sym_tab s" "env s' = env s" "self s' = self s" "gc s' = gc s" "stdout s' = stdout s"
    "objects s' = (case k of PUP_KIND_OBJ \<Rightarrow> (objects s)(p \<mapsto> marked_object (my_mark s))
       | PUP_KIND_ATTR \<Rightarrow> objects s)"
    "attrs s' = (case k of PUP_KIND_OBJ \<Rightarrow> attrs s
       | PUP_KIND_ATTR \<Rightarrow> (attrs s)(p \<mapsto> marked_attr (my_mark s)))"
proof -
  have eq: "s' = stored k p (my_mark s) (s\<lparr>heap := heap s', mallocs := mallocs s', mmaps := mmaps s'\<rparr>)"
    using assms by (simp add: alloc_step_def)
  show "methods s' = methods s" "segments s' = segments s" "unwinds s' = unwinds s"
    "sym_tab s' = sym_tab s" "env s' = env s" "self s' = self s" "gc s' = gc s" "stdout s' = stdout s"
    "objects s' = (case k of PUP_KIND_OBJ \<Rightarrow> (objects s)(p \<mapsto> marked_object (my_mark s))
       | PUP_KIND_ATTR \<Rightarrow> objects s)"
    "attrs s' = (case k of PUP_KIND_OBJ \<Rightarrow> attrs s
       | PUP_KIND_ATTR \<Rightarrow> (attrs s)(p \<mapsto> marked_attr (my_mark s)))"
    by (subst eq, simp; cases k; simp)+
qed

lemma ucast_bit_and_1: "ucast (m :: 32 word) AND (1 :: 64 word) = (ucast m :: 64 word) AND 1"
  by simp

lemma thread_ready_alt:
  "thread_ready s \<longleftrightarrow>
     (\<exists>T R. my_thread s = Some T \<and> regions (heap s) (local_region T) = Some R)"
  by (auto simp: thread_ready_def my_thread_def Let_def)

lemma my_thread_cong:
  "this_thread_info (heap s') (self s') = this_thread_info (heap s) (self s) \<Longrightarrow>
     threads (heap s') = threads (heap s) \<Longrightarrow> my_thread s' = my_thread s"
  by (simp add: my_thread_def Let_def)

lemma mark_block_bumped:
  assumes "regions (heap s) r = Some R"
  shows "mark_block k (allocated R + data_offset) m (bumped r R sz k s) =
    Ret () (stored k (allocated R + data_offset) m (s\<lparr>heap := heap (bumped r R sz k s)\<rparr>))"
  using assms
  by (cases k) (simp_all add: mark_block_def with_object_def bumped_def zero_block_def stored_def
      marked_object_def marked_attr_def zero_attr_def)

lemma heap_wf_stored_bumped:
  assumes "heap_wf s" and "regions (heap s) r = Some R"
    and "sz \<le> MAX_REGION_ALLOCATION" and "have_room_for R sz"
  shows "heap_wf (stored k (allocated R + data_offset) m (s\<lparr>heap := heap (bumped r R sz k s)\<rparr>))"
  by (rule heap_wf_cong [OF heap_wf_bumped [OF assms, of k]])
    (cases k; simp add: stored_def)+

text \<open>What is left for others: one place less at most, and no less with a new region.\<close>

lemma spare_bumped:
  assumes r: "regions (heap s) r = Some R" "region_ok R"
    and sz: "sz \<le> MAX_REGION_ALLOCATION" and room: "have_room_for R sz"
    and s': "my_thread s' = my_thread s" "mmaps s' = mmaps s"
      "regions (heap s') = (regions (heap s))(r \<mapsto> R\<lparr>allocated := allocated R + alloc_size_for sz\<rparr>)"
  shows "spare s \<le> spare s' + 1"
proof -
  note b = bump_addresses [OF r(2) sz room]
  have "unat (region_end R - allocated R) div largest_block \<le>
      Suc (unat (region_end R - (allocated R + alloc_size_for sz)) div largest_block)"
  proof (rule places_bumped [where n = "unat sz + 16"])
    show "unat (alloc_size_for sz) = unat sz + 16"
      by (rule alloc_size_small [OF sz])
    show "unat sz + 16 \<le> largest_block"
      using sz by (simp add: largest_block_def MAX_REGION_ALLOCATION_def word_le_nat_alt)
  qed (use b(5) have_room_small(2) [OF r(2) sz] in simp_all)
  then show ?thesis
    using r(1) s' by (simp add: spare_def split: option.split)
qed

lemma spare_refilled:
  assumes T: "my_thread s = Some T" and R: "regions (heap s) (local_region T) = Some R" "region_ok R"
    and full: "\<not> have_room_for R sz" and sz: "sz \<le> MAX_REGION_ALLOCATION"
    and a: "mmap (mmaps s) = (a, t')" "a \<noteq> MAP_FAILED"
    and s': "my_thread s' = Some (T\<lparr>local_region := r\<rparr>)" "regions (heap s') r = Some (new_region a)" "mmaps s' = t'"
  shows "spare s \<le> spare s'"
proof -
  have "unat (allocated R) \<le> unat (region_end R)"
    using R(2) unfolding region_ok_def word_le_nat_alt by blast
  then have "unat (region_end R - allocated R) = unat (region_end R) - unat (allocated R)"
    by (simp add: unat_sub word_le_nat_alt)
  moreover have "unat (region_end R) < unat (allocated R) + unat sz + 16"
    using full have_room_small [OF R(2) sz] by simp
  moreover have "unat sz \<le> 4096"
    using sz by (simp add: MAX_REGION_ALLOCATION_def word_le_nat_alt)
  ultimately have none: "unat (region_end R - allocated R) div largest_block = 0"
    by (simp add: largest_block_def)
  have "1 \<le> unat REGION_SIZE div largest_block"
    by (simp add: REGION_SIZE_def largest_block_def)
  moreover have "length (takeWhile (\<lambda>a. a \<noteq> MAP_FAILED) (mmaps s)) = Suc (length (takeWhile (\<lambda>a. a \<noteq> MAP_FAILED) t'))"
    using a by (cases "mmaps s") auto
  ultimately show ?thesis
    using T R(1) none s' by (simp add: spare_def)
qed

text \<open>Passing the bump pointer over a block and marking it, in a region with room.\<close>

lemma alloc_step_bumped:
  assumes wf: "heap_wf s" and ready: "thread_ready s" and r: "regions (heap s) r = Some R"
    and sz: "sz \<le> MAX_REGION_ALLOCATION" and room: "have_room_for R sz"
  shows "alloc_step s k (allocated R + data_offset)
    (stored k (allocated R + data_offset) (my_mark s) (s\<lparr>heap := heap (bumped r R sz k s)\<rparr>))"
    (is "alloc_step s k ?p ?s")
proof -
  note R = heap_wf_region [OF wf r]
  note b = bump_addresses [OF R(2) sz room]
  have th: "threads (heap ?s) = threads (heap s)" "this_thread_info (heap ?s) = this_thread_info (heap s)"
      "self ?s = self s"
    by (cases k; simp add: stored_def)+
  then have my: "my_thread ?s = my_thread s"
    by (intro my_thread_cong) simp_all
  have "thread_ready ?s"
  proof -
    obtain T Q where T: "my_thread s = Some T" "regions (heap s) (local_region T) = Some Q"
      using ready by (auto simp: thread_ready_alt)
    have "\<exists>Q'. regions (heap ?s) (local_region T) = Some Q'"
      using T(2) by (cases k) (auto simp: stored_def)
    with T(1) my show ?thesis
      by (auto simp: thread_ready_alt)
  qed
  moreover have "uses_at_most 1 s ?s"
    unfolding uses_at_most_def
  proof (intro conjI exI [of _ 0])
    show "spare s \<le> spare ?s + 1"
      by (rule spare_bumped [OF r R(2) sz room my]) simp_all
  qed simp_all
  moreover have "region_addresses (heap ?s) = region_addresses (heap s)"
    using region_addresses_bump [OF r] by (cases k) (simp_all add: stored_def)
  moreover have "heap ?s = heap (bumped r R sz k s)" "mallocs ?s = mallocs s" "mmaps ?s = mmaps s"
    by (cases k; simp add: stored_def)+
  ultimately show ?thesis
    using heap_wf_stored_bumped [OF wf r sz room] fresh_slot [OF wf r sz room] b(6) my
      region_addresses_mem [OF r b(3)]
    by (simp add: alloc_step_def my_mark_def)
qed

text \<open>The state after a full region has been replaced by a new one.\<close>

definition refilled :: "ptr \<Rightarrow> ptr \<Rightarrow> tape \<Rightarrow> ptr list \<Rightarrow> thread_info \<Rightarrow> heap_region \<Rightarrow> rt \<Rightarrow> rt" where
  "refilled r a t t' T R s =
     s\<lparr>mallocs := t, mmaps := t',
       heap := (heap s)\<lparr>
         regions := (regions (heap s))(r \<mapsto> new_region a,
           local_region T \<mapsto> R\<lparr>region_next := region_list (heap s)\<rparr>),
         threads := (threads (heap s))(this_thread_info (heap s) (self s) \<mapsto> T\<lparr>local_region := r\<rparr>),
         region_list := local_region T\<rparr>\<rparr>"

lemma refilled_wf:
  assumes wf: "heap_wf s" and T: "my_thread s = Some T" and R: "regions (heap s) (local_region T) = Some R"
    and m: "malloc (mallocs s) = (r, junk, t)" "r \<noteq> NULL"
    and a: "mmap (mmaps s) = (a, t')" "a \<noteq> MAP_FAILED"
  shows "heap_wf (refilled r a t t' T R s)" and "thread_ready (refilled r a t t' T R s)"
    and "my_mark (refilled r a t t' T R s) = my_mark s"
    and "region_addresses (heap s) \<subseteq> region_addresses (heap (refilled r a t t' T R s))"
    and "regions (heap (refilled r a t t' T R s)) r = Some (new_region a)"
    and "region_ok (new_region a)"
    and "my_thread (refilled r a t t' T R s) = Some (T\<lparr>local_region := r\<rparr>)"
proof -
  let ?s1 = "s\<lparr>mallocs := t, mmaps := t',
       heap := (heap s)\<lparr>regions := (regions (heap s))(r \<mapsto> new_region a)\<rparr>\<rparr>"
  let ?s2 = "refilled r a t t' T R s"
  note wf1 = heap_wf_new_region [OF wf m a]
  have ne: "local_region T \<noteq> r"
    using wf1(2) R by auto
  have ti: "threads (heap s) (this_thread_info (heap s) (self s)) = Some T"
      "this_thread_info (heap s) (self s) \<noteq> NULL"
    using T by (auto simp: my_thread_def Let_def split: if_splits)
  have key: "map_option region_key (regions (heap ?s2) x) = map_option region_key (regions (heap ?s1) x)"
    for x
    using R ne by (simp add: refilled_def region_key_def)
  show wf2: "heap_wf ?s2"
    by (rule heap_wf_cong [OF wf1(1) key]) (use ti in \<open>auto simp: refilled_def\<close>)
  show r: "regions (heap ?s2) r = Some (new_region a)"
    using ne by (simp add: refilled_def)
  show T2: "my_thread ?s2 = Some (T\<lparr>local_region := r\<rparr>)"
    using ti by (simp add: my_thread_def refilled_def Let_def)
  with T show "my_mark ?s2 = my_mark s"
    by (simp add: my_mark_def)
  show "thread_ready ?s2"
    using T2 r by (simp add: thread_ready_alt)
  show "region_ok (new_region a)"
    using heap_wf_region [OF wf2 r] by blast
  show "region_addresses (heap s) \<subseteq> region_addresses (heap ?s2)"
  proof
    fix p
    assume "p \<in> region_addresses (heap s)"
    then obtain x X where X: "regions (heap s) x = Some X" "p \<in> mapped (region X)"
      by (auto simp: region_addresses_def split: option.splits)
    have "x \<noteq> r"
      using X wf1(2) by auto
    with X R ne have "\<exists>Y. regions (heap ?s2) x = Some Y \<and> region Y = region X"
      by (auto simp: refilled_def)
    with X(2) show "p \<in> region_addresses (heap ?s2)"
      by (auto intro: region_addresses_mem)
  qed
qed

lemma my_thread_get:
  "my_thread s = Some T \<Longrightarrow> get_thread_info s = Ret (this_thread_info (heap s) (self s)) s"
  by (simp add: my_thread_def get_thread_info_def Let_def split: if_splits)

lemma my_thread_at:
  "my_thread s = Some T \<Longrightarrow> threads (heap s) (this_thread_info (heap s) (self s)) = Some T"
  by (simp add: my_thread_def Let_def split: if_splits)

text \<open>Allocation in a region that has room, and with a new region.\<close>

lemma alloc_room:
  assumes "my_thread s = Some T" and "regions (heap s) (local_region T) = Some R"
    and "have_room_for R sz"
  shows "thread_local_alloc sz k s = Ret (allocated R + data_offset)
    (stored k (allocated R + data_offset) (my_mark s)
      (s\<lparr>heap := heap (bumped (local_region T) R sz k s)\<rparr>))"
proof -
  have m: "my_mark s = current_gc_mark T"
    using assms(1) by (simp add: my_mark_def)
  show ?thesis
    using assms my_thread_at [OF assms(1)] m
    by (simp add: thread_local_alloc_def my_thread_get pup_heap_region_have_room_for_def
        make_room_bumped mark_block_bumped)
qed

lemma alloc_refill:
  assumes T: "my_thread s = Some T" and R: "regions (heap s) (local_region T) = Some R"
    and full: "\<not> have_room_for R sz"
    and m: "malloc (mallocs s) = (r, junk, t)" "r \<noteq> NULL" "r \<noteq> local_region T"
    and a: "mmap (mmaps s) = (a, t')" "a \<noteq> MAP_FAILED"
  shows "thread_local_alloc sz k s = Ret (a + data_offset)
    (stored k (a + data_offset) (my_mark s)
      ((refilled r a t t' T R s)\<lparr>heap := heap (bumped r (new_region a) sz k (refilled r a t t' T R s))\<rparr>))"
proof -
  let ?s2 = "refilled r a t t' T R s"
  have ti: "threads (heap s) (this_thread_info (heap s) (self s)) = Some T"
      "this_thread_info (heap s) (self s) \<noteq> NULL"
    using T by (auto simp: my_thread_def Let_def split: if_splits)
  have alloc: "pup_heap_region_allocate s = (r, s\<lparr>mallocs := t, mmaps := t',
       heap := (heap s)\<lparr>regions := (regions (heap s))(r \<mapsto> new_region a)\<rparr>\<rparr>)"
    using m a by (simp add: pup_heap_region_allocate_def new_region_def)
  have mk: "my_mark s = current_gc_mark T"
    using T by (simp add: my_mark_def)
  have r2: "regions (heap ?s2) r = Some (new_region a)"
    using m(3) by (simp add: refilled_def)
  have ti2: "threads (heap ?s2) (this_thread_info (heap s) (self s)) = Some (T\<lparr>local_region := r\<rparr>)"
    by (simp add: refilled_def)
  have glob: "andthen (set_local_region r (s\<lparr>mallocs := t, mmaps := t',
       heap := (heap s)\<lparr>regions := (regions (heap s))(r \<mapsto> new_region a)\<rparr>\<rparr>)) (\<lambda>_ s.
      andthen (pup_heap_add_to_global_heap (local_region T) s) (\<lambda>_ s. Ret r s)) = Ret r ?s2"
    using ti R m by (simp add: set_local_region_def get_thread_info_def Let_def with_thread_def
        add_to_global_heap_once with_region_def refilled_def)
  have "thread_local_alloc sz k s =
      andthen (pup_heap_region_make_room_for r sz k ?s2) (\<lambda>p s'.
        deref (threads (heap s') (this_thread_info (heap s) (self s))) (\<lambda>tinfo.
        andthen (mark_block k p (current_gc_mark tinfo) s') (\<lambda>_ s. Ret p s)))"
    using ti R full alloc glob m(2)
    by (simp add: thread_local_alloc_def my_thread_get [OF T] pup_heap_region_have_room_for_def)
  also have "\<dots> = Ret (a + data_offset) (stored k (a + data_offset) (my_mark s)
      (?s2\<lparr>heap := heap (bumped r (new_region a) sz k ?s2)\<rparr>))"
    using mark_block_bumped [OF r2, of k _ sz] ti2 r2 mk by (simp add: make_room_bumped)
  finally show ?thesis .
qed

lemma alloc_step_refilled:
  assumes step: "alloc_step (refilled r a t t' T R s) k p s'" "mallocs s' = t"
    and m: "malloc (mallocs s) = (r, junk, t)" and left: "spare s \<le> spare (refilled r a t t' T R s)"
    and wf: "my_mark (refilled r a t t' T R s) = my_mark s"
      "region_addresses (heap s) \<subseteq> region_addresses (heap (refilled r a t t' T R s))"
  shows "alloc_step s k p s'"
proof -
  have "objects (refilled r a t t' T R s) = objects s" "attrs (refilled r a t t' T R s) = attrs s"
    by (simp_all add: refilled_def)
  moreover have "uses_at_most 1 s s'"
    unfolding uses_at_most_def
  proof
    show "\<exists>k\<le>1. mallocs s' = drop k (mallocs s)"
      using m step(2) by (cases "mallocs s") (auto intro: exI [of _ 0] exI [of _ 1])
    show "spare s \<le> spare s' + 1"
      using step(1) left unfolding alloc_step_def uses_at_most_def by linarith
  qed
  ultimately show ?thesis
    using step(1) wf unfolding alloc_step_def by (auto simp: refilled_def)
qed

text \<open>Whether the next allocation is possible: there is room, or a region can be had.\<close>

definition memory_for :: "u64 \<Rightarrow> rt \<Rightarrow> bool" where
  "memory_for sz s =
     (case my_thread s of
        None \<Rightarrow> False
      | Some T \<Rightarrow>
          (case regions (heap s) (local_region T) of
             None \<Rightarrow> False
           | Some R \<Rightarrow> have_room_for R sz \<or>
               fst (malloc (mallocs s)) \<noteq> NULL \<and> fst (mmap (mmaps s)) \<noteq> MAP_FAILED))"

lemma pup_heap_alloc_step:
  assumes wf: "heap_wf s" and ready: "thread_ready s" and sz: "sz \<le> MAX_REGION_ALLOCATION"
  shows "if memory_for sz s then \<exists>p s'. pup_heap_alloc sz k s = Ret p s' \<and> alloc_step s k p s'
    else pup_heap_alloc sz k s = Aborted"
proof -
  obtain T R where T: "my_thread s = Some T" and R: "regions (heap s) (local_region T) = Some R"
    using ready by (auto simp: thread_ready_alt)
  have tl: "pup_heap_alloc sz k s = thread_local_alloc sz k s"
    using sz leD [OF sz] by (simp add: pup_heap_alloc_def is_large_object_def)
  show ?thesis
  proof (cases "have_room_for R sz")
    case True
    with T R have "memory_for sz s"
      by (simp add: memory_for_def)
    with tl alloc_room [OF T R True] alloc_step_bumped [OF wf ready R sz True] show ?thesis
      by auto
  next
    case False
    have ti: "threads (heap s) (this_thread_info (heap s) (self s)) = Some T"
      by (rule my_thread_at [OF T])
    from region_allocate_cases [of s] show ?thesis
    proof cases
      case malloc_fails
      then show ?thesis
        using T R False tl ti by (simp add: memory_for_def thread_local_alloc_def
            my_thread_get [OF T] pup_heap_region_have_room_for_def)
    next
      case mmap_fails
      then show ?thesis
        using T R False tl ti by (simp add: memory_for_def thread_local_alloc_def
            my_thread_get [OF T] pup_heap_region_have_room_for_def)
    next
      case (new r junk t a t')
      note w = refilled_wf [OF wf T R new(1-4)]
      have ne: "r \<noteq> local_region T"
        using heap_wf_new_region(2) [OF wf new(1-4)] R by auto
      have room: "have_room_for (new_region a) sz"
        using have_room_small(1) [OF w(6) sz] sz
        by (simp add: MAX_REGION_ALLOCATION_def word_le_nat_alt)
      have "memory_for sz s"
        using T R new(1-4) by (simp add: memory_for_def)
      moreover have "spare s \<le> spare (refilled r a t t' T R s)"
        by (rule spare_refilled [OF T R _ False sz new(3,4) w(7,5)])
          (use heap_wf_region(2) [OF wf R] in \<open>simp_all add: refilled_def\<close>)
      ultimately have "alloc_step s k (a + data_offset)
          (stored k (a + data_offset) (my_mark s)
            ((refilled r a t t' T R s)\<lparr>heap := heap (bumped r (new_region a) sz k
              (refilled r a t t' T R s))\<rparr>))"
        using alloc_step_bumped [OF w(1,2,5) sz room] w(3)
        by (intro alloc_step_refilled [OF _ _ new(1) _ w(3,4)]) (simp_all add: refilled_def)
      with \<open>memory_for sz s\<close> show ?thesis
        using tl alloc_refill [OF T R False new(1,2) ne new(3,4)] by auto
    qed
  qed
qed

text \<open>With plenty of memory the allocation succeeds.\<close>

lemma plenty_memory:
  assumes wf: "heap_wf s" and ready: "thread_ready s" and sz: "sz \<le> MAX_REGION_ALLOCATION"
    and room: "plenty (Suc n) s"
  shows "memory_for sz s"
proof -
  obtain T R where T: "my_thread s = Some T" and R: "regions (heap s) (local_region T) = Some R"
    using ready by (auto simp: thread_ready_alt)
  note ok = heap_wf_region(2) [OF wf R]
  show ?thesis
  proof (cases "have_room_for R sz")
    case True
    with T R show ?thesis
      by (simp add: memory_for_def)
  next
    case False
    have "unat (allocated R) \<le> unat (region_end R)"
      using ok unfolding region_ok_def word_le_nat_alt by blast
    then have "unat (region_end R - allocated R) = unat (region_end R) - unat (allocated R)"
      by (simp add: unat_sub word_le_nat_alt)
    moreover have "unat sz \<le> 4096"
      using sz by (simp add: MAX_REGION_ALLOCATION_def word_le_nat_alt)
    ultimately have "unat (region_end R - allocated R) div largest_block = 0"
      using False have_room_small [OF ok sz] by (simp add: largest_block_def)
    with room T R have "takeWhile (\<lambda>a. a \<noteq> MAP_FAILED) (mmaps s) \<noteq> []"
      by (auto simp: plenty_def answers_def spare_def)
    then have "fst (mmap (mmaps s)) \<noteq> MAP_FAILED"
      by (cases "mmaps s") (auto split: if_splits)
    moreover have "fst (malloc (mallocs s)) \<noteq> NULL"
      using plenty_malloc [OF room] by (cases "malloc (mallocs s)") simp
    ultimately show ?thesis
      using T R by (simp add: memory_for_def)
  qed
qed

lemma pup_heap_alloc_ample:
  assumes "heap_wf s" and "thread_ready s" and "sz \<le> MAX_REGION_ALLOCATION" and "plenty (Suc n) s"
  shows "\<exists>p s'. pup_heap_alloc sz k s = Ret p s' \<and> alloc_step s k p s' \<and> plenty n s'"
proof -
  obtain p s' where "pup_heap_alloc sz k s = Ret p s'" "alloc_step s k p s'"
    using pup_heap_alloc_step [OF assms(1-3), of k] plenty_memory [OF assms] by auto
  moreover from this have "plenty n s'"
    using plenty_uses [of 1 n s s'] assms(4) by (simp add: alloc_step_def)
  ultimately show ?thesis by blast
qed

lemma pup_heap_alloc_or_abort:
  assumes "heap_wf s" and "thread_ready s" and "sz \<le> MAX_REGION_ALLOCATION"
  shows "pup_heap_alloc sz k s = Aborted \<and> \<not> plenty 1 s \<or> (\<exists>p s'. pup_heap_alloc sz k s = Ret p s' \<and> alloc_step s k p s')"
  using pup_heap_alloc_step [OF assms, of k] plenty_memory [OF assms, of 0] by (auto split: if_splits)

subsection \<open>Structs from malloc\<close>

text \<open>
  Whatever struct the program puts into a block that malloc gave it (a thread, a method entry, a
  string object), the memory stays well formed.
\<close>

lemma union_insert_mono:
  "A' \<subseteq> insert p A \<Longrightarrow> M' \<subseteq> M \<Longrightarrow> p \<in> M \<Longrightarrow> X \<union> A' \<union> Y \<union> Z \<union> M' \<subseteq> X \<union> A \<union> Y \<union> Z \<union> M"
  by blast

lemma heap_wf_malloc:
  assumes wf: "heap_wf s" and m: "malloc (mallocs s) = (p, junk, t)" "p \<noteq> NULL"
    and same: "regions (heap s') = regions (heap s)" "headers (heap s') = headers (heap s)"
      "dom (attrs s') = dom (attrs s)" "mallocs s' = t" "mmaps s' = mmaps s"
    and obj: "dom (objects s') \<subseteq> insert p (dom (objects s))"
    and used: "malloced s' \<subseteq> insert p (malloced s)"
  shows "heap_wf s'"
proof -
  note tape = heap_wf_tapes(2,3,1) [OF wf]
  note fr = fresh_tape_head [OF tape(1) m] and sub = malloc_tape [OF m]
  have addr: "region_addresses (heap s') = region_addresses (heap s)"
    using same by (simp add: region_addresses_def)
  have p: "p \<notin> region_addresses (heap s)"
    using tape(3) sub m(2) by auto
  have unused: "unused_above s' R" if "regions (heap s) r = Some R" for r R
  proof -
    have "q \<noteq> p" if "q \<in> mapped (region R)" for q
      using p region_addresses_mem [OF \<open>regions (heap s) r = Some R\<close> that] by auto
    with obj have "q \<notin> dom (objects s) \<Longrightarrow> q \<notin> dom (objects s')" if "q \<in> mapped (region R)" for q
      using that by blast
    then show ?thesis
      using heap_wf_region(3) [OF wf that] unfolding unused_above_def same by simp
  qed
  have fresh: "fresh_tape t (malloced s')"
    using fr used by (auto intro: fresh_tape_mono)
  have maps: "fresh_maps (mmaps s) (occupied s')"
  proof (rule fresh_maps_mono [OF tape(2)])
    have "fst ` set t \<subseteq> fst ` set (mallocs s)" "p \<in> fst ` set (mallocs s)"
      using sub by blast+
    with obj show "occupied s' \<subseteq> occupied s"
      unfolding occupied_def addr same by (intro union_insert_mono)
  qed
  have apart: "fst ` set t \<inter> region_addresses (heap s) \<subseteq> {NULL}"
    by (rule order_trans [OF Int_mono [OF image_mono order_refl] tape(3)]) (use sub in simp)
  have null: "NULL \<notin> dom (objects s')"
    using heap_wf_tapes(4) [OF wf] obj m(2) by blast
  show ?thesis
    by (rule heap_wfI; (unfold same addr)?)
      (erule heap_wf_region [OF wf] unused heap_wf_disjoint [OF wf] | assumption |
        rule null heap_wf_tapes(5) [OF wf] apart fresh maps)+
qed

lemma heap_wf_failed_malloc:
  assumes wf: "heap_wf s" and m: "malloc (mallocs s) = (p, junk, t)"
  shows "heap_wf (s\<lparr>mallocs := t\<rparr>)"
proof -
  have sub: "set t \<subseteq> set (mallocs s)"
    using m by (cases "mallocs s") auto
  note tape = heap_wf_tapes [OF wf]
  have "fresh_tape t (malloced s)"
    using tape(2) m by (rule fresh_tape_next)
  moreover have "malloced (s\<lparr>mallocs := t\<rparr>) = malloced s"
    by (simp add: malloced_def)
  moreover have "fresh_maps (mmaps s) (occupied (s\<lparr>mallocs := t\<rparr>))"
    by (rule fresh_maps_mono [OF tape(3)]) (use sub in \<open>auto simp: occupied_def\<close>)
  moreover have "fst ` set t \<inter> region_addresses (heap s) \<subseteq> {NULL}"
    by (rule order_trans [OF Int_mono [OF image_mono order_refl] tape(1)]) (use sub in simp)
  moreover have "unused_above (s\<lparr>mallocs := t\<rparr>) = unused_above s"
    by (rule ext) (simp add: unused_above_def)
  ultimately show ?thesis
    unfolding heap_wf_def rt.simps
    using tape(4,5) heap_wf_region [OF wf] heap_wf_disjoint [OF wf] by simp
qed

subsection \<open>Attaching a thread\<close>

lemma attach_thread_wf:
  assumes wf: "heap_wf s" and at: "attach_thread th s = Ret True s'"
  shows "heap_wf s' \<and> regions (heap s') = regions (heap s) \<and> self s' = self s \<and>
    this_thread_info (heap s') (self s) \<noteq> NULL \<and>
    (\<exists>T. threads (heap s') (this_thread_info (heap s') (self s)) = Some T)"
proof -
  obtain ti junk t where m: "malloc (mallocs s) = (ti, junk, t)"
    by (cases "malloc (mallocs s)")
  with at have ti: "ti \<noteq> NULL"
    by (auto simp: attach_thread_def)
  let ?T = "\<lparr>tid = th, local_region = junk, threadinfo_next = 0, gc_waiting = False,
    current_gc_mark = ucast junk\<rparr>"
  have s': "s' = s\<lparr>mallocs := t, heap := (heap s)\<lparr>threads := (threads (heap s))(ti \<mapsto> ?T),
      this_thread_info := (this_thread_info (heap s))(self s := ti), thread_list := ti\<rparr>\<rparr>"
    using at m ti by (auto simp: attach_thread_def set_thread_info_def attach_thread_to_heap_once)
  have "heap_wf s'"
    by (rule heap_wf_malloc [OF wf m ti]) (auto simp: s' malloced_def)
  then show ?thesis
    using s' ti by simp
qed

lemma set_local_region_wf:
  assumes wf: "heap_wf s" and T: "my_thread s = Some T" and r: "regions (heap s) r = Some R"
  shows "\<exists>s'. set_local_region r s = Ret () s' \<and> heap_wf s' \<and>
    my_thread s' = Some (T\<lparr>local_region := r\<rparr>) \<and> regions (heap s') = regions (heap s)"
proof -
  let ?ti = "this_thread_info (heap s) (self s)"
  have ti: "threads (heap s) ?ti = Some T" "?ti \<noteq> NULL"
    using T by (auto simp: my_thread_def Let_def split: if_splits)
  let ?s' = "s\<lparr>heap := (heap s)\<lparr>threads := (threads (heap s))(?ti \<mapsto> T\<lparr>local_region := r\<rparr>)\<rparr>\<rparr>"
  have "set_local_region r s = Ret () ?s'"
    using ti heap_wf_region(1) [OF wf r]
    by (simp add: set_local_region_def get_thread_info_def with_thread_def)
  moreover have "heap_wf ?s'"
    by (rule heap_wf_cong [OF wf]) (use ti in auto)
  moreover have "my_thread ?s' = Some (T\<lparr>local_region := r\<rparr>)"
    using ti by (simp add: my_thread_def Let_def)
  ultimately show ?thesis by simp
qed

text \<open>
  The first malloc is for the region, the second for the thread struct; a new region has room for
  255 of the largest blocks.
\<close>

lemma thread_init_step:
  assumes wf: "heap_wf s" and m: "malloc (mallocs s) = (r, junk, t)"
  shows "if r = NULL \<or> fst (mmap (mmaps s)) = MAP_FAILED then \<exists>s'. pup_heap_thread_init s = Ret False s'
    else if fst (malloc t) = NULL then pup_heap_thread_init s = Aborted
    else \<exists>s'. pup_heap_thread_init s = Ret True s' \<and> heap_wf s' \<and> thread_ready s' \<and> 255 \<le> spare s' \<and>
      mallocs s' = snd (snd (malloc t))"
proof (cases rule: region_allocate_cases [of s])
  case malloc_fails
  with m show ?thesis
    by (simp add: pup_heap_thread_init_def)
next
  case mmap_fails
  with m show ?thesis
    by (simp add: pup_heap_thread_init_def)
next
  case (new r' junk' t' a maps)
  let ?s1 = "s\<lparr>mallocs := t, mmaps := maps,
       heap := (heap s)\<lparr>regions := (regions (heap s))(r \<mapsto> new_region a)\<rparr>\<rparr>"
  have wf1: "heap_wf ?s1"
    using heap_wf_new_region [OF wf new(1-4)] new(1) m by simp
  obtain ti junk2 t2 where m2: "malloc t = (ti, junk2, t2)"
    by (cases "malloc t")
  show ?thesis
  proof (cases "ti = NULL")
    case True
    with new m m2 show ?thesis
      by (auto simp: pup_heap_thread_init_def attach_thread_def)
  next
    case False
    let ?T = "\<lparr>tid = self s, local_region = junk2, threadinfo_next = 0, gc_waiting = False,
      current_gc_mark = ucast junk2\<rparr>"
    let ?s2 = "?s1\<lparr>mallocs := t2, heap := (heap ?s1)\<lparr>threads := (threads (heap s))(ti \<mapsto> ?T),
      this_thread_info := (this_thread_info (heap s))(self s := ti), thread_list := ti\<rparr>\<rparr>"
    have run: "attach_thread (self s) ?s1 = Ret True ?s2"
      using m2 False by (simp add: attach_thread_def set_thread_info_def attach_thread_to_heap_once)
    have T2: "my_thread ?s2 = Some ?T"
      using False by (simp add: my_thread_def)
    obtain s3 where s3: "set_local_region r ?s2 = Ret () s3" "heap_wf s3"
        "my_thread s3 = Some (?T\<lparr>local_region := r\<rparr>)" "regions (heap s3) = regions (heap ?s2)"
      using set_local_region_wf [OF conjunct1 [OF attach_thread_wf [OF wf1 run]] T2, of r "new_region a"] by auto
    have "pup_heap_thread_init s = Ret True s3"
      using new m run s3(1) by (simp add: pup_heap_thread_init_def)
    moreover have "thread_ready s3"
      using s3(3,4) by (auto simp: thread_ready_alt)
    moreover have "255 \<le> spare s3"
      using s3(3,4) by (simp add: spare_def REGION_SIZE_def largest_block_def)
    moreover have "mallocs s3 = t2"
      using s3(1) T2 False
      by (auto simp: set_local_region_def get_thread_info_def with_thread_def Let_def outcome_simps)
    ultimately show ?thesis
      using new m m2 False s3(2) by simp
  qed
qed

section \<open>The interface of an allocator\<close>

text \<open>
  What the object model relies on: in a good state a good request is answered or the process
  aborts, it is answered when there is room, an answer is a block nothing lives at yet, and
  everything that lived still does.
\<close>

fun alloc_all :: "('c \<Rightarrow> 's \<Rightarrow> (ptr, 's) outcome) \<Rightarrow> 'c list \<Rightarrow> 's \<Rightarrow> (ptr list, 's) outcome" where
  "alloc_all alloc [] s = Ret [] s"
| "alloc_all alloc (c # cs) s =
     andthen (alloc c s) (\<lambda>p s. andthen (alloc_all alloc cs s) (\<lambda>ps s. Ret (p # ps) s))"

locale allocator =
  fixes alloc :: "'c \<Rightarrow> 's \<Rightarrow> (ptr, 's) outcome"
    and good :: "'s \<Rightarrow> bool"
    and request :: "'c \<Rightarrow> bool"
    and live :: "'s \<Rightarrow> ptr set"
    and room :: "nat \<Rightarrow> 's \<Rightarrow> bool"
  assumes alloc_room: "good s \<Longrightarrow> request c \<Longrightarrow> room (Suc n) s \<Longrightarrow> \<exists>p s'. alloc c s = Ret p s' \<and> room n s'"
    and alloc_total: "good s \<Longrightarrow> request c \<Longrightarrow> alloc c s = Aborted \<or> (\<exists>p s'. alloc c s = Ret p s')"
    and alloc_good: "good s \<Longrightarrow> request c \<Longrightarrow> alloc c s = Ret p s' \<Longrightarrow> good s'"
    and alloc_fresh: "good s \<Longrightarrow> request c \<Longrightarrow> alloc c s = Ret p s' \<Longrightarrow> p \<notin> live s \<and> p \<noteq> NULL"
    and alloc_live: "good s \<Longrightarrow> request c \<Longrightarrow> alloc c s = Ret p s' \<Longrightarrow> live s' = insert p (live s)"
begin

lemma all_total:
  "good s \<Longrightarrow> (\<And>c. c \<in> set cs \<Longrightarrow> request c) \<Longrightarrow>
     alloc_all alloc cs s = Aborted \<or> (\<exists>ps s'. alloc_all alloc cs s = Ret ps s')"
proof (induction cs arbitrary: s)
  case Nil
  show ?case by simp
next
  case (Cons c cs)
  have c: "request c"
    using Cons.prems(2) by simp
  from alloc_total [OF Cons.prems(1) c] show ?case
  proof (elim disjE exE)
    fix p s'
    assume a: "alloc c s = Ret p s'"
    with Cons.IH [OF alloc_good [OF Cons.prems(1) c a]] Cons.prems(2) show ?thesis
      by auto
  qed simp
qed

lemma all_room:
  "good s \<Longrightarrow> (\<And>c. c \<in> set cs \<Longrightarrow> request c) \<Longrightarrow> room (length cs) s \<Longrightarrow>
     \<exists>ps s'. alloc_all alloc cs s = Ret ps s'"
proof (induction cs arbitrary: s)
  case Nil
  show ?case by simp
next
  case (Cons c cs)
  have c: "request c"
    using Cons.prems(2) by simp
  obtain p s' where a: "alloc c s = Ret p s'" "room (length cs) s'"
    using alloc_room [OF Cons.prems(1) c, of "length cs"] Cons.prems(3) by auto
  with Cons.IH [OF alloc_good [OF Cons.prems(1) c a(1)] _ a(2)] Cons.prems(2) show ?case
    by auto
qed

lemma all_fresh:
  "good s \<Longrightarrow> (\<And>c. c \<in> set cs \<Longrightarrow> request c) \<Longrightarrow> alloc_all alloc cs s = Ret ps s' \<Longrightarrow>
     good s' \<and> length ps = length cs \<and> distinct ps \<and> NULL \<notin> set ps \<and>
     set ps \<inter> live s = {} \<and> live s' = live s \<union> set ps"
proof (induction cs arbitrary: s ps)
  case Nil
  then show ?case by auto
next
  case (Cons c cs)
  obtain p s1 ps1 where a: "alloc c s = Ret p s1" and rest: "alloc_all alloc cs s1 = Ret ps1 s'"
    and ps: "ps = p # ps1"
    using Cons.prems(3) by (auto simp: outcome_simps)
  have c: "request c"
    using Cons.prems(2) by simp
  note here = alloc_good [OF Cons.prems(1) c a] alloc_fresh [OF Cons.prems(1) c a]
    alloc_live [OF Cons.prems(1) c a]
  have "good s' \<and> length ps1 = length cs \<and> distinct ps1 \<and> NULL \<notin> set ps1 \<and>
      set ps1 \<inter> live s1 = {} \<and> live s' = live s1 \<union> set ps1"
    using Cons.IH [OF here(1) _ rest] Cons.prems(2) by simp
  with here ps show ?case by auto
qed

end

lemma alloc_step_live:
  "alloc_step s k p s' \<Longrightarrow>
     dom (objects s') \<union> dom (attrs s') = insert p (dom (objects s) \<union> dom (attrs s))"
  by (cases k) (auto simp: alloc_step_frame)

text \<open>The heap of the program, a request being a size and a kind.\<close>

interpretation region_heap: allocator "\<lambda>c. pup_heap_alloc (fst c) (snd c)"
  "\<lambda>s. heap_wf s \<and> thread_ready s" "\<lambda>c. fst c \<le> MAX_REGION_ALLOCATION"
  "\<lambda>s. dom (objects s) \<union> dom (attrs s)" plenty
proof
  fix s :: rt and c :: "u64 \<times> heap_kind"
  assume s: "heap_wf s \<and> thread_ready s" and c: "fst c \<le> MAX_REGION_ALLOCATION"
  note step = pup_heap_alloc_step [OF conjunct1 [OF s] conjunct2 [OF s] c, of "snd c"]
  show "pup_heap_alloc (fst c) (snd c) s = Aborted \<or> (\<exists>p s'. pup_heap_alloc (fst c) (snd c) s = Ret p s')"
    using step by (auto split: if_splits)
  show "\<exists>p s'. pup_heap_alloc (fst c) (snd c) s = Ret p s' \<and> plenty n s'" if "plenty (Suc n) s" for n
    using pup_heap_alloc_ample [OF conjunct1 [OF s] conjunct2 [OF s] c that, of "snd c"] by blast
  fix p s'
  assume "pup_heap_alloc (fst c) (snd c) s = Ret p s'"
  then have "alloc_step s (snd c) p s'"
    using step by (auto split: if_splits)
  then show "heap_wf s' \<and> thread_ready s'" "p \<notin> dom (objects s) \<union> dom (attrs s) \<and> p \<noteq> NULL"
    "dom (objects s') \<union> dom (attrs s') = insert p (dom (objects s) \<union> dom (attrs s))"
    by (simp add: alloc_step_def, simp add: alloc_step_def, rule alloc_step_live)
qed

section \<open>Properties\<close>

text \<open>A process before its heap has been set up, and after its first thread has attached.\<close>

definition demo_tape :: tape where
  "demo_tape = [(4096, 0), (8192, 0), (12288, 0), (16384, 0), (20480, 0), (24576, 0), (28672, 0), (32768,
     0), (36864, 0), (40960, 0), (45056, 0), (49152, 0), (53248, 0), (57344, 0), (61440, 0),
     (65536, 0), (69632, 0), (73728, 0), (77824, 0), (81920, 0), (86016, 0), (90112, 0),
     (94208, 0), (98304, 0), (102400, 0), (106496, 0), (110592, 0), (114688, 0), (118784, 0),
     (122880, 0), (126976, 0), (131072, 0), (135168, 0), (139264, 0), (143360, 0), (147456, 0),
     (151552, 0), (155648, 0), (159744, 0), (163840, 0), (167936, 0), (172032, 0), (176128, 0),
     (180224, 0), (184320, 0), (188416, 0), (192512, 0), (196608, 0), (200704, 0), (204800, 0),
     (208896, 0), (212992, 0), (217088, 0), (221184, 0), (225280, 0), (229376, 0), (233472, 0),
     (237568, 0), (241664, 0), (245760, 0), (249856, 0), (253952, 0), (258048, 0), (262144, 0)]"

definition blank :: rt where
  "blank = \<lparr>objects = Map.empty, attrs = Map.empty, methods = Map.empty,
     heap = \<lparr>region_list = 0, thread_list = 0, this_thread_info = (\<lambda>_. 0), regions = Map.empty,
       headers = Map.empty, threads = Map.empty\<rparr>,
     segments = Map.empty, gc = None, unwinds = Map.empty,
     sym_tab = \<lparr>next_sym = 1, st_head = 0, st_entries = Map.empty\<rparr>,
     env = \<lparr>class_object = 0, class_class = 0, class_string = 0, class_exception = 0,
       class_standarderror = 0, class_runtimeerror = 0, class_true = 0, class_false = 0,
       object_true = 0, object_false = 0, class_fixnum = 0\<rparr>,
     self = 7, mallocs = demo_tape, mmaps = [1048576], stdout = []\<rparr>"

definition boot :: rt where
  "boot = (case pup_heap_thread_init blank of Ret ok s \<Rightarrow> s | _ \<Rightarrow> blank)"

lemma blank_wf: "heap_wf blank"
proof -
  have "mapped 1048576 \<inter> occupied blank = {}"
    by (auto simp: mapped_def occupied_def blank_def region_addresses_def demo_tape_def)
  then show ?thesis
    by (simp add: heap_wf_def blank_def malloced_def region_addresses_def mapped_def MAP_FAILED_def
        demo_tape_def)
qed

lemma boot_run: "pup_heap_thread_init blank = Ret True boot"
  by (simp add: boot_def pup_heap_thread_init_def pup_heap_region_allocate_def blank_def demo_tape_def
      MAP_FAILED_def attach_thread_def set_thread_info_def attach_thread_to_heap_once
      set_local_region_def get_thread_info_def with_thread_def)


lemma boot_step: "heap_wf boot" "thread_ready boot" "255 \<le> spare boot" "mallocs boot = drop 2 demo_tape"
proof -
  have m: "malloc (mallocs blank) = (4096, 0, drop 1 demo_tape)" "fst (mmap (mmaps blank)) \<noteq> MAP_FAILED"
    "malloc (drop 1 demo_tape) = (8192, 0, drop 2 demo_tape)"
    by (simp_all add: blank_def demo_tape_def MAP_FAILED_def)
  from thread_init_step [OF blank_wf m(1)] m(2,3) boot_run
  show "heap_wf boot" "thread_ready boot" "255 \<le> spare boot" "mallocs boot = drop 2 demo_tape"
    by simp_all
qed


text \<open>C18: \<open>pup_heap_alloc\<close> of a size the heap supports either has room (in the thread's region, or
  in a new one the operating system gives it) and returns a block where nothing lived before,
  zero but for the thread's mark, with every other object, attribute and method as it was and the
  heap well formed (regions apart from each other, and each a sequence of blocks up to its bump
  pointer); or there is no memory, and it aborts.  It never reads outside its memory.\<close>

theorem pup_heap_alloc_fresh:
  assumes "heap_wf s" and "thread_ready s" and "sz \<le> MAX_REGION_ALLOCATION"
  shows "if memory_for sz s then \<exists>p s'. pup_heap_alloc sz k s = Ret p s' \<and> alloc_step s k p s'
    else pup_heap_alloc sz k s = Aborted"
  by (rule pup_heap_alloc_step [OF assms])

lemma boot_ready: "heap_wf boot" "thread_ready boot" "memory_for 24 boot"
proof -
  show "heap_wf boot" "thread_ready boot"
    by (fact boot_step)+
  show "memory_for 24 boot"
    by (simp_all add: boot_def pup_heap_thread_init_def pup_heap_region_allocate_def blank_def demo_tape_def
        MAP_FAILED_def attach_thread_def set_thread_info_def attach_thread_to_heap_once
        set_local_region_def get_thread_info_def with_thread_def Let_def
        memory_for_def my_thread_def have_room_for_def alloc_size_for_def sizeof_HeapObject_def
        REGION_SIZE_def)
qed

lemma pup_heap_alloc_fresh_witness:
  "\<exists>p s'. pup_heap_alloc 24 PUP_KIND_OBJ boot = Ret p s' \<and> alloc_step boot PUP_KIND_OBJ p s'"
  using pup_heap_alloc_fresh [OF boot_ready(1,2), of 24 PUP_KIND_OBJ] boot_ready(3)
  by (simp add: MAX_REGION_ALLOCATION_def)

text \<open>C7: However many objects and attributes are allocated one after the other, each call is
  answered or the process aborts, and it does not abort when malloc does not fail and there is
  memory for so many blocks; the answers are distinct and none is the address of anything that
  lived before; the heap stays well formed.\<close>

theorem allocations_distinct:
  assumes "heap_wf s" and "thread_ready s"
    and "\<forall>c \<in> set cs. fst c \<le> MAX_REGION_ALLOCATION"
  shows "(plenty (length cs) s \<longrightarrow> alloc_all (\<lambda>c. pup_heap_alloc (fst c) (snd c)) cs s \<noteq> Aborted) \<and>
    (alloc_all (\<lambda>c. pup_heap_alloc (fst c) (snd c)) cs s = Aborted \<or>
    (\<exists>ps s'. alloc_all (\<lambda>c. pup_heap_alloc (fst c) (snd c)) cs s = Ret ps s' \<and>
      heap_wf s' \<and> length ps = length cs \<and> distinct ps \<and>
      set ps \<inter> (dom (objects s) \<union> dom (attrs s)) = {} \<and>
      dom (objects s') \<union> dom (attrs s') = dom (objects s) \<union> dom (attrs s) \<union> set ps))"
    (is "_ \<and> ?answered")
proof (intro conjI impI)
  have good: "heap_wf s \<and> thread_ready s" and req: "\<And>c. c \<in> set cs \<Longrightarrow> fst c \<le> MAX_REGION_ALLOCATION"
    using assms by auto
  show "alloc_all (\<lambda>c. pup_heap_alloc (fst c) (snd c)) cs s \<noteq> Aborted" if "plenty (length cs) s"
    using region_heap.all_room [OF good _ that] req by fastforce
  have "alloc_all (\<lambda>c. pup_heap_alloc (fst c) (snd c)) cs s = Aborted \<or>
      (\<exists>ps s'. alloc_all (\<lambda>c. pup_heap_alloc (fst c) (snd c)) cs s = Ret ps s')"
    by (rule region_heap.all_total) (use good req in blast)+
  then show ?answered
  proof (elim disjE exE)
    fix ps s'
    assume run: "alloc_all (\<lambda>c. pup_heap_alloc (fst c) (snd c)) cs s = Ret ps s'"
    have "(heap_wf s' \<and> thread_ready s') \<and> length ps = length cs \<and> distinct ps \<and> NULL \<notin> set ps \<and>
        set ps \<inter> (dom (objects s) \<union> dom (attrs s)) = {} \<and>
        dom (objects s') \<union> dom (attrs s') = dom (objects s) \<union> dom (attrs s) \<union> set ps"
      by (rule region_heap.all_fresh [OF good _ run]) (rule req)
    with run show ?answered
      by (intro disjI2 exI [of _ ps] exI [of _ s']) simp
  qed simp_all
qed

lemma allocations_distinct_witness:
  "\<exists>ps s'. alloc_all (\<lambda>c. pup_heap_alloc (fst c) (snd c)) [(24, PUP_KIND_OBJ), (24, PUP_KIND_ATTR)] boot
      = Ret ps s' \<and> distinct ps \<and> length ps = 2"
proof -
  let ?cs = "[(24, PUP_KIND_OBJ), (24, PUP_KIND_ATTR)] :: (u64 \<times> heap_kind) list"
  have "plenty (length ?cs) boot"
    using boot_step(3,4) by (simp add: plenty_def answers_def demo_tape_def)
  moreover have "\<forall>c \<in> set ?cs. fst c \<le> MAX_REGION_ALLOCATION"
    by (simp add: MAX_REGION_ALLOCATION_def)
  ultimately obtain ps s' where "alloc_all (\<lambda>c. pup_heap_alloc (fst c) (snd c)) ?cs boot = Ret ps s'"
      "distinct ps" "length ps = length ?cs"
    using allocations_distinct [OF boot_ready(1,2)] by blast
  then show ?thesis
    by simp
qed

end
