(* ===== verification/Objects.thy ===== *)
theory Objects
  imports Heap
begin

text \<open>
  Objects (object.c): the header every object starts with, its list of attributes (instance
  variables, and constants when it is a class), the walk over the references it holds, and its
  mark.  The invariant says that every attribute list ends and belongs to one object.
\<close>

section \<open>Definitions\<close>

definition sizeof_PupObject :: u64 where
  "sizeof_PupObject = 24"

definition sizeof_AttributeListEntry :: u64 where
  "sizeof_AttributeListEntry = 24"

definition obj_init :: "ptr \<Rightarrow> ptr \<Rightarrow> rt \<Rightarrow> (unit, rt) outcome" where
  "obj_init obj class s = with_object obj (\<lambda>ob. ob\<lparr>otype := class, attr_list_head := NULL\<rparr>) s"

definition pup_object_allocate_instance :: "ptr \<Rightarrow> rt \<Rightarrow> (ptr, rt) outcome" where
  "pup_object_allocate_instance class s =
     andthen (pup_alloc_obj sizeof_PupObject s) (\<lambda>obj s.
     andthen (obj_init obj class s) (\<lambda>_ s. Ret obj s))"

text \<open>\<open>name_sym\<close> is a long, the symbol an int: the store and the comparison sign-extend it.\<close>

definition attr_init :: "ptr \<Rightarrow> i32 \<Rightarrow> ptr \<Rightarrow> ptr \<Rightarrow> rt \<Rightarrow> (unit, rt) outcome" where
  "attr_init attr sy val nx s =
     deref (attrs s attr) (\<lambda>_.
       Ret () (s\<lparr>attrs := (attrs s)(attr \<mapsto>
         \<lparr>attr_sym = scast sy, attr_value = val, attr_next = nx\<rparr>)\<rparr>))"

definition find_attr :: "ptr \<Rightarrow> i32 \<Rightarrow> rt \<Rightarrow> (ptr, rt) outcome" where
  "find_attr obj sy s =
     deref (objects s obj) (\<lambda>ob.
       searched (search (attrs s) attr_next (\<lambda>_ a. attr_sym a = scast sy) (attr_list_head ob))
         (\<lambda>attr. Ret attr s)
         (Ret NULL s))"

definition create_attr :: "i32 \<Rightarrow> ptr \<Rightarrow> ptr \<Rightarrow> rt \<Rightarrow> (ptr, rt) outcome" where
  "create_attr sy val nx s =
     andthen (pup_alloc_attr sizeof_AttributeListEntry s) (\<lambda>attr s.
     andthen (attr_init attr sy val nx s) (\<lambda>_ s. Ret attr s))"

definition pup_iv_set :: "ptr \<Rightarrow> i32 \<Rightarrow> ptr \<Rightarrow> rt \<Rightarrow> (unit, rt) outcome" where
  "pup_iv_set obj sy val s =
     andthen (find_attr obj sy s) (\<lambda>attr s.
       if attr \<noteq> NULL then
         deref (attrs s attr) (\<lambda>a. Ret () (s\<lparr>attrs := (attrs s)(attr \<mapsto> a\<lparr>attr_value := val\<rparr>)\<rparr>))
       else
         deref (objects s obj) (\<lambda>ob.
         andthen (create_attr sy val (attr_list_head ob) s) (\<lambda>attr s.
           with_object obj (attr_list_head_update (\<lambda>_. attr)) s)))"

definition pup_iv_get :: "ptr \<Rightarrow> i32 \<Rightarrow> rt \<Rightarrow> (ptr, rt) outcome" where
  "pup_iv_get obj sy s =
     andthen (find_attr obj sy s) (\<lambda>attr s.
       if attr \<noteq> NULL then deref (attrs s attr) (\<lambda>a. Ret (attr_value a) s) else Ret NULL s)"

text \<open>
  A visitor gets the address of a member that holds a reference: the \<open>type\<close> of an object or the
  \<open>value\<close> of an attribute entry.
\<close>

datatype ref_slot = TypeOf ptr | ValueOf ptr

fun slot_value :: "rt \<Rightarrow> ref_slot \<Rightarrow> ptr option" where
  "slot_value s (TypeOf p) = map_option otype (objects s p)"
| "slot_value s (ValueOf a) = map_option attr_value (attrs s a)"

definition pup_object_each_ref ::
    "ptr \<Rightarrow> (ref_slot \<Rightarrow> rt \<Rightarrow> (unit, rt) outcome) \<Rightarrow> rt \<Rightarrow> (unit, rt) outcome" where
  "pup_object_each_ref obj visitor s =
     andthen (visitor (TypeOf obj) s) (\<lambda>_ s.
     deref (objects s obj) (\<lambda>ob.
       of_loop (each_node attrs attr_next (\<lambda>attr. visitor (ValueOf attr)) (attr_list_head ob) s)))"

text \<open>The one-bit member is compared as the int it promotes to, and keeps one bit of the int.\<close>

definition pup_object_gc_mark :: "ptr \<Rightarrow> i32 \<Rightarrow> rt \<Rightarrow> (bool, rt) outcome" where
  "pup_object_gc_mark obj mark_value s =
     deref (objects s obj) (\<lambda>ob.
       if ucast (gc_mark ob) \<noteq> mark_value then
         andthen (with_object obj (gc_mark_update (\<lambda>_. ucast mark_value)) s) (\<lambda>_ s. Ret True s)
       else Ret False s)"

definition pup_object_instanceof :: "ptr \<Rightarrow> ptr \<Rightarrow> rt \<Rightarrow> (bool, rt) outcome" where
  "pup_object_instanceof obj class s = deref (objects s obj) (\<lambda>ob. Ret (otype ob = class) s)"

definition pup_object_destroy_instance :: "ptr \<Rightarrow> rt \<Rightarrow> (unit, rt) outcome" where
  "pup_object_destroy_instance obj s = Ret () s"

section \<open>The attribute lists\<close>

definition attr_chain :: "rt \<Rightarrow> ptr \<Rightarrow> ptr list \<Rightarrow> bool" where
  "attr_chain s p xs \<longleftrightarrow>
     (case objects s p of None \<Rightarrow> False | Some ob \<Rightarrow> chain (attrs s) attr_next (attr_list_head ob) xs)"

text \<open>Every list ends, and no entry is in the lists of two objects.\<close>

definition attrs_wf :: "rt \<Rightarrow> bool" where
  "attrs_wf s \<longleftrightarrow>
     (\<forall>p \<in> dom (objects s). \<exists>xs. attr_chain s p xs) \<and>
     (\<forall>p q xs ys. attr_chain s p xs \<longrightarrow> attr_chain s q ys \<longrightarrow> p \<noteq> q \<longrightarrow> set xs \<inter> set ys = {})"

text \<open>The memory of a running program: what its operations keep.\<close>

definition memory_ok :: "rt \<Rightarrow> bool" where
  "memory_ok s \<longleftrightarrow> heap_wf s \<and> thread_ready s \<and> attrs_wf s"

text \<open>The attributes of an object as a map: the value of the first entry with the symbol.\<close>

definition attr_named :: "rt \<Rightarrow> i32 \<Rightarrow> ptr \<Rightarrow> bool" where
  "attr_named s sy = node_test (attrs s) (\<lambda>_ a. attr_sym a = scast sy)"

definition ivar :: "rt \<Rightarrow> ptr list \<Rightarrow> i32 \<Rightarrow> ptr" where
  "ivar s xs sy =
     (case find (attr_named s sy) xs of
        None \<Rightarrow> NULL
      | Some a \<Rightarrow> (case attrs s a of None \<Rightarrow> NULL | Some e \<Rightarrow> attr_value e))"

lemma attr_chain_unique: "attr_chain s p xs \<Longrightarrow> attr_chain s p ys \<Longrightarrow> xs = ys"
  by (auto simp: attr_chain_def split: option.splits intro: chain_unique)

lemma attr_chain_obj: "attr_chain s p xs \<Longrightarrow> \<exists>ob. objects s p = Some ob"
  by (auto simp: attr_chain_def split: option.splits)

lemma attr_chain_Some:
  "objects s p = Some ob \<Longrightarrow> attr_chain s p xs = chain (attrs s) attr_next (attr_list_head ob) xs"
  by (simp add: attr_chain_def)

lemma attr_chain_in: "attr_chain s p xs \<Longrightarrow> a \<in> set xs \<Longrightarrow> a \<noteq> NULL \<and> a \<in> dom (attrs s)"
  by (auto simp: attr_chain_def split: option.splits dest: chain_in_dom)

lemma attrs_wf_chain:
  "attrs_wf s \<Longrightarrow> p \<in> dom (objects s) \<Longrightarrow> \<exists>xs. attr_chain s p xs"
  by (auto simp: attrs_wf_def)

lemma attrs_wf_apart:
  "attrs_wf s \<Longrightarrow> attr_chain s p xs \<Longrightarrow> attr_chain s q ys \<Longrightarrow> p \<noteq> q \<Longrightarrow> set xs \<inter> set ys = {}"
  unfolding attrs_wf_def by blast

lemma find_attr_chain:
  assumes "attr_chain s p xs"
  shows "find_attr p sy s = Ret (case find (attr_named s sy) xs of None \<Rightarrow> NULL | Some a \<Rightarrow> a) s"
proof -
  obtain ob where ob: "objects s p = Some ob" "chain (attrs s) attr_next (attr_list_head ob) xs"
    using assms by (auto simp: attr_chain_def split: option.splits)
  show ?thesis
    using ob search_chain [OF ob(2), of "\<lambda>_ a. attr_sym a = scast sy"]
    by (simp add: find_attr_def attr_named_def split: option.splits)
qed

lemma find_attr_named:
  assumes "attr_chain s p xs" and "find (attr_named s sy) xs = Some a"
  shows "a \<in> set xs \<and> a \<noteq> NULL \<and> (\<exists>e. attrs s a = Some e \<and> attr_sym e = scast sy)"
proof -
  have "a \<in> set xs" "attr_named s sy a"
    using assms(2) by (auto simp: find_Some_iff)
  with attr_chain_in [OF assms(1)] show ?thesis
    by (auto simp: attr_named_def node_test_def split: option.splits)
qed

text \<open>Reading never changes anything, and reads the map.\<close>

lemma pup_iv_get_chain:
  assumes "attr_chain s p xs"
  shows "pup_iv_get p sy s = Ret (ivar s xs sy) s"
  using assms find_attr_named [OF assms, of sy]
  by (auto simp: pup_iv_get_def find_attr_chain ivar_def split: option.splits)

section \<open>Setting an attribute\<close>

text \<open>What everyone but the readers of attributes sees of the objects.\<close>

definition headless :: "(ptr \<rightharpoonup> object) \<Rightarrow> ptr \<rightharpoonup> object" where
  "headless m = (\<lambda>p. map_option (attr_list_head_update (\<lambda>_. NULL)) (m p))"

definition same_but_attrs :: "rt \<Rightarrow> rt \<Rightarrow> bool" where
  "same_but_attrs s s' \<longleftrightarrow>
     headless (objects s') = headless (objects s) \<and> methods s' = methods s \<and>
     segments s' = segments s \<and> gc s' = gc s \<and> unwinds s' = unwinds s \<and>
     sym_tab s' = sym_tab s \<and> env s' = env s \<and> self s' = self s \<and> stdout s' = stdout s"

lemma headless_object:
  "ob'\<lparr>attr_list_head := NULL\<rparr> = ob\<lparr>attr_list_head := NULL\<rparr> \<Longrightarrow>
     ob' = ob\<lparr>attr_list_head := attr_list_head ob'\<rparr>" for ob ob' :: object
  by (cases ob, cases ob') simp

lemma headless_at:
  assumes "headless m' = headless m"
  shows "map_option (attr_list_head_update (\<lambda>_. NULL)) (m' p) =
    map_option (attr_list_head_update (\<lambda>_. NULL)) (m p)"
  using fun_cong [OF assms, of p] by (simp add: headless_def)

lemma headless_dom: "headless m' = headless m \<Longrightarrow> dom m' = dom m"
proof -
  assume h: "headless m' = headless m"
  have "m' p = None \<longleftrightarrow> m p = None" for p
    using headless_at [OF h, of p] by (cases "m' p"; cases "m p") simp_all
  then show ?thesis by (simp add: dom_def)
qed

lemma headless_upd:
  "m p = Some ob \<Longrightarrow> headless (m(p \<mapsto> ob\<lparr>attr_list_head := a\<rparr>)) = headless m"
  by (rule ext) (simp add: headless_def)

lemma same_but_attrs_dom: "same_but_attrs s s' \<Longrightarrow> dom (objects s') = dom (objects s)"
  by (rule headless_dom) (simp add: same_but_attrs_def)

lemma same_but_attrs_body:
  assumes "same_but_attrs s s'" and "objects s p = Some ob"
  shows "\<exists>h. objects s' p = Some (ob\<lparr>attr_list_head := h\<rparr>)"
proof -
  have "map_option (attr_list_head_update (\<lambda>_. NULL)) (objects s' p) = Some (ob\<lparr>attr_list_head := NULL\<rparr>)"
    using assms headless_at [of "objects s'" "objects s" p] by (simp add: same_but_attrs_def)
  then obtain ob' where "objects s' p = Some ob'" "ob'\<lparr>attr_list_head := NULL\<rparr> = ob\<lparr>attr_list_head := NULL\<rparr>"
    by auto
  with headless_object [of ob' ob] show ?thesis
    by metis
qed

lemma same_but_attrs_class:
  assumes "same_but_attrs s s'"
  shows "class_at s' = class_at s"
proof
  fix p
  show "class_at s' p = class_at s p"
  proof (cases "objects s p")
    case None
    then have "objects s' p = None"
      using same_but_attrs_dom [OF assms] by blast
    with None show ?thesis by (simp add: class_at_def)
  next
    case (Some ob)
    with same_but_attrs_body [OF assms Some] show ?thesis
      by (auto simp: class_at_def the_class_def)
  qed
qed

lemma thread_ready_cong:
  "my_thread s' = my_thread s \<Longrightarrow> regions (heap s') = regions (heap s) \<Longrightarrow> thread_ready s' = thread_ready s"
  by (simp add: thread_ready_alt)

text \<open>The attribute is there: its value is overwritten.\<close>

lemma iv_set_old:
  assumes "attr_chain s p xs" and "find (attr_named s sy) xs = Some a"
  shows "\<exists>e. attrs s a = Some e \<and>
    pup_iv_set p sy v s = Ret () (s\<lparr>attrs := (attrs s)(a \<mapsto> e\<lparr>attr_value := v\<rparr>)\<rparr>)"
  using find_attr_named [OF assms] assms by (auto simp: pup_iv_set_def find_attr_chain)

lemma attr_chain_value_update:
  "attrs s a = Some e \<Longrightarrow>
     attr_chain (s\<lparr>attrs := (attrs s)(a \<mapsto> e\<lparr>attr_value := v\<rparr>)\<rparr>) q ys = attr_chain s q ys"
  unfolding attr_chain_def by (auto split: option.splits intro!: chain_cong)

lemma attr_named_value_update:
  "attrs s a = Some e \<Longrightarrow>
     attr_named (s\<lparr>attrs := (attrs s)(a \<mapsto> e\<lparr>attr_value := v\<rparr>)\<rparr>) sy = attr_named s sy"
  by (rule ext) (simp add: attr_named_def node_test_def)

lemma iv_set_old_ok:
  assumes ok: "memory_ok s" and a: "attrs s a = Some e"
  shows "memory_ok (s\<lparr>attrs := (attrs s)(a \<mapsto> e\<lparr>attr_value := v\<rparr>)\<rparr>)" (is "memory_ok ?s")
proof -
  have "heap_wf ?s"
    by (rule heap_wf_cong [of s]) (use ok a in \<open>auto simp: memory_ok_def\<close>)
  moreover have "thread_ready ?s"
    using ok by (simp add: memory_ok_def thread_ready_def)
  moreover have "attrs_wf ?s"
    using ok attr_chain_value_update [OF a] by (simp add: memory_ok_def attrs_wf_def)
  ultimately show ?thesis
    by (simp add: memory_ok_def)
qed

text \<open>The attribute is new: an entry in front of the list.\<close>

definition attr_pushed :: "ptr \<Rightarrow> object \<Rightarrow> i32 \<Rightarrow> ptr \<Rightarrow> ptr \<Rightarrow> rt \<Rightarrow> rt" where
  "attr_pushed p ob sy v a s =
     s\<lparr>attrs := (attrs s)(a \<mapsto> \<lparr>attr_sym = scast sy, attr_value = v, attr_next = attr_list_head ob\<rparr>),
       objects := (objects s)(p \<mapsto> ob\<lparr>attr_list_head := a\<rparr>)\<rparr>"

lemma iv_set_new:
  assumes ok: "memory_ok s" and ob: "objects s p = Some ob" and xs: "attr_chain s p xs"
    and none: "find (attr_named s sy) xs = None"
  shows "pup_iv_set p sy v s = Aborted \<and> \<not> plenty 1 s \<or>
    (\<exists>a s1. alloc_step s PUP_KIND_ATTR a s1 \<and> pup_iv_set p sy v s = Ret () (attr_pushed p ob sy v a s1))"
proof -
  have wf: "heap_wf s" "thread_ready s" "sizeof_AttributeListEntry \<le> MAX_REGION_ALLOCATION"
    using ok by (simp_all add: memory_ok_def sizeof_AttributeListEntry_def MAX_REGION_ALLOCATION_def)
  from pup_heap_alloc_or_abort [OF wf, of PUP_KIND_ATTR] show ?thesis
  proof (elim disjE exE conjE)
    fix a s1
    assume "pup_heap_alloc sizeof_AttributeListEntry PUP_KIND_ATTR s = Ret a s1"
      and step: "alloc_step s PUP_KIND_ATTR a s1"
    then have a: "pup_alloc_attr sizeof_AttributeListEntry s = Ret a s1"
      by (simp add: pup_alloc_attr_def)
    have "objects s1 = objects s" "attrs s1 a = Some (marked_attr (my_mark s))"
      using alloc_step_frame [OF step] by simp_all
    then have "pup_iv_set p sy v s = Ret () (attr_pushed p ob sy v a s1)"
      using a ob none find_attr_chain [OF xs, of sy]
      by (simp add: pup_iv_set_def create_attr_def attr_init_def with_object_def attr_pushed_def)
    with step show ?thesis by blast
  qed (use ob none find_attr_chain [OF xs, of sy] in
      \<open>simp add: pup_iv_set_def create_attr_def pup_alloc_attr_def\<close>)
qed

lemma attr_pushed_chain:
  assumes step: "alloc_step s PUP_KIND_ATTR a s1" and ob: "objects s p = Some ob"
    and wf: "attrs_wf s"
  shows "attr_chain s q ys \<Longrightarrow>
    attr_chain (attr_pushed p ob sy v a s1) q (if q = p then a # ys else ys)"
proof -
  assume ys: "attr_chain s q ys"
  have a: "a \<noteq> NULL" "a \<notin> dom (attrs s)"
    using step by (simp_all add: alloc_step_def)
  have ny: "a \<notin> set ys"
    using attr_chain_in [OF ys] a by blast
  have fr: "objects s1 = objects s" "attrs s1 = (attrs s)(a \<mapsto> marked_attr (my_mark s))"
    using alloc_step_frame [OF step] by simp_all
  show ?thesis
    using ys ob ny a
    by (auto simp: attr_chain_def attr_pushed_def fr split: option.splits)
qed

lemma attr_pushed_ok:
  assumes ok: "memory_ok s" and step: "alloc_step s PUP_KIND_ATTR a s1" and ob: "objects s p = Some ob"
  shows "memory_ok (attr_pushed p ob sy v a s1)" (is "memory_ok ?s")
    and "same_but_attrs s (attr_pushed p ob sy v a s1)"
proof -
  have wf: "attrs_wf s"
    using ok by (simp add: memory_ok_def)
  have fr: "objects s1 = objects s" "attrs s1 = (attrs s)(a \<mapsto> marked_attr (my_mark s))"
    using alloc_step_frame [OF step] by simp_all
  have a: "a \<notin> dom (attrs s)" "heap_wf s1" "thread_ready s1"
    using step by (simp_all add: alloc_step_def)
  have "heap_wf ?s"
    by (rule heap_wf_cong [OF a(2)]) (use ob fr in \<open>auto simp: attr_pushed_def\<close>)
  moreover have "thread_ready ?s"
    using a(3) by (simp add: thread_ready_def attr_pushed_def)
  moreover have "attrs_wf ?s"
  proof -
    have dom: "dom (objects ?s) = dom (objects s)"
      using ob fr by (auto simp: attr_pushed_def)
    have old: "\<exists>ys. attr_chain s q ys \<and> zs = (if q = p then a # ys else ys)"
      if zs: "attr_chain ?s q zs" for q zs
    proof -
      have "q \<in> dom (objects s)"
        using attr_chain_obj [OF zs] dom by blast
      then obtain ys where ys: "attr_chain s q ys"
        using attrs_wf_chain [OF wf] by blast
      have "zs = (if q = p then a # ys else ys)"
        by (rule attr_chain_unique [OF zs attr_pushed_chain [OF step ob wf ys]])
      with ys show ?thesis by blast
    qed
    show ?thesis
      unfolding attrs_wf_def
    proof (intro conjI ballI allI impI)
      fix q
      assume "q \<in> dom (objects ?s)"
      with dom attrs_wf_chain [OF wf] attr_pushed_chain [OF step ob wf]
      show "\<exists>xs. attr_chain ?s q xs" by blast
    next
      fix q r us vs
      assume "attr_chain ?s q us" "attr_chain ?s r vs" and ne: "q \<noteq> r"
      then obtain us' vs' where u: "attr_chain s q us'" "us = (if q = p then a # us' else us')"
          and v: "attr_chain s r vs'" "vs = (if r = p then a # vs' else vs')"
        using old by blast
      have "a \<notin> set us'" "a \<notin> set vs'"
        using attr_chain_in [OF u(1)] attr_chain_in [OF v(1)] a(1) by blast+
      with attrs_wf_apart [OF wf u(1) v(1) ne] u(2) v(2) ne show "set us \<inter> set vs = {}"
        by auto
    qed
  qed
  ultimately show "memory_ok ?s"
    by (simp add: memory_ok_def)
  show "same_but_attrs s ?s"
    using alloc_step_frame [OF step] headless_upd [of "objects s" p ob, OF ob]
    by (simp add: same_but_attrs_def attr_pushed_def)
qed

section \<open>What setting and getting mean\<close>

definition attr_of :: "rt \<Rightarrow> ptr \<Rightarrow> i32 \<Rightarrow> ptr" where
  "attr_of s p sy = (case pup_iv_get p sy s of Ret v s' \<Rightarrow> v | _ \<Rightarrow> NULL)"

lemma attr_of_chain: "attr_chain s p xs \<Longrightarrow> attr_of s p sy = ivar s xs sy"
  by (simp add: attr_of_def pup_iv_get_chain)

lemma find_cong_set: "(\<And>x. x \<in> set xs \<Longrightarrow> f x = g x) \<Longrightarrow> find f xs = find g xs"
  by (induction xs) auto

lemma ivar_cong:
  assumes "\<And>x. x \<in> set xs \<Longrightarrow> attrs s' x = attrs s x"
  shows "ivar s' xs sy = ivar s xs sy"
proof -
  have "find (attr_named s' sy) xs = find (attr_named s sy) xs"
    by (rule find_cong_set) (simp add: assms attr_named_def node_test_def)
  moreover have "a \<in> set xs" if "find (attr_named s sy) xs = Some a" for a
    using that by (auto simp: find_Some_iff)
  ultimately show ?thesis
    using assms by (cases "find (attr_named s sy) xs") (simp_all add: ivar_def)
qed

lemma ivar_value_update:
  assumes xs: "attr_chain s p xs" and a: "find (attr_named s sy) xs = Some a"
    and e: "attrs s a = Some e" and wf: "attrs_wf s" and ys: "attr_chain s q ys"
  shows "ivar (s\<lparr>attrs := (attrs s)(a \<mapsto> e\<lparr>attr_value := v\<rparr>)\<rparr>) ys k =
    (if q = p \<and> k = sy then v else ivar s ys k)" (is "ivar ?s ys k = _")
proof (cases "q = p")
  case True
  then have ysx: "ys = xs"
    using attr_chain_unique xs ys by blast
  have sym: "attr_sym e = scast sy"
    using find_attr_named [OF xs a] e by auto
  show ?thesis
  proof (cases "k = sy")
    case True
    with ysx \<open>q = p\<close> a e show ?thesis
      by (simp add: ivar_def attr_named_value_update)
  next
    case False
    have "b \<noteq> a" if "find (attr_named s k) ys = Some b" for b
      using find_attr_named [OF ys that] sym e False by auto
    with False show ?thesis
      by (auto simp: ivar_def attr_named_value_update [OF e] split: option.splits)
  qed
next
  case False
  have "a \<in> set xs"
    using find_attr_named [OF xs a] by blast
  then have "a \<notin> set ys"
    using attrs_wf_apart [OF wf xs ys] False by blast
  then have "ivar ?s ys k = ivar s ys k"
    by (intro ivar_cong) auto
  with False show ?thesis by simp
qed

lemma ivar_pushed:
  assumes step: "alloc_step s PUP_KIND_ATTR a s1" and ob: "objects s p = Some ob"
    and ys: "attr_chain s q ys"
  shows "ivar (attr_pushed p ob sy v a s1) (if q = p then a # ys else ys) k =
    (if q = p \<and> k = sy then v else ivar s ys k)" (is "ivar ?s _ k = _")
proof -
  have fr: "attrs s1 = (attrs s)(a \<mapsto> marked_attr (my_mark s))" "a \<notin> dom (attrs s)"
    using alloc_step_frame [OF step] step by (simp_all add: alloc_step_def)
  have "a \<notin> set ys"
    using attr_chain_in [OF ys] fr(2) by blast
  then have "ivar ?s ys k = ivar s ys k"
    by (intro ivar_cong) (auto simp: attr_pushed_def fr(1))
  moreover have "ivar ?s (a # ys) k = (if k = sy then v else ivar ?s ys k)"
    by (simp add: ivar_def attr_named_def node_test_def attr_pushed_def)
  ultimately show ?thesis by auto
qed

definition attr_step :: "rt \<Rightarrow> ptr \<Rightarrow> i32 \<Rightarrow> ptr \<Rightarrow> rt \<Rightarrow> bool" where
  "attr_step s p sy v s' \<longleftrightarrow>
     memory_ok s' \<and> same_but_attrs s s' \<and> my_mark s' = my_mark s \<and> uses_at_most 1 s s' \<and>
     (\<forall>q. q \<noteq> p \<longrightarrow> objects s' q = objects s q) \<and>
     (\<forall>q k. q \<in> dom (objects s) \<longrightarrow> attr_of s' q k = (if q = p \<and> k = sy then v else attr_of s q k))"

lemma attr_pushed_step:
  assumes ok: "memory_ok s" and step: "alloc_step s PUP_KIND_ATTR a s1" and ob: "objects s p = Some ob"
  shows "attr_step s p sy v (attr_pushed p ob sy v a s1)"
proof -
  let ?s = "attr_pushed p ob sy v a s1"
  have wf: "attrs_wf s"
    using ok by (simp add: memory_ok_def)
  have "attr_of ?s q k = (if q = p \<and> k = sy then v else attr_of s q k)" if q: "q \<in> dom (objects s)" for q k
  proof -
    obtain ys where ys: "attr_chain s q ys"
      using attrs_wf_chain [OF wf q] by blast
    show ?thesis
      by (simp only: attr_of_chain [OF attr_pushed_chain [OF step ob wf ys]]
          ivar_pushed [OF step ob ys] attr_of_chain [OF ys])
  qed
  moreover have "my_mark ?s = my_mark s1" "mallocs ?s = mallocs s1"
    by (simp_all add: attr_pushed_def my_mark_def my_thread_def Let_def)
  moreover have "spare ?s = spare s1"
    by (rule spare_heap) (simp_all add: attr_pushed_def)
  ultimately show ?thesis
    using attr_pushed_ok [OF ok step ob] alloc_step_frame(9) [OF step] step
    by (simp add: attr_step_def attr_pushed_def alloc_step_def uses_at_most_def)
qed

lemma value_update_step:
  assumes ok: "memory_ok s" and xs: "attr_chain s p xs" and a: "find (attr_named s sy) xs = Some a"
    and e: "attrs s a = Some e"
  shows "attr_step s p sy v (s\<lparr>attrs := (attrs s)(a \<mapsto> e\<lparr>attr_value := v\<rparr>)\<rparr>)" (is "attr_step s p sy v ?s")
proof -
  have wf: "attrs_wf s"
    using ok by (simp add: memory_ok_def)
  have "attr_of ?s q k = (if q = p \<and> k = sy then v else attr_of s q k)" if q: "q \<in> dom (objects s)" for q k
  proof -
    obtain ys where ys: "attr_chain s q ys"
      using attrs_wf_chain [OF wf q] by blast
    then have "attr_chain ?s q ys"
      by (simp only: attr_chain_value_update [OF e])
    then show ?thesis
      by (simp only: attr_of_chain [OF \<open>attr_chain ?s q ys\<close>] attr_of_chain [OF ys]
          ivar_value_update [OF xs a e wf ys])
  qed
  moreover have "my_mark ?s = my_mark s"
    by (simp add: my_mark_def my_thread_def Let_def)
  moreover have "uses_at_most 1 s ?s"
    by (rule uses_none [OF _ spare_heap]) simp_all
  ultimately show ?thesis
    using iv_set_old_ok [OF ok e] by (simp add: attr_step_def same_but_attrs_def)
qed

lemma iv_set_step:
  assumes ok: "memory_ok s" and p: "p \<in> dom (objects s)"
  shows "pup_iv_set p sy v s = Aborted \<and> \<not> plenty 1 s \<or>
    (\<exists>s'. pup_iv_set p sy v s = Ret () s' \<and> attr_step s p sy v s')"
proof -
  obtain ob where ob: "objects s p = Some ob"
    using p by blast
  obtain xs where xs: "attr_chain s p xs"
    using attrs_wf_chain [of s p] ok p by (auto simp: memory_ok_def)
  show ?thesis
  proof (cases "find (attr_named s sy) xs")
    case None
    from iv_set_new [OF ok ob xs None, of v] show ?thesis
      using attr_pushed_step [OF ok _ ob, of _ _ sy v] by blast
  next
    case (Some a)
    from iv_set_old [OF xs Some, of v] show ?thesis
      using value_update_step [OF ok xs Some] by blast
  qed
qed

lemma iv_get_attr_of:
  assumes "attrs_wf s" and "p \<in> dom (objects s)"
  shows "pup_iv_get p sy s = Ret (attr_of s p sy) s"
  using attrs_wf_chain [OF assms] by (auto simp: pup_iv_get_chain attr_of_chain)

section \<open>The interface of an attribute store\<close>

text \<open>Setting a sequence of attributes, of any objects, in order.\<close>

fun set_all :: "('o \<Rightarrow> 'k \<Rightarrow> 'v \<Rightarrow> 's \<Rightarrow> (unit, 's) outcome) \<Rightarrow> ('o \<times> 'k \<times> 'v) list \<Rightarrow> 's \<Rightarrow> (unit, 's) outcome" where
  "set_all put [] s = Ret () s"
| "set_all put ((p, k, v) # ws) s = andthen (put p k v s) (\<lambda>_ s. set_all put ws s)"

text \<open>The value last written, or the one from before.\<close>

fun last_write :: "'o \<Rightarrow> 'k \<Rightarrow> ('o \<times> 'k \<times> 'v) list \<Rightarrow> 'v \<Rightarrow> 'v" where
  "last_write p k [] v = v"
| "last_write p k ((q, j, w) # ws) v = last_write p k ws (if p = q \<and> k = j then w else v)"

locale attribute_store =
  fixes get :: "'s \<Rightarrow> 'o \<Rightarrow> 'k \<Rightarrow> 'v"
    and put :: "'o \<Rightarrow> 'k \<Rightarrow> 'v \<Rightarrow> 's \<Rightarrow> (unit, 's) outcome"
    and good :: "'s \<Rightarrow> bool"
    and objs :: "'s \<Rightarrow> 'o set"
    and room :: "nat \<Rightarrow> 's \<Rightarrow> bool"
  assumes put_room: "good s \<Longrightarrow> p \<in> objs s \<Longrightarrow> room (Suc n) s \<Longrightarrow> \<exists>s'. put p k v s = Ret () s' \<and> room n s'"
    and put_total: "good s \<Longrightarrow> p \<in> objs s \<Longrightarrow> put p k v s = Aborted \<or> (\<exists>s'. put p k v s = Ret () s')"
    and put_good: "good s \<Longrightarrow> p \<in> objs s \<Longrightarrow> put p k v s = Ret () s' \<Longrightarrow> good s' \<and> objs s' = objs s"
    and get_put: "good s \<Longrightarrow> p \<in> objs s \<Longrightarrow> put p k v s = Ret () s' \<Longrightarrow> q \<in> objs s \<Longrightarrow>
      get s' q j = (if q = p \<and> j = k then v else get s q j)"
begin

lemma puts_total:
  "good s \<Longrightarrow> fst ` set ws \<subseteq> objs s \<Longrightarrow>
     set_all put ws s = Aborted \<or> (\<exists>s'. set_all put ws s = Ret () s')"
proof (induction ws arbitrary: s)
  case Nil
  show ?case by simp
next
  case (Cons w ws)
  obtain p k v where w: "w = (p, k, v)"
    by (cases w)
  have p: "p \<in> objs s" and rest: "fst ` set ws \<subseteq> objs s"
    using Cons.prems(2) w by auto
  from put_total [OF Cons.prems(1) p, of k v] show ?case
  proof (elim disjE exE)
    fix s'
    assume s': "put p k v s = Ret () s'"
    from put_good [OF Cons.prems(1) p s'] rest Cons.IH [of s'] s' w show ?thesis
      by auto
  qed (simp add: w)
qed

lemma puts_room:
  "good s \<Longrightarrow> fst ` set ws \<subseteq> objs s \<Longrightarrow> room (length ws) s \<Longrightarrow> \<exists>s'. set_all put ws s = Ret () s'"
proof (induction ws arbitrary: s)
  case Nil
  show ?case by simp
next
  case (Cons w ws)
  obtain p k v where w: "w = (p, k, v)"
    by (cases w)
  have p: "p \<in> objs s" and rest: "fst ` set ws \<subseteq> objs s"
    using Cons.prems(2) w by auto
  obtain s' where s': "put p k v s = Ret () s'" "room (length ws) s'"
    using put_room [OF Cons.prems(1) p, of "length ws" k v] Cons.prems(3) by auto
  from put_good [OF Cons.prems(1) p s'(1)] rest Cons.IH [of s'] s' w show ?case
    by auto
qed

lemma puts_get:
  "good s \<Longrightarrow> fst ` set ws \<subseteq> objs s \<Longrightarrow> set_all put ws s = Ret () s' \<Longrightarrow>
     good s' \<and> objs s' = objs s \<and> (\<forall>q \<in> objs s. \<forall>j. get s' q j = last_write q j ws (get s q j))"
proof (induction ws arbitrary: s)
  case Nil
  then show ?case by simp
next
  case (Cons w ws)
  obtain p k v where w: "w = (p, k, v)"
    by (cases w)
  have p: "p \<in> objs s" and rest: "fst ` set ws \<subseteq> objs s"
    using Cons.prems(2) w by auto
  obtain s1 where s1: "put p k v s = Ret () s1" "set_all put ws s1 = Ret () s'"
    using Cons.prems(3) w by (auto simp: outcome_simps)
  note g = put_good [OF Cons.prems(1) p s1(1)]
  have IH: "good s' \<and> objs s' = objs s1 \<and> (\<forall>q \<in> objs s1. \<forall>j. get s' q j = last_write q j ws (get s1 q j))"
    by (rule Cons.IH) (use g rest s1 in auto)
  with g get_put [OF Cons.prems(1) p s1(1)] w show ?case
    by auto
qed

end

lemma same_but_attrs_refl: "same_but_attrs s s"
  by (simp add: same_but_attrs_def)

interpretation ivars: attribute_store attr_of pup_iv_set memory_ok "\<lambda>s. dom (objects s)" plenty
proof
  fix s p k v
  assume s: "memory_ok s" "p \<in> dom (objects s)"
  note step = iv_set_step [OF s, of k v]
  show "pup_iv_set p k v s = Aborted \<or> (\<exists>s'. pup_iv_set p k v s = Ret () s')"
    using step by blast
  show "\<exists>s'. pup_iv_set p k v s = Ret () s' \<and> plenty n s'" if "plenty (Suc n) s" for n
  proof -
    have "plenty 1 s"
      by (rule plenty_less [OF that]) simp
    with step obtain s' where "pup_iv_set p k v s = Ret () s'" "attr_step s p k v s'"
      by auto
    with plenty_uses [of 1 n s s'] that show ?thesis
      by (auto simp: attr_step_def)
  qed
  fix s' q j
  assume "pup_iv_set p k v s = Ret () s'"
  with step have st: "attr_step s p k v s'"
    by auto
  then show "memory_ok s' \<and> dom (objects s') = dom (objects s)"
    using same_but_attrs_dom by (auto simp: attr_step_def)
  show "attr_of s' q j = (if q = p \<and> j = k then v else attr_of s q j)" if "q \<in> dom (objects s)"
    using st that by (simp add: attr_step_def)
qed

section \<open>New objects\<close>

definition new_object :: "ptr \<Rightarrow> i32 \<Rightarrow> body \<Rightarrow> object" where
  "new_object class m b = \<lparr>otype = class, attr_list_head = NULL, gc_mark = ucast m, body = b\<rparr>"

text \<open>What every constructor promises: an object of its class at a fresh address, the rest as before.\<close>

definition obj_step :: "rt \<Rightarrow> ptr \<Rightarrow> ptr \<Rightarrow> body \<Rightarrow> rt \<Rightarrow> bool" where
  "obj_step s p class b s' \<longleftrightarrow>
     memory_ok s' \<and> p \<noteq> NULL \<and> p \<notin> dom (objects s) \<and> my_mark s' = my_mark s \<and> uses_at_most 1 s s' \<and>
     objects s' = (objects s)(p \<mapsto> new_object class (my_mark s) b) \<and> attrs s' = attrs s \<and>
     methods s' = methods s \<and> segments s' = segments s \<and> gc s' = gc s \<and> unwinds s' = unwinds s \<and>
     sym_tab s' = sym_tab s \<and> env s' = env s \<and> self s' = self s \<and> stdout s' = stdout s"

lemma attrs_wf_new_object:
  assumes wf: "attrs_wf s" and p: "p \<notin> dom (objects s)"
    and new: "objects s' = (objects s)(p \<mapsto> ob)" "attrs s' = attrs s" "attr_list_head ob = NULL"
  shows "attrs_wf s'"
proof -
  have c: "attr_chain s' q xs \<longleftrightarrow> (if q = p then xs = [] else attr_chain s q xs)" for q xs
    using new by (simp add: attr_chain_def split: option.split)
  show ?thesis
    unfolding attrs_wf_def c new(1)
  proof (intro conjI ballI allI impI)
    fix q
    assume "q \<in> dom ((objects s)(p \<mapsto> ob))"
    then show "\<exists>xs. if q = p then xs = [] else attr_chain s q xs"
      using attrs_wf_chain [OF wf] by (cases "q = p") auto
  next
    fix q r xs ys
    assume "if q = p then xs = [] else attr_chain s q xs" "if r = p then ys = [] else attr_chain s r ys"
      and "q \<noteq> r"
    then show "set xs \<inter> set ys = {}"
      using attrs_wf_apart [OF wf, of q xs r ys] by (auto split: if_splits)
  qed
qed

lemma obj_step_alloc:
  assumes ok: "memory_ok s" and step: "alloc_step s PUP_KIND_OBJ p s1"
  shows "obj_step s p class b (s1\<lparr>objects := (objects s1)(p \<mapsto> new_object class (my_mark s) b)\<rparr>)"
    (is "obj_step s p class b ?s")
proof -
  note fr = alloc_step_frame [OF step]
  have p: "p \<noteq> NULL" "p \<notin> dom (objects s)" "heap_wf s1" "thread_ready s1" "my_mark s1 = my_mark s"
      "uses_at_most 1 s ?s"
    using step spare_heap [of ?s s1] by (simp_all add: alloc_step_def uses_at_most_def)
  have objs: "objects ?s = (objects s)(p \<mapsto> new_object class (my_mark s) b)" "attrs ?s = attrs s"
    using fr by simp_all
  have "heap_wf ?s"
    by (rule heap_wf_cong [OF p(3)]) (use fr in auto)
  moreover have "thread_ready ?s"
    using p(4) by (simp add: thread_ready_def)
  moreover have "attrs_wf ?s"
    by (rule attrs_wf_new_object [OF _ p(2) objs]) (use ok in \<open>simp_all add: memory_ok_def new_object_def\<close>)
  moreover have "my_mark ?s = my_mark s1"
    by (simp add: my_mark_def my_thread_def Let_def)
  ultimately show ?thesis
    using p objs fr by (simp add: obj_step_def memory_ok_def)
qed

lemma obj_step_plenty: "obj_step s p cl b s' \<Longrightarrow> plenty (Suc n) s \<Longrightarrow> plenty n s'"
  using plenty_uses [of 1 n s s'] by (simp add: obj_step_def)

lemma obj_step_attr_of:
  assumes step: "obj_step s p class b s'" and ok: "memory_ok s"
  shows "attr_of s' q k = (if q = p then NULL else attr_of s q k)"
proof (cases "q = p")
  case True
  with step show ?thesis
    by (simp add: obj_step_def attr_of_def pup_iv_get_def find_attr_def new_object_def search.simps)
next
  case False
  with step show ?thesis
    by (cases "objects s q")
      (auto simp: obj_step_def attr_of_def pup_iv_get_def find_attr_def searched_def deref_def
        split: option.splits found.splits)
qed

lemma obj_alloc_step:
  assumes ok: "memory_ok s" and sz: "sz \<le> MAX_REGION_ALLOCATION"
  shows "pup_alloc_obj sz s = Aborted \<and> \<not> plenty 1 s \<or>
    (\<exists>p s1. pup_alloc_obj sz s = Ret p s1 \<and> alloc_step s PUP_KIND_OBJ p s1 \<and>
       objects s1 p = Some (marked_object (my_mark s)))"
proof -
  have "heap_wf s" "thread_ready s"
    using ok by (simp_all add: memory_ok_def)
  from pup_heap_alloc_or_abort [OF this sz, of PUP_KIND_OBJ] show ?thesis
    by (auto simp: pup_alloc_obj_def alloc_step_frame)
qed

lemma object_allocate_step:
  assumes ok: "memory_ok s"
  shows "pup_object_allocate_instance class s = Aborted \<and> \<not> plenty 1 s \<or>
    (\<exists>p s'. pup_object_allocate_instance class s = Ret p s' \<and> obj_step s p class PlainBody s')"
proof -
  have sz: "sizeof_PupObject \<le> MAX_REGION_ALLOCATION"
    by (simp add: sizeof_PupObject_def MAX_REGION_ALLOCATION_def)
  from obj_alloc_step [OF ok sz] show ?thesis
  proof (elim disjE exE conjE)
    fix p s1
    assume a: "pup_alloc_obj sizeof_PupObject s = Ret p s1" "alloc_step s PUP_KIND_OBJ p s1"
      "objects s1 p = Some (marked_object (my_mark s))"
    have "pup_object_allocate_instance class s =
        Ret p (s1\<lparr>objects := (objects s1)(p \<mapsto> new_object class (my_mark s) PlainBody)\<rparr>)"
      using a(1,3) by (simp add: pup_object_allocate_instance_def obj_init_def with_object_def
          marked_object_def zero_object_def new_object_def)
    with obj_step_alloc [OF ok a(2)] show ?thesis by blast
  qed (simp add: pup_object_allocate_instance_def)
qed

section \<open>Visiting the references of an object\<close>

fun visit_all :: "(ref_slot \<Rightarrow> rt \<Rightarrow> (unit, rt) outcome) \<Rightarrow> ref_slot list \<Rightarrow> rt \<Rightarrow> (unit, rt) outcome" where
  "visit_all visitor [] s = Ret () s"
| "visit_all visitor (sl # sls) s = andthen (visitor sl s) (\<lambda>_ s. visit_all visitor sls s)"

definition keeps_objects :: "(ref_slot \<Rightarrow> rt \<Rightarrow> (unit, rt) outcome) \<Rightarrow> bool" where
  "keeps_objects visitor \<longleftrightarrow>
     (\<forall>sl s s'. visitor sl s = Ret () s' \<longrightarrow> objects s' = objects s \<and> attrs s' = attrs s)"

lemma each_attr_visits:
  assumes keeps: "keeps_objects visitor"
  shows "chain (attrs s) attr_next p xs \<Longrightarrow>
    of_loop (each_node attrs attr_next (\<lambda>attr. visitor (ValueOf attr)) p s) =
      visit_all visitor (map ValueOf xs) s"
proof (induction xs arbitrary: p s)
  case Nil
  then show ?case by (simp add: each_node.simps)
next
  case (Cons x xs)
  then obtain a where a: "p = x" "x \<noteq> NULL" "attrs s x = Some a" "chain (attrs s) attr_next (attr_next a) xs"
    by auto
  show ?case
  proof (cases "visitor (ValueOf x) s")
    case (Ret u s')
    have "attrs s' = attrs s"
      using keeps Ret unfolding keeps_objects_def by simp
    with a Ret Cons.IH [of s' "attr_next a"] show ?thesis
      by (simp add: each_node.simps [of attrs attr_next _ x])
  qed (use a in \<open>simp_all add: each_node.simps [of attrs attr_next _ x]\<close>)
qed

lemma each_ref_visits:
  assumes "keeps_objects visitor" and "attr_chain s p xs"
  shows "pup_object_each_ref p visitor s = visit_all visitor (TypeOf p # map ValueOf xs) s"
proof (cases "visitor (TypeOf p) s")
  case (Ret u s')
  obtain ob where ob: "objects s p = Some ob" "chain (attrs s) attr_next (attr_list_head ob) xs"
    using assms(2) by (auto simp: attr_chain_def split: option.splits)
  have "objects s' = objects s" "attrs s' = attrs s"
    using assms(1) Ret unfolding keeps_objects_def by simp_all
  with Ret ob each_attr_visits [OF assms(1), of s' "attr_list_head ob" xs] show ?thesis
    by (simp add: pup_object_each_ref_def)
qed (simp_all add: pup_object_each_ref_def)

section \<open>Properties\<close>

text \<open>C12: Attributes behave like variables: after any sequence of \<open>pup_iv_set\<close> on any objects,
  \<open>pup_iv_get\<close> of any object and symbol is the value last written under that symbol to that
  object, or what it was before; memory stays well formed (every attribute list ends and belongs
  to one object), and the only other possible end is that memory ran out: there was none for as
  many new attributes.\<close>

theorem iv_get_last_write:
  assumes "memory_ok s" and "fst ` set ws \<subseteq> dom (objects s)"
  shows "set_all pup_iv_set ws s = Aborted \<and> \<not> plenty (length ws) s \<or>
    (\<exists>s'. set_all pup_iv_set ws s = Ret () s' \<and> memory_ok s' \<and>
      (\<forall>q \<in> dom (objects s). \<forall>k. pup_iv_get q k s' = Ret (last_write q k ws (attr_of s q k)) s'))"
proof -
  from ivars.puts_total [OF assms] show ?thesis
  proof (elim disjE exE)
    fix s'
    assume s': "set_all pup_iv_set ws s = Ret () s'"
    from ivars.puts_get [OF assms s'] have ok: "memory_ok s'" and
      get: "q \<in> dom (objects s) \<Longrightarrow> q \<in> dom (objects s') \<and> attr_of s' q k = last_write q k ws (attr_of s q k)"
      for q k by auto
    have "pup_iv_get q k s' = Ret (last_write q k ws (attr_of s q k)) s'"
      if "q \<in> dom (objects s)" for q k
      using iv_get_attr_of [of s' q k] ok get [OF that] by (simp add: memory_ok_def)
    with s' ok show ?thesis by blast
  qed (use ivars.puts_room [OF assms] in auto)
qed

definition one_object :: rt where
  "one_object = (case pup_object_allocate_instance NULL boot of Ret p s \<Rightarrow> s | _ \<Rightarrow> boot)"

lemmas boot_eval = boot_def blank_def demo_tape_def pup_heap_thread_init_def pup_heap_region_allocate_def
  MAP_FAILED_def attach_thread_def set_thread_info_def attach_thread_to_heap_once
  set_local_region_def get_thread_info_def with_thread_def Let_def
  pup_heap_alloc_def is_large_object_def MAX_REGION_ALLOCATION_def
  thread_local_alloc_def pup_heap_region_have_room_for_def pup_heap_region_make_room_for_def
  mark_block_def have_room_for_def alloc_size_for_def sizeof_HeapObject_def zero_block_def
  with_object_def REGION_SIZE_def data_offset_def

lemma boot_memory_ok: "memory_ok boot"
  using boot_ready by (simp add: memory_ok_def attrs_wf_def attr_chain_def boot_eval)

lemma one_object_run: "pup_object_allocate_instance NULL boot = Ret 1048585 one_object"
  by (simp add: one_object_def pup_object_allocate_instance_def pup_alloc_obj_def obj_init_def
      sizeof_PupObject_def boot_eval)

lemma one_object_ok: "memory_ok one_object" "dom (objects one_object) = {1048585}"
  "obj_step boot 1048585 NULL PlainBody one_object"
proof -
  show "obj_step boot 1048585 NULL PlainBody one_object"
    using object_allocate_step [OF boot_memory_ok, of NULL] by (simp add: one_object_run)
  moreover have "dom (objects boot) = {}"
    by (simp add: boot_eval)
  ultimately show "memory_ok one_object" "dom (objects one_object) = {1048585}"
    by (auto simp: obj_step_def)
qed

lemma iv_get_last_write_witness:
  "\<exists>s'. set_all pup_iv_set [(1048585, 3, 70), (1048585, 4, 80), (1048585, 3, 90)] one_object = Ret () s' \<and>
     pup_iv_get 1048585 3 s' = Ret 90 s' \<and> pup_iv_get 1048585 4 s' = Ret 80 s'"
proof -
  let ?ws = "[(1048585, 3, 70), (1048585, 4, 80), (1048585, 3, 90)]"
  have "plenty (length ?ws) one_object"
  proof (rule plenty_uses [of 1 _ boot])
    show "plenty (1 + length ?ws) boot"
      using boot_step(3,4) by (simp add: plenty_def answers_def demo_tape_def)
    show "uses_at_most 1 boot one_object"
      using one_object_ok(3) by (simp add: obj_step_def)
  qed
  then show ?thesis
    using iv_get_last_write [OF one_object_ok(1), of ?ws] one_object_ok(2)
    by auto
qed



end
