(* ===== verification/Classes.thy ===== *)
theory Classes
  imports Objects
begin

text \<open>
  Classes (class.c): the struct behind the object header, the method table of a class as a list
  to which definitions are appended, the search for a method along the superclasses, and
  constants, which are attributes of class objects looked up through the enclosing scopes.
\<close>

section \<open>Definitions\<close>

text \<open>The duplicate, or \<open>NULL\<close> when malloc fails.\<close>

definition strdup :: "string \<Rightarrow> rt \<Rightarrow> string option \<times> rt" where
  "strdup x s =
     (case malloc (mallocs s) of (p, junk, t) \<Rightarrow>
        (if p = NULL then None else Some x, s\<lparr>mallocs := t\<rparr>))"

definition sizeof_PupClass :: u64 where
  "sizeof_PupClass = 80"

definition zero_class :: class_body where
  "zero_class = \<lparr>superclass = 0, name = None, method_list_head = 0, scope = 0,
     allocate_instance = None, destroy_instance = None, gc_copy_instance = None\<rparr>"

definition pup_internal_class_init ::
    "ptr \<Rightarrow> ptr \<Rightarrow> ptr \<Rightarrow> string option \<Rightarrow> alloc_fn option \<Rightarrow> destroy_fn option \<Rightarrow> copy_fn option \<Rightarrow>
       rt \<Rightarrow> (unit, rt) outcome" where
  "pup_internal_class_init class super scp nm alloc destroy copy s =
     abort_on (nm = None) (abort_on (alloc = None)
       (case strdup (the nm) s of (nm', s) \<Rightarrow>
          with_class class (\<lambda>c. c\<lparr>name := nm', superclass := super, method_list_head := NULL,
            scope := scp, allocate_instance := alloc, destroy_instance := destroy,
            gc_copy_instance := copy\<rparr>) s))"

text \<open>The members behind the header are the zero memory of the new block.\<close>

definition pup_internal_class_allocate_instance :: "ptr \<Rightarrow> rt \<Rightarrow> (ptr, rt) outcome" where
  "pup_internal_class_allocate_instance class s =
     andthen (pup_alloc_obj sizeof_PupClass s) (\<lambda>obj s.
     andthen (with_object obj (body_update (\<lambda>_. ClassBody zero_class)) s) (\<lambda>_ s.
     andthen (obj_init obj class s) (\<lambda>_ s. Ret obj s)))"

definition pup_bootstrap_create_classobject :: "rt \<Rightarrow> (ptr, rt) outcome" where
  "pup_bootstrap_create_classobject s =
     andthen (pup_internal_class_allocate_instance NULL s) (\<lambda>class s.
     andthen (pup_internal_class_init class NULL NULL (Some ''Object'')
        (Some Alloc_object) (Some Destroy_object) (Some Copy_object) s) (\<lambda>_ s. Ret class s))"

definition pup_bootstrap_create_classclass :: "ptr \<Rightarrow> rt \<Rightarrow> (ptr, rt) outcome" where
  "pup_bootstrap_create_classclass classobject s =
     andthen (pup_internal_class_allocate_instance NULL s) (\<lambda>class s.
     andthen (pup_internal_class_init class classobject classobject (Some ''Class'')
        (Some Alloc_class) (Some Destroy_class) (Some Copy_class) s) (\<lambda>_ s. Ret class s))"

text \<open>
  \<open>pos\<close> walks to the slot at the end of the list.  The new entry is not checked: when malloc
  fails, its first member is written through \<open>NULL\<close>.
\<close>

definition store_method :: "ptr \<Rightarrow> slot \<Rightarrow> ptr \<Rightarrow> rt \<Rightarrow> (unit, rt) outcome" where
  "store_method class pos new s =
     (case pos of
        Head \<Rightarrow> with_class class (method_list_head_update (\<lambda>_. new)) s
      | Next a \<Rightarrow>
          deref (methods s a) (\<lambda>m. Ret () (s\<lparr>methods := (methods s)(a \<mapsto> m\<lparr>meth_next := new\<rparr>)\<rparr>)))"

definition pup_define_method :: "ptr \<Rightarrow> i64 \<Rightarrow> pup_method \<Rightarrow> rt \<Rightarrow> (unit, rt) outcome" where
  "pup_define_method class name_sym method_fn s =
     abort_on (class = NULL)
       (deref (class_at s class) (\<lambda>c.
        slotted (find_slot (methods s) meth_next (\<lambda>_ _. False) Head (method_list_head c)) (\<lambda>pos _.
          case malloc (mallocs s) of (new, junk, t) \<Rightarrow>
            if new = NULL then Undef
            else store_method class pos new
              (s\<lparr>mallocs := t, methods := (methods s)(new \<mapsto>
                 \<lparr>meth_sym = name_sym, meth = method_fn, meth_next = NULL\<rparr>)\<rparr>))))"

definition pup_type_name :: "ptr \<Rightarrow> rt \<Rightarrow> (string, rt) outcome" where
  "pup_type_name class s =
     (if class = NULL then Ret ''<Object with NULL type ref!>'' s
      else deref (class_at s class) (\<lambda>c.
        case name c of None \<Rightarrow> Ret ''<NULL type name!>'' s | Some n \<Rightarrow> Ret n s))"

definition pup_object_type_name :: "ptr \<Rightarrow> rt \<Rightarrow> (string, rt) outcome" where
  "pup_object_type_name obj s =
     (if obj = NULL then Ret ''<NULL Object ref>'' s
      else deref (objects s obj) (\<lambda>ob. pup_type_name (otype ob) s))"

definition find_method_in_list :: "ptr \<Rightarrow> i64 \<Rightarrow> rt \<Rightarrow> (pup_method option, rt) outcome" where
  "find_method_in_list meth_list name_sym s =
     searched (search (methods s) meth_next (\<lambda>_ m. meth_sym m = name_sym) meth_list)
       (\<lambda>p. deref (methods s p) (\<lambda>m. Ret (Some (meth m)) s))
       (Ret None s)"

partial_function (option) class_walk :: "ptr \<Rightarrow> i64 \<Rightarrow> rt \<Rightarrow> (pup_method option, rt) outcome option" where
  "class_walk class name_sym s =
     (if class = NULL then Some (Ret None s)
      else case class_at s class of
        None \<Rightarrow> Some Undef
      | Some c \<Rightarrow>
          (case find_method_in_list (method_list_head c) name_sym s of
             Ret None s' \<Rightarrow> class_walk (superclass c) name_sym s'
           | r \<Rightarrow> Some r))"

declare class_walk.simps [code]

definition find_method_in_classes :: "ptr \<Rightarrow> i64 \<Rightarrow> rt \<Rightarrow> (pup_method option, rt) outcome" where
  "find_method_in_classes class name_sym s = of_loop (class_walk class name_sym s)"

text \<open>A class is compared before its members are read.\<close>

partial_function (option) ancestor_walk :: "ptr \<Rightarrow> ptr \<Rightarrow> rt \<Rightarrow> (bool, rt) outcome option" where
  "ancestor_walk ancestor next s =
     (if next = NULL then Some (Ret False s)
      else if next = ancestor then Some (Ret True s)
      else case class_at s next of
        None \<Rightarrow> Some Undef
      | Some c \<Rightarrow> ancestor_walk ancestor (superclass c) s)"

declare ancestor_walk.simps [code]

definition pup_is_descendant_or_same :: "ptr \<Rightarrow> ptr \<Rightarrow> rt \<Rightarrow> (bool, rt) outcome" where
  "pup_is_descendant_or_same ancestor descendant s =
     abort_on (ancestor = NULL) (abort_on (descendant = NULL)
       (of_loop (ancestor_walk ancestor descendant s)))"

definition pup_object_kindof :: "ptr \<Rightarrow> ptr \<Rightarrow> rt \<Rightarrow> (bool, rt) outcome" where
  "pup_object_kindof obj class s =
     deref (objects s obj) (\<lambda>ob. pup_is_descendant_or_same class (otype ob) s)"

text \<open>The object header is the first member of a class: the constants are its attributes.\<close>

definition pup_const_set :: "ptr \<Rightarrow> i32 \<Rightarrow> ptr \<Rightarrow> rt \<Rightarrow> (unit, rt) outcome" where
  "pup_const_set clazz sy val s = pup_iv_set clazz sy val s"

partial_function (option) scope_walk :: "ptr \<Rightarrow> i32 \<Rightarrow> rt \<Rightarrow> (ptr, rt) outcome option" where
  "scope_walk lookup sy s =
     (case pup_iv_get lookup sy s of
        Ret result s' \<Rightarrow>
          if result \<noteq> NULL then Some (Ret result s')
          else case class_at s' lookup of
            None \<Rightarrow> Some Undef
          | Some c \<Rightarrow>
              if scope c = NULL then Some (Ret NULL s') else scope_walk (scope c) sy s'
      | r \<Rightarrow> Some r)"

declare scope_walk.simps [code]

definition pup_const_get :: "ptr \<Rightarrow> i32 \<Rightarrow> rt \<Rightarrow> (ptr, rt) outcome" where
  "pup_const_get clazz sy s = of_loop (scope_walk clazz sy s)"

definition pup_is_class_instance :: "ptr \<Rightarrow> rt \<Rightarrow> (bool, rt) outcome" where
  "pup_is_class_instance obj s =
     deref (objects s obj) (\<lambda>ob. Ret (otype ob = class_class (env s)) s)"

definition pup_class_context_from :: "ptr \<Rightarrow> rt \<Rightarrow> (ptr, rt) outcome" where
  "pup_class_context_from obj s =
     andthen (pup_is_class_instance obj s) (\<lambda>is s.
       if is then Ret obj s else deref (objects s obj) (\<lambda>ob. Ret (otype ob) s))"

text \<open>Symbols through the environment: the table and the memory are parts of the state.\<close>

definition pup_env_str_to_sym :: "string \<Rightarrow> rt \<Rightarrow> (i32, rt) outcome" where
  "pup_env_str_to_sym x s =
     on_part (\<lambda>(st, t). s\<lparr>sym_tab := st, mallocs := t\<rparr>) (pup_str_to_sym x (sym_tab s, mallocs s))"

definition pup_env_sym_to_str :: "i32 \<Rightarrow> rt \<Rightarrow> (string option, rt) outcome" where
  "pup_env_sym_to_str y s = on_part (\<lambda>_. s) (pup_sym_to_str (sym_tab s) y)"

text \<open>A definition under a name, as the class initialisers do it.\<close>

definition define_named :: "ptr \<Rightarrow> string \<Rightarrow> pup_method \<Rightarrow> rt \<Rightarrow> (unit, rt) outcome" where
  "define_named class nm m s =
     andthen (pup_env_str_to_sym nm s) (\<lambda>sy s. pup_define_method class (scast sy) m s)"

definition pup_class_class_init :: "ptr \<Rightarrow> rt \<Rightarrow> (unit, rt) outcome" where
  "pup_class_class_init class s =
     andthen (define_named class ''new'' Class_new s) (\<lambda>_ s.
     andthen (define_named class ''allocate'' Object_allocate s) (\<lambda>_ s.
     define_named class ''to_s'' Class_to_s s))"

definition pup_object_class_init :: "ptr \<Rightarrow> rt \<Rightarrow> (unit, rt) outcome" where
  "pup_object_class_init class s =
     andthen (define_named class ''initialize'' Object_initialize s) (\<lambda>_ s.
     andthen (define_named class ''raise'' Object_raise s) (\<lambda>_ s.
     andthen (define_named class ''puts'' Object_puts s) (\<lambda>_ s.
     define_named class ''=='' Object_op_equals s)))"

section \<open>Method tables and superclasses\<close>

text \<open>\<open>mro s p cs\<close>: the class \<open>p\<close> and its superclasses are \<open>cs\<close>, in order.\<close>

definition mro :: "rt \<Rightarrow> ptr \<Rightarrow> ptr list \<Rightarrow> bool" where
  "mro s p cs = chain (class_at s) superclass p cs"

definition method_chain :: "rt \<Rightarrow> ptr \<Rightarrow> ptr list \<Rightarrow> bool" where
  "method_chain s p ms \<longleftrightarrow>
     (case class_at s p of None \<Rightarrow> False | Some c \<Rightarrow> chain (methods s) meth_next (method_list_head c) ms)"

definition classes_wf :: "rt \<Rightarrow> bool" where
  "classes_wf s \<longleftrightarrow>
     (\<forall>p \<in> dom (class_at s). (\<exists>ms. method_chain s p ms) \<and> (\<exists>cs. mro s p cs)) \<and>
     (\<forall>p q ms ns. method_chain s p ms \<longrightarrow> method_chain s q ns \<longrightarrow> p \<noteq> q \<longrightarrow> set ms \<inter> set ns = {})"

text \<open>The first definition of a name in a method table.\<close>

fun first_named :: "(ptr \<rightharpoonup> method_entry) \<Rightarrow> ptr list \<Rightarrow> i64 \<Rightarrow> pup_method option" where
  "first_named m [] k = None"
| "first_named m (x # xs) k =
     (case m x of
        None \<Rightarrow> first_named m xs k
      | Some e \<Rightarrow> if meth_sym e = k then Some (meth e) else first_named m xs k)"

definition own_method :: "rt \<Rightarrow> ptr \<Rightarrow> i64 \<Rightarrow> pup_method option" where
  "own_method s p k =
     (case class_at s p of
        None \<Rightarrow> None
      | Some c \<Rightarrow>
          (case find_method_in_list (method_list_head c) k s of Ret r s' \<Rightarrow> r | _ \<Rightarrow> None))"

text \<open>The method the dispatch must find: the first in the order of the superclasses.\<close>

fun first_in :: "('c \<Rightarrow> 'm option) \<Rightarrow> 'c list \<Rightarrow> 'm option" where
  "first_in f [] = None"
| "first_in f (c # cs) = (case f c of None \<Rightarrow> first_in f cs | Some m \<Rightarrow> Some m)"

lemma find_method_in_list_chain:
  assumes "chain (methods s) meth_next p ms"
  shows "find_method_in_list p k s = Ret (first_named (methods s) ms k) s"
proof -
  let ?f = "find (node_test (methods s) (\<lambda>_ m. meth_sym m = k)) ms"
  have none: "find (node_test (methods s) (\<lambda>_ m. meth_sym m = k)) ms = None \<Longrightarrow>
      first_named (methods s) ms k = None" for ms
    by (induction ms) (auto simp: node_test_def split: option.splits if_splits)
  have some: "find (node_test (methods s) (\<lambda>_ m. meth_sym m = k)) ms = Some x \<Longrightarrow>
      \<exists>e. methods s x = Some e \<and> first_named (methods s) ms k = Some (meth e)" for ms x
    by (induction ms) (auto simp: node_test_def split: option.splits if_splits)
  note search = search_chain [OF assms, of "\<lambda>_ m. meth_sym m = k"]
  show ?thesis
  proof (cases ?f)
    case None
    with search none [OF None] show ?thesis
      by (simp add: find_method_in_list_def)
  next
    case (Some x)
    with search some [OF Some] show ?thesis
      by (auto simp: find_method_in_list_def)
  qed
qed

lemma own_method_chain: "method_chain s p ms \<Longrightarrow> own_method s p k = first_named (methods s) ms k"
  by (auto simp: method_chain_def own_method_def find_method_in_list_chain split: option.splits)

lemma mro_NULL [simp]: "mro s NULL cs \<longleftrightarrow> cs = []"
  by (simp add: mro_def)

lemma mro_Cons [simp]:
  "mro s p (q # cs) \<longleftrightarrow> p = q \<and> q \<noteq> NULL \<and> (\<exists>c. class_at s q = Some c \<and> mro s (superclass c) cs)"
  by (simp add: mro_def)

lemma mro_in: "mro s p cs \<Longrightarrow> q \<in> set cs \<Longrightarrow> q \<noteq> NULL \<and> q \<in> dom (class_at s)"
  by (auto simp: mro_def dest: chain_in_dom)

lemma class_method_chain:
  "classes_wf s \<Longrightarrow> class_at s p = Some c \<Longrightarrow>
     \<exists>ms. method_chain s p ms \<and> chain (methods s) meth_next (method_list_head c) ms"
proof -
  assume wf: "classes_wf s" and c: "class_at s p = Some c"
  then obtain ms where "method_chain s p ms"
    unfolding classes_wf_def by blast
  with c show ?thesis by (auto simp: method_chain_def)
qed

text \<open>Dispatch finds the first definition along the superclasses, and terminates.\<close>

lemma class_walk_first:
  assumes wf: "classes_wf s"
  shows "mro s p cs \<Longrightarrow> class_walk p k s = Some (Ret (first_in (\<lambda>c. own_method s c k) cs) s)"
proof (induction cs arbitrary: p)
  case Nil
  then show ?case by (simp add: mro_def class_walk.simps)
next
  case (Cons x cs)
  then obtain c where c: "p = x" "x \<noteq> NULL" "class_at s x = Some c" "mro s (superclass c) cs"
    by auto
  obtain ms where ms: "method_chain s x ms" "chain (methods s) meth_next (method_list_head c) ms"
    using class_method_chain [OF wf c(3)] by blast
  have "own_method s x k = first_named (methods s) ms k"
    by (rule own_method_chain [OF ms(1)])
  then show ?case
    using c Cons.IH [OF c(4)] find_method_in_list_chain [OF ms(2), of k]
    by (simp add: class_walk.simps [of x] split: option.splits)
qed

lemma ancestor_walk_mro:
  "mro s p cs \<Longrightarrow> ancestor_walk a p s = Some (Ret (a \<in> set cs) s)"
proof (induction cs arbitrary: p)
  case Nil
  then show ?case by (simp add: mro_def ancestor_walk.simps)
next
  case (Cons x cs)
  then obtain c where c: "p = x" "x \<noteq> NULL" "class_at s x = Some c" "mro s (superclass c) cs"
    by auto
  with Cons.IH [OF c(4)] show ?case
    by (auto simp: ancestor_walk.simps [of a x])
qed

text \<open>The scopes of a class, and the constant a name means in it.\<close>

definition scopes :: "rt \<Rightarrow> ptr \<Rightarrow> ptr list \<Rightarrow> bool" where
  "scopes s p cs = chain (class_at s) scope p cs"

fun first_const :: "(ptr \<Rightarrow> ptr) \<Rightarrow> ptr list \<Rightarrow> ptr" where
  "first_const f [] = NULL"
| "first_const f (c # cs) = (if f c \<noteq> NULL then f c else first_const f cs)"

lemma scope_walk_first:
  assumes wf: "attrs_wf s"
  shows "scopes s p cs \<Longrightarrow> cs \<noteq> [] \<Longrightarrow>
    scope_walk p k s = Some (Ret (first_const (\<lambda>c. attr_of s c k) cs) s)"
proof (induction cs arbitrary: p)
  case Nil
  then show ?case by simp
next
  case (Cons x cs)
  then obtain c where c: "p = x" "x \<noteq> NULL" "class_at s x = Some c" "scopes s (scope c) cs"
    by (auto simp: scopes_def)
  have x: "x \<in> dom (objects s)"
    using c(3) by (auto simp: class_at_Some)
  note get = iv_get_attr_of [OF wf x, of k]
  show ?case
  proof (cases "cs = []")
    case True
    with c(4) have "scope c = NULL"
      by (simp add: scopes_def)
    with True c get show ?thesis
      by (simp add: scope_walk.simps [of x])
  next
    case False
    with c(4) have "scope c \<noteq> NULL"
      by (cases cs) (auto simp: scopes_def)
    with False c get Cons.IH [OF c(4) False] show ?thesis
      by (simp add: scope_walk.simps [of x])
  qed
qed

section \<open>Defining a method\<close>

text \<open>What a definition leaves alone: everything but method tables and free memory.\<close>

definition tableless :: "object \<Rightarrow> object" where
  "tableless ob = ob\<lparr>body :=
     (case body ob of ClassBody c \<Rightarrow> ClassBody (c\<lparr>method_list_head := 0\<rparr>) | b \<Rightarrow> b)\<rparr>"

definition same_but_tables :: "rt \<Rightarrow> rt \<Rightarrow> bool" where
  "same_but_tables s s' \<longleftrightarrow>
     (\<forall>q. map_option tableless (objects s' q) = map_option tableless (objects s q)) \<and>
     attrs s' = attrs s \<and> heap s' = heap s \<and> mmaps s' = mmaps s \<and>
     segments s' = segments s \<and> gc s' = gc s \<and> unwinds s' = unwinds s \<and>
     sym_tab s' = sym_tab s \<and> env s' = env s \<and> self s' = self s \<and> stdout s' = stdout s"

lemma tableless_eq: "tableless ob' = tableless ob \<Longrightarrow>
    otype ob' = otype ob \<and> attr_list_head ob' = attr_list_head ob \<and> gc_mark ob' = gc_mark ob"
  by (cases ob; cases ob') (simp add: tableless_def)

lemma same_but_tables_dom: "same_but_tables s s' \<Longrightarrow> dom (objects s') = dom (objects s)"
proof -
  assume st: "same_but_tables s s'"
  have "objects s' q = None \<longleftrightarrow> objects s q = None" for q
  proof -
    have "map_option tableless (objects s' q) = map_option tableless (objects s q)"
      using st unfolding same_but_tables_def by blast
    then show ?thesis by (cases "objects s' q"; cases "objects s q") simp_all
  qed
  then show ?thesis by (simp add: dom_def)
qed

lemma same_but_tables_object:
  assumes "same_but_tables s s'" and "objects s q = Some ob"
  shows "\<exists>ob'. objects s' q = Some ob' \<and> otype ob' = otype ob \<and>
    attr_list_head ob' = attr_list_head ob \<and> gc_mark ob' = gc_mark ob"
proof -
  have "map_option tableless (objects s' q) = Some (tableless ob)"
    using assms unfolding same_but_tables_def by simp
  then show ?thesis
    by (auto dest: tableless_eq)
qed

lemma same_but_tables_attr_chain:
  assumes st: "same_but_tables s s'"
  shows "attr_chain s' q xs = attr_chain s q xs"
proof (cases "objects s q")
  case None
  then have "objects s' q = None"
    using same_but_tables_dom [OF st] by blast
  with None show ?thesis by (simp add: attr_chain_def)
next
  case (Some ob)
  have "attrs s' = attrs s"
    using st by (simp add: same_but_tables_def)
  with Some same_but_tables_object [OF st Some] show ?thesis
    by (auto simp: attr_chain_def)
qed

lemma same_but_tables_attrs_wf: "same_but_tables s s' \<Longrightarrow> attrs_wf s \<Longrightarrow> attrs_wf s'"
  by (simp add: attrs_wf_def same_but_tables_attr_chain same_but_tables_dom)

lemma same_but_tables_attr_of:
  assumes "same_but_tables s s'" and "attrs_wf s" and "q \<in> dom (objects s)"
  shows "attr_of s' q k = attr_of s q k"
proof -
  obtain xs where xs: "attr_chain s q xs"
    using attrs_wf_chain [OF assms(2,3)] by blast
  then have xs': "attr_chain s' q xs"
    using same_but_tables_attr_chain [OF assms(1)] by simp
  have "attrs s' = attrs s"
    using assms(1) by (simp add: same_but_tables_def)
  then show ?thesis
    unfolding attr_of_chain [OF xs] attr_of_chain [OF xs'] by (intro ivar_cong) simp
qed

lemma find_no_test: "find (node_test m (\<lambda>_ _. False)) xs = None"
  by (induction xs) (auto simp: node_test_def split: option.splits)

definition method_entry_key :: "method_entry \<Rightarrow> i64 \<times> pup_method" where
  "method_entry_key e = (meth_sym e, meth e)"

lemma first_named_cong:
  "(\<And>x. x \<in> set xs \<Longrightarrow> map_option method_entry_key (m' x) = map_option method_entry_key (m x)) \<Longrightarrow>
     first_named m' xs k = first_named m xs k"
proof (induction xs)
  case Nil
  show ?case by simp
next
  case (Cons x xs)
  have "map_option method_entry_key (m' x) = map_option method_entry_key (m x)"
    using Cons.prems by simp
  with Cons show ?case
    by (cases "m' x"; cases "m x") (simp_all add: method_entry_key_def)
qed

lemma first_named_append:
  "first_named m (xs @ ys) k =
     (case first_named m xs k of None \<Rightarrow> first_named m ys k | Some f \<Rightarrow> Some f)"
  by (induction xs) (auto split: option.splits)

lemma with_class_tables:
  assumes "objects s p = Some ob" and "body ob = ClassBody c"
  shows "map_option tableless (((objects s)(p \<mapsto> ob\<lparr>body := ClassBody (c\<lparr>method_list_head := h\<rparr>)\<rparr>)) q) =
    map_option tableless (objects s q)"
  using assms by (simp add: tableless_def)

text \<open>The two places the new entry can be stored, in one description.\<close>

definition entry_added :: "rt \<Rightarrow> ptr \<Rightarrow> ptr list \<Rightarrow> ptr \<Rightarrow> rt \<Rightarrow> bool" where
  "entry_added s p ms new s' \<longleftrightarrow>
     method_chain s p ms \<and> new \<notin> dom (methods s) \<and>
     (\<exists>c h. class_at s p = Some c \<and> class_at s' = (class_at s)(p \<mapsto> c\<lparr>method_list_head := h\<rparr>) \<and>
        chain (methods s') meth_next h (ms @ [new])) \<and>
     (\<forall>x. x \<noteq> new \<longrightarrow> map_option method_entry_key (methods s' x) = map_option method_entry_key (methods s x)) \<and>
     (\<forall>x. x \<noteq> new \<longrightarrow> x \<notin> set ms \<longrightarrow> methods s' x = methods s x)"

lemma define_method_run:
  assumes ok: "memory_ok s" and c: "class_at s p = Some c" and p: "p \<noteq> NULL"
    and ms: "chain (methods s) meth_next (method_list_head c) ms"
    and m: "malloc (mallocs s) = (new, junk, t)" "new \<noteq> NULL"
  shows "\<exists>s'. pup_define_method p k f s = Ret () s' \<and> memory_ok s' \<and> same_but_tables s s' \<and>
    mallocs s' = t \<and> entry_added s p ms new s' \<and>
    map_option method_entry_key (methods s' new) = Some (k, f)"
proof -
  let ?e = "\<lparr>meth_sym = k, meth = f, meth_next = NULL\<rparr>"
  let ?s1 = "s\<lparr>mallocs := t, methods := (methods s)(new \<mapsto> ?e)\<rparr>"
  have wf: "heap_wf s" "thread_ready s" "attrs_wf s"
    using ok by (simp_all add: memory_ok_def)
  have "new \<notin> malloced s"
    using fresh_tape_head [OF heap_wf_tapes(2) [OF wf(1)] m] by blast
  then have new: "new \<notin> dom (methods s)"
    by (simp add: malloced_def)
  have nms: "new \<notin> set ms"
    using chain_in_dom [OF ms] new by blast
  have slot: "find_slot (methods s) meth_next (\<lambda>_ _. False) Head (method_list_head c) =
      Some (At (last_slot Head ms) NULL)"
    by (rule find_slot_none [OF ms find_no_test])
  obtain ob where ob: "objects s p = Some ob" "body ob = ClassBody c"
    using c by (auto simp: class_at_Some)
  have wf1: "heap_wf ?s1"
    by (rule heap_wf_malloc [OF wf(1) m]) (auto simp: malloced_def)
  have same: "same_but_tables s s' \<Longrightarrow> heap_wf s' \<Longrightarrow> memory_ok s'" for s'
    using wf same_but_tables_attrs_wf [of s s']
    by (simp add: memory_ok_def thread_ready_def same_but_tables_def)
  have run: "pup_define_method p k f s = store_method p (last_slot Head ms) new ?s1"
    using p c slot m by (simp add: pup_define_method_def)
  have mc: "method_chain s p ms"
    using c ms by (simp add: method_chain_def)
  show ?thesis
  proof (cases "ms = []")
    case True
    let ?s' = "?s1\<lparr>objects := (objects s)(p \<mapsto> ob\<lparr>body := ClassBody (c\<lparr>method_list_head := new\<rparr>)\<rparr>)\<rparr>"
    have "pup_define_method p k f s = Ret () ?s'"
      using run True ob by (simp add: store_method_def with_class_def the_class_def)
    moreover have "same_but_tables s ?s'"
      using with_class_tables [OF ob] by (simp add: same_but_tables_def)
    moreover have "heap_wf ?s'"
      by (rule heap_wf_cong [OF wf1]) (use ob in auto)
    moreover have "class_at ?s' = (class_at s)(p \<mapsto> c\<lparr>method_list_head := new\<rparr>)"
      by (rule ext) (simp add: class_at_def the_class_def)
    moreover have "chain (methods ?s') meth_next new [new]"
      using m(2) by simp
    ultimately show ?thesis
      using True new same [of ?s'] mc c unfolding entry_added_def
      by (intro exI [of _ ?s'] conjI exI [of _ c] exI [of _ new]) (simp_all add: method_entry_key_def)
  next
    case False
    obtain e where e: "methods s (last ms) = Some e"
      using chain_in_dom [OF ms last_in_set [OF False]] by blast
    have ne: "last ms \<noteq> new"
      using nms False by auto
    let ?s' = "?s1\<lparr>methods := (methods s)(new \<mapsto> ?e, last ms \<mapsto> e\<lparr>meth_next := new\<rparr>)\<rparr>"
    have "pup_define_method p k f s = Ret () ?s'"
      using run False e ne by (simp add: store_method_def last_slot_def)
    moreover have "same_but_tables s ?s'"
      by (simp add: same_but_tables_def)
    moreover have "heap_wf ?s'"
      by (rule heap_wf_cong [OF wf1]) (use e in auto)
    moreover have "class_at ?s' = (class_at s)(p \<mapsto> c\<lparr>method_list_head := method_list_head c\<rparr>)"
      using c by (auto simp: class_at_def)
    moreover have "chain (methods ?s') meth_next (method_list_head c) (ms @ [new])"
      using chain_snoc [OF ms False e, of "e\<lparr>meth_next := new\<rparr>" new ?e] nms m(2) by simp
    ultimately show ?thesis
      using new same [of ?s'] ne e False mc c unfolding entry_added_def
      by (intro exI [of _ ?s'] conjI exI [of _ c] exI [of _ "method_list_head c"])
        (auto simp: method_entry_key_def)
  qed
qed

text \<open>The chains of the classes afterwards: the one of \<open>p\<close> is longer by the new entry.\<close>

lemma entry_added_not_new: "entry_added s p ms new s' \<Longrightarrow> method_chain s q xs \<Longrightarrow> new \<notin> set xs"
  by (auto simp: entry_added_def method_chain_def split: option.splits dest: chain_in_dom)

lemma entry_added_classes:
  assumes "entry_added s p ms new s'"
  shows "dom (class_at s') = dom (class_at s)" "mro s' q cs = mro s q cs"
proof -
  obtain c h where c: "class_at s p = Some c" "class_at s' = (class_at s)(p \<mapsto> c\<lparr>method_list_head := h\<rparr>)"
    using assms by (auto simp: entry_added_def)
  then show "dom (class_at s') = dom (class_at s)"
    by auto
  show "mro s' q cs = mro s q cs"
    unfolding mro_def by (rule chain_cong) (use c in auto)
qed

lemma entry_added_chain:
  assumes add: "entry_added s p ms new s'" and wf: "classes_wf s" and q: "method_chain s q xs"
  shows "method_chain s' q (if q = p then xs @ [new] else xs)"
proof -
  obtain c h where mp: "method_chain s p ms"
    and cls: "class_at s' = (class_at s)(p \<mapsto> c\<lparr>method_list_head := h\<rparr>)"
    and ch: "chain (methods s') meth_next h (ms @ [new])"
    and old: "\<And>x. x \<noteq> new \<Longrightarrow> x \<notin> set ms \<Longrightarrow> methods s' x = methods s x"
    using add by (auto simp: entry_added_def)
  show ?thesis
  proof (cases "q = p")
    case True
    have "xs = ms"
      using q mp True by (auto simp: method_chain_def split: option.splits intro: chain_unique)
    with True cls ch show ?thesis by (simp add: method_chain_def)
  next
    case False
    have "set ms \<inter> set xs = {}"
      using wf mp q False unfolding classes_wf_def by blast
    then have "methods s' x = methods s x" if "x \<in> set xs" for x
      by (intro old) (use that entry_added_not_new [OF add q] in auto)
    then have "chain (methods s') meth_next a xs = chain (methods s) meth_next a xs" for a
      by (intro chain_cong) simp
    with False q cls show ?thesis
      by (simp add: method_chain_def split: option.splits)
  qed
qed

lemma entry_added_before:
  assumes add: "entry_added s p ms new s'" and wf: "classes_wf s" and z: "method_chain s' q zs"
  obtains xs where "method_chain s q xs" and "zs = (if q = p then xs @ [new] else xs)"
proof -
  have "q \<in> dom (class_at s)"
    using z entry_added_classes(1) [OF add] by (auto simp: method_chain_def split: option.splits)
  then obtain xs where xs: "method_chain s q xs"
    using wf unfolding classes_wf_def by blast
  have "zs = (if q = p then xs @ [new] else xs)"
    using z entry_added_chain [OF add wf xs]
    by (auto simp: method_chain_def split: option.splits intro: chain_unique)
  with xs show thesis
    by (rule that)
qed

lemma entry_added_classes_wf:
  assumes add: "entry_added s p ms new s'" and wf: "classes_wf s"
  shows "classes_wf s'"
  unfolding classes_wf_def entry_added_classes(1) [OF add]
proof (intro conjI ballI allI impI)
  fix q
  assume q: "q \<in> dom (class_at s)"
  then show "\<exists>ms. method_chain s' q ms"
    using wf entry_added_chain [OF add wf] unfolding classes_wf_def by blast
  show "\<exists>cs. mro s' q cs"
    using wf q entry_added_classes(2) [OF add] unfolding classes_wf_def by blast
next
  fix q r us vs
  assume us: "method_chain s' q us" and vs: "method_chain s' r vs" and ne: "q \<noteq> r"
  obtain us' where u: "method_chain s q us'" "us = (if q = p then us' @ [new] else us')"
    by (rule entry_added_before [OF add wf us])
  obtain vs' where v: "method_chain s r vs'" "vs = (if r = p then vs' @ [new] else vs')"
    by (rule entry_added_before [OF add wf vs])
  have "set us' \<inter> set vs' = {}"
    using wf u(1) v(1) ne unfolding classes_wf_def by blast
  with u v ne entry_added_not_new [OF add] show "set us \<inter> set vs = {}"
    by auto
qed

lemma entry_added_own:
  assumes add: "entry_added s p ms new s'" and wf: "classes_wf s"
    and new: "map_option method_entry_key (methods s' new) = Some (k, f)" and q: "q \<in> dom (class_at s)"
  shows "own_method s' q j =
    (case own_method s q j of Some g \<Rightarrow> Some g | None \<Rightarrow> if q = p \<and> j = k then Some f else None)"
proof -
  have key: "map_option method_entry_key (methods s' x) = map_option method_entry_key (methods s x)"
    if "x \<noteq> new" for x
    using add that by (simp add: entry_added_def)
  obtain xs where xs: "method_chain s q xs"
    using wf q unfolding classes_wf_def by blast
  have "first_named (methods s') xs j = first_named (methods s) xs j"
    by (rule first_named_cong) (rule key, use entry_added_not_new [OF add xs] in auto)
  moreover have "first_named (methods s') [new] j = (if j = k then Some f else None)"
    using new by (auto simp: method_entry_key_def)
  ultimately show ?thesis
    unfolding own_method_chain [OF entry_added_chain [OF add wf xs]] own_method_chain [OF xs]
    by (cases "q = p"; cases "j = k"; cases "first_named (methods s) xs j")
      (simp_all add: first_named_append del: first_named.simps(2))
qed

text \<open>What a definition means for every method table.\<close>

definition method_step :: "rt \<Rightarrow> ptr \<Rightarrow> i64 \<Rightarrow> pup_method \<Rightarrow> rt \<Rightarrow> bool" where
  "method_step s p k f s' \<longleftrightarrow>
     memory_ok s' \<and> classes_wf s' \<and> same_but_tables s s' \<and> dom (class_at s') = dom (class_at s) \<and>
     uses_at_most 1 s s' \<and> (\<forall>q cs. mro s' q cs = mro s q cs) \<and>
     (\<forall>q \<in> dom (class_at s). \<forall>j. own_method s' q j =
        (case own_method s q j of Some g \<Rightarrow> Some g
         | None \<Rightarrow> if q = p \<and> j = k then Some f else None))"

lemma define_method_step:
  assumes ok: "memory_ok s" and wf: "classes_wf s" and p: "p \<in> dom (class_at s)"
  shows "if fst (malloc (mallocs s)) = NULL then pup_define_method p k f s = Undef
    else \<exists>s'. pup_define_method p k f s = Ret () s' \<and> method_step s p k f s'"
proof -
  obtain c where c: "class_at s p = Some c"
    using p by blast
  have p0: "p \<noteq> NULL"
    using c ok heap_wf_tapes(4) [of s] by (auto simp: class_at_Some memory_ok_def)
  obtain ms where ms: "chain (methods s) meth_next (method_list_head c) ms"
    using class_method_chain [OF wf c] by blast
  obtain new junk t where m: "malloc (mallocs s) = (new, junk, t)"
    by (cases "malloc (mallocs s)")
  show ?thesis
  proof (cases "new = NULL")
    case True
    have "find_slot (methods s) meth_next (\<lambda>_ _. False) Head (method_list_head c) =
        Some (At (last_slot Head ms) NULL)"
      by (rule find_slot_none [OF ms find_no_test])
    with True m c p0 show ?thesis
      by (simp add: pup_define_method_def)
  next
    case False
    from define_method_run [OF ok c p0 ms m False, of k f] obtain s' where
      run: "pup_define_method p k f s = Ret () s'" "memory_ok s'" "same_but_tables s s'" "mallocs s' = t" and
      add: "entry_added s p ms new s'" "map_option method_entry_key (methods s' new) = Some (k, f)"
      by blast
    have "uses_at_most 1 s s'"
      using uses_malloc [OF m run(4), of 0] run(3) by (simp add: same_but_tables_def)
    then have "method_step s p k f s'"
      unfolding method_step_def
      using run(2,3) entry_added_classes [OF add(1)] entry_added_classes_wf [OF add(1) wf]
        entry_added_own [OF add(1) wf add(2)] by simp
    with run m False show ?thesis by simp
  qed
qed

section \<open>The interface of method tables\<close>

fun define_all ::
    "('c \<Rightarrow> 'k \<Rightarrow> 'm \<Rightarrow> 's \<Rightarrow> (unit, 's) outcome) \<Rightarrow> ('c \<times> 'k \<times> 'm) list \<Rightarrow> 's \<Rightarrow> (unit, 's) outcome" where
  "define_all def [] s = Ret () s"
| "define_all def ((c, k, m) # ds) s = andthen (def c k m s) (\<lambda>_ s. define_all def ds s)"

text \<open>The method a class has after the definitions: its old one, or the first defined.\<close>

fun first_definition :: "'c \<Rightarrow> 'k \<Rightarrow> ('c \<times> 'k \<times> 'm) list \<Rightarrow> 'm option \<Rightarrow> 'm option" where
  "first_definition c k [] old = old"
| "first_definition c k ((c', k', m) # ds) old =
     first_definition c k ds
       (case old of Some f \<Rightarrow> Some f | None \<Rightarrow> if c = c' \<and> k = k' then Some m else None)"

locale method_tables =
  fixes own :: "'s \<Rightarrow> 'c \<Rightarrow> 'k \<Rightarrow> 'm option"
    and def :: "'c \<Rightarrow> 'k \<Rightarrow> 'm \<Rightarrow> 's \<Rightarrow> (unit, 's) outcome"
    and good :: "'s \<Rightarrow> bool"
    and classes :: "'s \<Rightarrow> 'c set"
  assumes def_good: "good s \<Longrightarrow> c \<in> classes s \<Longrightarrow> def c k m s = Ret () s' \<Longrightarrow> good s' \<and> classes s' = classes s"
    and own_def: "good s \<Longrightarrow> c \<in> classes s \<Longrightarrow> def c k m s = Ret () s' \<Longrightarrow> d \<in> classes s \<Longrightarrow>
      own s' d j =
        (case own s d j of Some f \<Rightarrow> Some f | None \<Rightarrow> if d = c \<and> j = k then Some m else None)"
begin

lemma defs_own:
  "good s \<Longrightarrow> fst ` set ds \<subseteq> classes s \<Longrightarrow> define_all def ds s = Ret () s' \<Longrightarrow>
     good s' \<and> classes s' = classes s \<and>
     (\<forall>d \<in> classes s. \<forall>j. own s' d j = first_definition d j ds (own s d j))"
proof (induction ds arbitrary: s)
  case Nil
  then show ?case by simp
next
  case (Cons w ds)
  obtain c k m where w: "w = (c, k, m)"
    by (cases w)
  have c: "c \<in> classes s"
    using Cons.prems(2) w by auto
  obtain s1 where s1: "def c k m s = Ret () s1" "define_all def ds s1 = Ret () s'"
    using Cons.prems(3) w by (auto simp: outcome_simps)
  note g = def_good [OF Cons.prems(1) c s1(1)]
  have "good s' \<and> classes s' = classes s1 \<and>
      (\<forall>d \<in> classes s1. \<forall>j. own s' d j = first_definition d j ds (own s1 d j))"
    by (rule Cons.IH) (use g s1(2) Cons.prems(2) w in auto)
  with g w own_def [OF Cons.prems(1) c s1(1)] show ?case
    by simp
qed

end

lemma define_method_ret:
  assumes "memory_ok s" and "classes_wf s" and "p \<in> dom (class_at s)"
    and "pup_define_method p k f s = Ret () s'"
  shows "method_step s p k f s'"
  using define_method_step [OF assms(1-3), of k f] assms(4) by (auto split: if_splits)

interpretation class_tables: method_tables own_method pup_define_method
  "\<lambda>s. memory_ok s \<and> classes_wf s" "\<lambda>s. dom (class_at s)"
proof
  fix s c k m s'
  assume "memory_ok s \<and> classes_wf s" and "c \<in> dom (class_at s)" and "pup_define_method c k m s = Ret () s'"
  then have st: "method_step s c k m s'"
    using define_method_ret by blast
  then show "(memory_ok s' \<and> classes_wf s') \<and> dom (class_at s') = dom (class_at s)"
    unfolding method_step_def by blast
  show "own_method s' d j = (case own_method s d j of Some f \<Rightarrow> Some f
      | None \<Rightarrow> if d = c \<and> j = k then Some m else None)" if "d \<in> dom (class_at s)" for d j
    using st that unfolding method_step_def by blast
qed

section \<open>New classes\<close>

lemma class_at_new_object:
  assumes "objects s' = (objects s)(p \<mapsto> new_object cl m b)"
  shows "class_at s' = (class_at s)(p := (case b of ClassBody c \<Rightarrow> Some c | _ \<Rightarrow> None))"
  by (rule ext) (simp add: class_at_def assms the_class_def new_object_def split: body.splits)

text \<open>A class whose superclass is one of the old classes, or none, and whose table is empty.\<close>

lemma classes_wf_new_class:
  assumes wf: "classes_wf s" and cls: "class_at s' = (class_at s)(p \<mapsto> c)"
    and meths: "methods s' = methods s" and p: "p \<noteq> NULL"
    and head: "method_list_head c = NULL" and super: "mro s (superclass c) cs" "p \<notin> set cs"
    and unused: "\<And>q ds. q \<in> dom (class_at s) \<Longrightarrow> q \<noteq> p \<Longrightarrow> mro s q ds \<Longrightarrow> p \<notin> set ds"
  shows "classes_wf s' \<and> mro s' p (p # cs) \<and>
    (\<forall>q ds. p \<notin> set ds \<longrightarrow> mro s q ds \<longrightarrow> mro s' q ds) \<and>
    (\<forall>q. q \<noteq> p \<longrightarrow> own_method s' q = own_method s q) \<and> (\<forall>k. own_method s' p k = None)"
proof -
  have keep: "mro s' q ds" if "p \<notin> set ds" "mro s q ds" for q ds
    using that chain_cong [of ds superclass "class_at s" "class_at s'" q] cls by (auto simp: mro_def)
  have mc: "method_chain s' q ms \<longleftrightarrow> (if q = p then ms = [] else method_chain s q ms)" for q ms
    using cls meths head by (simp add: method_chain_def split: option.split)
  have mp: "mro s' p (p # cs)"
    using cls p keep [OF super(2,1)] by simp
  have "classes_wf s'"
    unfolding classes_wf_def mc
  proof (intro conjI ballI allI impI)
    fix q
    assume "q \<in> dom (class_at s')"
    then have q: "q = p \<or> q \<noteq> p \<and> q \<in> dom (class_at s)"
      using cls by auto
    then show "\<exists>ms. if q = p then ms = [] else method_chain s q ms"
      using wf by (auto simp: classes_wf_def)
    show "\<exists>ds. mro s' q ds"
    proof (cases "q = p")
      case True
      with mp show ?thesis by blast
    next
      case False
      with q obtain ds where "mro s q ds"
        using wf unfolding classes_wf_def by blast
      with keep unused False q show ?thesis by blast
    qed
  next
    fix q r ms ns
    assume "if q = p then ms = [] else method_chain s q ms" "if r = p then ns = [] else method_chain s r ns"
      and "q \<noteq> r"
    moreover have "set ms \<inter> set ns = {}" if "method_chain s q ms" "method_chain s r ns" "q \<noteq> r" for ms ns
      using wf that unfolding classes_wf_def by blast
    ultimately show "set ms \<inter> set ns = {}"
      by (auto split: if_splits)
  qed
  moreover have "own_method s' q = own_method s q" if "q \<noteq> p" for q
    by (rule ext) (use that cls meths in \<open>simp add: own_method_def find_method_in_list_def searched_def deref_def
      split: option.splits found.splits\<close>)
  moreover have "own_method s' p k = None" for k
    using cls head by (simp add: own_method_def find_method_in_list_def search.simps)
  ultimately show ?thesis
    using mp keep by blast
qed

text \<open>Two classes, one above the other.\<close>

lemma two_classes_wf:
  assumes at: "class_at s = [co \<mapsto> c, cc \<mapsto> c']" and ptrs: "co \<noteq> cc" "co \<noteq> NULL" "cc \<noteq> NULL"
    and super: "superclass c = NULL" "superclass c' = co"
    and head: "method_list_head c = NULL" "method_list_head c' = NULL"
  shows "classes_wf s" "mro s co [co]" "mro s cc [cc, co]" "own_method s p = Map.empty"
proof -
  show m: "mro s co [co]" "mro s cc [cc, co]"
    using assms by simp_all
  have mc: "method_chain s p ms \<longleftrightarrow> p \<in> {co, cc} \<and> ms = []" for p ms
    using assms by (auto simp: method_chain_def split: option.splits if_splits)
  have dom: "dom (class_at s) = {co, cc}"
    using at by auto
  have "\<exists>cs. mro s p cs" if "p \<in> {co, cc}" for p
    using that m by blast
  then show "classes_wf s"
    unfolding classes_wf_def dom mc by auto
  show "own_method s p = Map.empty"
    using assms by (auto simp: own_method_def find_method_in_list_def search.simps split: option.split)
qed

text \<open>A block for a class is a class with no name, no superclass and no hooks.\<close>

lemma class_allocate_step:
  assumes ok: "memory_ok s"
  shows "pup_internal_class_allocate_instance cl s = Aborted \<and> \<not> plenty 1 s \<or>
    (\<exists>p s'. pup_internal_class_allocate_instance cl s = Ret p s' \<and>
       obj_step s p cl (ClassBody zero_class) s')"
proof -
  have sz: "sizeof_PupClass \<le> MAX_REGION_ALLOCATION"
    by (simp add: sizeof_PupClass_def MAX_REGION_ALLOCATION_def)
  from obj_alloc_step [OF ok sz] show ?thesis
  proof (elim disjE exE conjE)
    fix p s1
    assume a: "pup_alloc_obj sizeof_PupClass s = Ret p s1" "alloc_step s PUP_KIND_OBJ p s1"
      "objects s1 p = Some (marked_object (my_mark s))"
    have "pup_internal_class_allocate_instance cl s =
        Ret p (s1\<lparr>objects := (objects s1)(p \<mapsto> new_object cl (my_mark s) (ClassBody zero_class))\<rparr>)"
      using a(1,3) by (simp add: pup_internal_class_allocate_instance_def obj_init_def with_object_def
          marked_object_def zero_object_def new_object_def)
    with obj_step_alloc [OF ok a(2)] show ?thesis by blast
  qed (simp add: pup_internal_class_allocate_instance_def)
qed

lemma memory_ok_body:
  assumes ok: "memory_ok s" and ob: "objects s p = Some ob"
    and ob': "attr_list_head ob' = attr_list_head ob"
  shows "memory_ok (s\<lparr>objects := (objects s)(p \<mapsto> ob')\<rparr>)" (is "memory_ok ?s")
    and "attr_of (s\<lparr>objects := (objects s)(p \<mapsto> ob')\<rparr>) = attr_of s"
proof -
  have ac: "attr_chain ?s q xs = attr_chain s q xs" for q xs
    using ob ob' by (simp add: attr_chain_def split: option.split)
  have "heap_wf ?s"
    by (rule heap_wf_cong [of s]) (use ok ob in \<open>auto simp: memory_ok_def\<close>)
  moreover have "thread_ready ?s"
    using ok by (simp add: memory_ok_def thread_ready_def)
  moreover have "attrs_wf ?s"
    unfolding attrs_wf_def ac using ok ob by (auto simp: memory_ok_def attrs_wf_def)
  ultimately show "memory_ok ?s"
    by (simp add: memory_ok_def)
  show "attr_of ?s = attr_of s"
    using ob ob' by (intro ext) (simp add: attr_of_def pup_iv_get_def find_attr_def searched_def deref_def
      split: option.splits found.splits)
qed

lemma memory_ok_mallocs:
  assumes ok: "memory_ok s" and m: "malloc (mallocs s) = (p, junk, t)"
  shows "memory_ok (s\<lparr>mallocs := t\<rparr>)"
proof -
  have "attr_chain (s\<lparr>mallocs := t\<rparr>) q xs = attr_chain s q xs" for q xs
    by (simp add: attr_chain_def split: option.split)
  then show ?thesis
    using ok heap_wf_failed_malloc [OF _ m]
    by (simp add: memory_ok_def thread_ready_def attrs_wf_def)
qed

lemma class_init_step:
  assumes ok: "memory_ok s" and ob: "objects s p = Some ob" "body ob = ClassBody c"
  shows "\<exists>s' n. pup_internal_class_init p super scp (Some nm) (Some a) d g s = Ret () s' \<and> memory_ok s' \<and>
    objects s' = (objects s)(p \<mapsto> ob\<lparr>body := ClassBody \<lparr>superclass = super, name = n,
      method_list_head = NULL, scope = scp, allocate_instance = Some a, destroy_instance = d,
      gc_copy_instance = g\<rparr>\<rparr>) \<and> (n = None \<or> n = Some nm) \<and>
    attr_of s' = attr_of s \<and> my_mark s' = my_mark s \<and> uses_at_most 1 s s' \<and> methods s' = methods s \<and>
    sym_tab s' = sym_tab s \<and> unwinds s' = unwinds s \<and>
    env s' = env s \<and> self s' = self s \<and> stdout s' = stdout s"
proof -
  obtain q junk t where m: "malloc (mallocs s) = (q, junk, t)"
    by (cases "malloc (mallocs s)")
  let ?n = "if q = NULL then None else Some nm"
  let ?ob = "ob\<lparr>body := ClassBody \<lparr>superclass = super, name = ?n,
      method_list_head = NULL, scope = scp, allocate_instance = Some a, destroy_instance = d,
      gc_copy_instance = g\<rparr>\<rparr>"
  let ?s1 = "s\<lparr>mallocs := t\<rparr>"
  let ?s' = "?s1\<lparr>objects := (objects s)(p \<mapsto> ?ob)\<rparr>"
  have ok1: "memory_ok ?s1"
    by (rule memory_ok_mallocs [OF ok m])
  have "attr_of ?s1 = attr_of s"
    by (intro ext) (simp add: attr_of_def pup_iv_get_def find_attr_def searched_def deref_def
      split: option.splits found.splits)
  then have "memory_ok ?s'" "attr_of ?s' = attr_of s"
    using memory_ok_body [OF ok1, of p ob ?ob] ob by simp_all
  moreover have "pup_internal_class_init p super scp (Some nm) (Some a) d g s = Ret () ?s'"
    using ob m by (cases c) (simp add: pup_internal_class_init_def strdup_def with_class_def the_class_def)
  moreover have "my_mark ?s' = my_mark s" "uses_at_most 1 s ?s'"
    using uses_malloc [OF m, of ?s' 0] by (simp_all add: my_mark_def my_thread_def Let_def)
  ultimately show ?thesis
    by (intro exI [of _ ?s'] exI [of _ ?n]) simp
qed

lemma class_init_named:
  assumes ok: "memory_ok s" and ob: "objects s p = Some ob" "body ob = ClassBody c" and room: "plenty 1 s"
  shows "\<exists>s'. pup_internal_class_init p super scp (Some nm) (Some a) d g s = Ret () s' \<and> memory_ok s' \<and>
    objects s' = (objects s)(p \<mapsto> ob\<lparr>body := ClassBody \<lparr>superclass = super, name = Some nm,
      method_list_head = NULL, scope = scp, allocate_instance = Some a, destroy_instance = d,
      gc_copy_instance = g\<rparr>\<rparr>) \<and>
    attr_of s' = attr_of s \<and> my_mark s' = my_mark s \<and> uses_at_most 1 s s' \<and> methods s' = methods s \<and>
    sym_tab s' = sym_tab s \<and> unwinds s' = unwinds s \<and>
    env s' = env s \<and> self s' = self s \<and> stdout s' = stdout s"
proof -
  obtain q junk t where m: "malloc (mallocs s) = (q, junk, t)"
    by (cases "malloc (mallocs s)")
  have q: "q \<noteq> NULL"
    using plenty_malloc [of 0 s] room m by simp
  from class_init_step [OF ok ob, of super scp nm a d g] obtain s' n where
    s': "pup_internal_class_init p super scp (Some nm) (Some a) d g s = Ret () s'" "memory_ok s'"
      "objects s' = (objects s)(p \<mapsto> ob\<lparr>body := ClassBody \<lparr>superclass = super, name = n,
        method_list_head = NULL, scope = scp, allocate_instance = Some a, destroy_instance = d,
        gc_copy_instance = g\<rparr>\<rparr>)"
      "attr_of s' = attr_of s" "my_mark s' = my_mark s" "uses_at_most 1 s s'" "methods s' = methods s"
      "sym_tab s' = sym_tab s" "unwinds s' = unwinds s" "env s' = env s" "self s' = self s"
      "stdout s' = stdout s"
    by blast
  have "name (the (class_at s' p)) = Some nm"
    using s'(1) ob m q by (auto simp: pup_internal_class_init_def strdup_def with_class_def the_class_def
        class_at_def)
  moreover have "name (the (class_at s' p)) = n"
    using s'(3) by (simp add: class_at_def the_class_def)
  ultimately show ?thesis
    using s' by simp
qed

lemma mro_in_dom: "classes_wf s \<Longrightarrow> mro s q ds \<Longrightarrow> set ds \<subseteq> dom (class_at s)"
  using mro_in by blast

section \<open>Properties\<close>

text \<open>C8: Method dispatch.  Whatever methods have been defined, one after the other, on whatever
  classes, \<open>find_method_in_classes\<close> terminates and finds the method of the first class along the
  superclasses that has one under the name; and of several definitions of one name in one class
  it finds the first, since \<open>pup_define_method\<close> appends and the search stops at the first hit.\<close>

theorem dispatch_after_definitions:
  assumes "memory_ok s" and "classes_wf s" and "fst ` set ds \<subseteq> dom (class_at s)"
    and "define_all pup_define_method ds s = Ret () s'" and "mro s' p cs"
  shows "find_method_in_classes p k s' =
    Ret (first_in (\<lambda>c. first_definition c k ds (own_method s c k)) cs) s'"
proof -
  have good: "memory_ok s \<and> classes_wf s"
    using assms(1,2) by simp
  note defs = class_tables.defs_own [OF good assms(3,4)]
  have "first_in (\<lambda>c. own_method s' c k) ds' = first_in (\<lambda>c. first_definition c k ds (own_method s c k)) ds'"
    if "set ds' \<subseteq> dom (class_at s)" for ds'
    using that defs by (induction ds') (auto split: option.split)
  moreover have "set cs \<subseteq> dom (class_at s)"
    using mro_in [OF assms(5)] defs by blast
  ultimately show ?thesis
    using class_walk_first [OF _ assms(5), of k] defs by (simp add: find_method_in_classes_def)
qed

text \<open>The first two classes of a process, as \<open>runtime_init\<close> makes them.\<close>

definition two_classes :: rt where
  "two_classes =
     (case pup_bootstrap_create_classobject boot of
        Ret co s \<Rightarrow> (case pup_bootstrap_create_classclass co s of Ret cc s \<Rightarrow> s | _ \<Rightarrow> boot)
      | _ \<Rightarrow> boot)"

lemmas class_eval = pup_bootstrap_create_classobject_def pup_bootstrap_create_classclass_def
  pup_internal_class_allocate_instance_def pup_internal_class_init_def sizeof_PupClass_def
  zero_class_def strdup_def with_class_def the_class_def obj_init_def pup_alloc_obj_def

definition demo_object_class :: class_body where
  "demo_object_class = \<lparr>superclass = 0, name = Some ''Object'', method_list_head = 0, scope = 0,
     allocate_instance = Some Alloc_object, destroy_instance = Some Destroy_object,
     gc_copy_instance = Some Copy_object\<rparr>"

definition demo_class_class :: class_body where
  "demo_class_class = \<lparr>superclass = 1048585, name = Some ''Class'', method_list_head = 0,
     scope = 1048585, allocate_instance = Some Alloc_class, destroy_instance = Some Destroy_class,
     gc_copy_instance = Some Copy_class\<rparr>"

lemma two_classes_at:
  "objects two_classes = [1048585 \<mapsto> \<lparr>otype = 0, attr_list_head = 0, gc_mark = 0, body = ClassBody demo_object_class\<rparr>,
     1048681 \<mapsto> \<lparr>otype = 0, attr_list_head = 0, gc_mark = 0, body = ClassBody demo_class_class\<rparr>]"
  "methods two_classes = Map.empty"
  "mallocs two_classes = drop 4 demo_tape"
  by (simp_all add: two_classes_def class_eval boot_eval demo_object_class_def demo_class_class_def
      zero_object_def)

lemma two_classes_spare: "spare two_classes = 254"
  by (simp add: two_classes_def class_eval boot_eval zero_object_def spare_def my_thread_def
      largest_block_def Let_def)

lemma two_classes_run:
  "pup_bootstrap_create_classobject boot \<noteq> Aborted"
  "\<exists>s. pup_bootstrap_create_classobject boot = Ret 1048585 s \<and>
     pup_bootstrap_create_classclass 1048585 s = Ret 1048681 two_classes"
  by (simp_all add: two_classes_def class_eval boot_eval zero_object_def)

lemma bootstrap_memory_ok:
  assumes "memory_ok s"
  shows "pup_bootstrap_create_classobject s = Ret p s' \<Longrightarrow> memory_ok s'"
    and "pup_bootstrap_create_classclass co s = Ret p s' \<Longrightarrow> memory_ok s'"
proof -
  have step: "memory_ok s'"
    if run: "andthen (pup_internal_class_allocate_instance NULL s) (\<lambda>class s.
        andthen (pup_internal_class_init class super scp (Some nm) (Some a) d g s) (\<lambda>_ s. Ret class s)) = Ret p s'"
    for super scp nm a d g
  proof -
    from run obtain s1 where s1: "pup_internal_class_allocate_instance NULL s = Ret p s1"
        "andthen (pup_internal_class_init p super scp (Some nm) (Some a) d g s1) (\<lambda>_ s. Ret p s) = Ret p s'"
      by (auto simp: outcome_simps)
    with class_allocate_step [OF assms, of NULL] have st: "obj_step s p NULL (ClassBody zero_class) s1"
      by auto
    then have "objects s1 p = Some (new_object NULL (my_mark s) (ClassBody zero_class))"
        "memory_ok s1"
      by (simp_all add: obj_step_def)
    from class_init_step [OF this(2,1), of zero_class super scp nm a d g] s1(2) show ?thesis
      by (auto simp: new_object_def)
  qed
  show "pup_bootstrap_create_classobject s = Ret p s' \<Longrightarrow> memory_ok s'"
    by (rule step) (simp add: pup_bootstrap_create_classobject_def)
  show "pup_bootstrap_create_classclass co s = Ret p s' \<Longrightarrow> memory_ok s'"
    by (rule step) (simp add: pup_bootstrap_create_classclass_def)
qed

lemma two_classes_ok:
  "memory_ok two_classes" "classes_wf two_classes" "dom (class_at two_classes) = {1048585, 1048681}"
  "mro two_classes 1048681 [1048681, 1048585]" "mro two_classes 1048585 [1048585]"
  "scopes two_classes 1048681 [1048681, 1048585]"
proof -
  show "memory_ok two_classes"
    using two_classes_run bootstrap_memory_ok boot_memory_ok by blast
  have at: "class_at two_classes = [1048585 \<mapsto> demo_object_class, 1048681 \<mapsto> demo_class_class]"
    by (rule ext) (simp add: class_at_def the_class_def two_classes_at)
  show "dom (class_at two_classes) = {1048585, 1048681}"
    by (auto simp: at)
  show "scopes two_classes 1048681 [1048681, 1048585]"
    by (simp_all add: at scopes_def demo_object_class_def demo_class_class_def)
  show "mro two_classes 1048681 [1048681, 1048585]" "mro two_classes 1048585 [1048585]"
    "classes_wf two_classes"
    by (rule two_classes_wf [OF at]; simp add: demo_object_class_def demo_class_class_def)+
qed

lemma dispatch_after_definitions_witness:
  "\<exists>s'. define_all pup_define_method
       [(1048585, 5, Object_puts), (1048681, 9, Class_new), (1048585, 5, Object_raise)] two_classes = Ret () s' \<and>
     find_method_in_classes 1048681 5 s' = Ret (Some Object_puts) s' \<and>
     find_method_in_classes 1048681 9 s' = Ret (Some Class_new) s'"
proof -
  let ?ds = "[(1048585, 5, Object_puts), (1048681, 9, Class_new), (1048585, 5, Object_raise)]"
  obtain s' where run: "define_all pup_define_method ?ds two_classes = Ret () s'" and
    m: "mro s' 1048681 [1048681, 1048585]"
    by (simp add: pup_define_method_def store_method_def two_classes_at demo_tape_def class_at_def the_class_def
        demo_object_class_def demo_class_class_def find_slot.simps with_class_def mro_def)
  have "own_method two_classes c k = None" for c k
    by (simp add: own_method_def class_at_def two_classes_at the_class_def find_method_in_list_def
        demo_object_class_def demo_class_class_def search.simps)
  with dispatch_after_definitions [OF two_classes_ok(1,2) _ run m] two_classes_ok(3) run
  show ?thesis by auto
qed

text \<open>C37: \<open>pup_is_descendant_or_same\<close> decides, and terminates, whether the first class is the second
  or one of its superclasses.\<close>

theorem descendant_is_in_superclasses:
  assumes "mro s descendant cs" and "ancestor \<noteq> NULL" and "descendant \<noteq> NULL"
  shows "pup_is_descendant_or_same ancestor descendant s = Ret (ancestor \<in> set cs) s"
  using ancestor_walk_mro [OF assms(1), of ancestor] assms(2,3)
  by (simp add: pup_is_descendant_or_same_def)

lemma descendant_is_in_superclasses_witness:
  "pup_is_descendant_or_same 1048585 1048681 two_classes = Ret True two_classes \<and>
   pup_is_descendant_or_same 4096 1048681 two_classes = Ret False two_classes"
  using descendant_is_in_superclasses [OF two_classes_ok(4), of 1048585]
    descendant_is_in_superclasses [OF two_classes_ok(4), of 4096] by simp

text \<open>C38: Constants.  After any constants have been set in any classes, \<open>pup_const_get\<close> terminates
  and gives the value of the innermost enclosing scope that has one under the name, where the
  value a class has is the one last set in it; \<open>NULL\<close> if none has.\<close>

theorem const_get_innermost:
  assumes "memory_ok s" and "fst ` set ws \<subseteq> dom (objects s)"
    and "set_all pup_const_set ws s = Ret () s'" and "scopes s' p cs" and "cs \<noteq> []"
    and "set cs \<subseteq> dom (objects s)"
  shows "pup_const_get p k s' = Ret (first_const (\<lambda>c. last_write c k ws (attr_of s c k)) cs) s'"
proof -
  have "pup_const_set = pup_iv_set"
    by (intro ext) (simp add: pup_const_set_def)
  with assms(3) have run: "set_all pup_iv_set ws s = Ret () s'"
    by simp
  note puts = ivars.puts_get [OF assms(1,2) run]
  have "first_const (\<lambda>c. attr_of s' c k) ds = first_const (\<lambda>c. last_write c k ws (attr_of s c k)) ds"
    if "set ds \<subseteq> dom (objects s)" for ds
    using that puts by (induction ds) auto
  moreover have "attrs_wf s'"
    using puts by (simp add: memory_ok_def)
  ultimately show ?thesis
    using scope_walk_first [OF _ assms(4,5), of k] assms(6) by (simp add: pup_const_get_def)
qed

lemma const_get_innermost_witness:
  "\<exists>s'. set_all pup_const_set [(1048585, 7, 1048681), (1048585, 8, 1048585)] two_classes = Ret () s' \<and>
     pup_const_get 1048681 7 s' = Ret 1048681 s'"
proof -
  let ?ws = "[(1048585, 7, 1048681), (1048585, 8, 1048585)]"
  have "attr_of two_classes c k = NULL" for c k
    by (simp add: attr_of_def pup_iv_get_def find_attr_def two_classes_at search.simps)
  moreover obtain s' where run: "set_all pup_const_set ?ws two_classes = Ret () s'"
    and "scopes s' 1048681 [1048681, 1048585]"
    by (simp add: two_classes_def class_eval boot_eval pup_const_set_def pup_iv_set_def find_attr_def
        create_attr_def attr_init_def pup_alloc_attr_def sizeof_AttributeListEntry_def search.simps
        zero_object_def scopes_def class_at_def)
  moreover have "dom (objects two_classes) = {1048585, 1048681}"
    by (auto simp: two_classes_at)
  ultimately show ?thesis
    using const_get_innermost [OF two_classes_ok(1) _ run, of 1048681 "[1048681, 1048585]" 7] by auto
qed

end
