(* ===== verification/Exceptions.thy ===== *)
theory Exceptions
  imports Classes
begin

text \<open>
  Strings (string.c), creating objects through the class hooks (class.c, object.c), exceptions
  (exception.c, \<open>pup_raise\<close> of raise.c) and the arity check (runtime.c).  A C string result is an
  option, \<open>None\<close> for \<open>NULL\<close>; \<open>Raised e\<close> carries the pointer to the unwind header.
\<close>

section \<open>Formatted text\<close>

fun decimal :: "nat \<Rightarrow> string" where
  "decimal n = (if n < 10 then [char_of (48 + n)] else decimal (n div 10) @ [char_of (48 + n mod 10)])"

declare decimal.simps [simp del]

text \<open>\<open>%d\<close> and \<open>%p\<close> of printf.\<close>

definition show_int :: "int \<Rightarrow> string" where
  "show_int i = (if i < 0 then ''-'' @ decimal (nat (- i)) else decimal (nat i))"

fun hex :: "nat \<Rightarrow> string" where
  "hex n = (if n < 16 then [''0123456789abcdef'' ! n] else hex (n div 16) @ [''0123456789abcdef'' ! (n mod 16)])"

declare hex.simps [simp del]

definition show_ptr :: "ptr \<Rightarrow> string" where
  "show_ptr p = (if p = NULL then ''(nil)'' else ''0x'' @ hex (unat p))"

text \<open>\<open>snprintf\<close> into a buffer of \<open>n\<close> bytes keeps what fits before the terminator.\<close>

definition buffered :: "nat \<Rightarrow> string \<Rightarrow> string" where
  "buffered n x = take (n - 1) x"

section \<open>Strings\<close>

definition sizeof_PupString :: u64 where
  "sizeof_PupString = 32"

definition string_allocate_instance :: "ptr \<Rightarrow> rt \<Rightarrow> (ptr, rt) outcome" where
  "string_allocate_instance class s =
     andthen (pup_alloc_obj sizeof_PupString s) (\<lambda>obj s.
     andthen (obj_init obj class s) (\<lambda>_ s.
     andthen (with_object obj (body_update (\<lambda>_. StringBody None)) s) (\<lambda>_ s. Ret obj s)))"

text \<open>The object is malloc'ed, outside the heap, and its mark is not initialised.\<close>

definition pup_string_new_cstr :: "string option \<Rightarrow> rt \<Rightarrow> (ptr, rt) outcome" where
  "pup_string_new_cstr x s =
     (case malloc (mallocs s) of (p, junk, t) \<Rightarrow>
        if p = NULL then Ret NULL (s\<lparr>mallocs := t\<rparr>)
        else
          (case x of
             None \<Rightarrow> Undef
           | Some v \<Rightarrow>
               (case strdup v (s\<lparr>mallocs := t\<rparr>) of (v', s) \<Rightarrow>
                  Ret p (s\<lparr>objects := (objects s)(p \<mapsto>
                    \<lparr>otype = class_string (env s), attr_list_head = NULL, gc_mark = ucast junk,
                     body = StringBody v'\<rparr>)\<rparr>))))"

definition pup_string_value_unsafe :: "ptr \<Rightarrow> rt \<Rightarrow> (string option, rt) outcome" where
  "pup_string_value_unsafe obj s =
     deref (objects s obj) (\<lambda>ob. case body ob of StringBody v \<Rightarrow> Ret v s | _ \<Rightarrow> Undef)"

definition pup_is_string :: "ptr \<Rightarrow> rt \<Rightarrow> (bool, rt) outcome" where
  "pup_is_string obj s = pup_object_instanceof obj (class_string (env s)) s"

section \<open>Raising\<close>

text \<open>
  The unwinder runs the handlers of the callers, or, when no caller has one, returns and the
  process aborts; in the model the exception leaves the function, and aborts at the top.
\<close>

definition pup_raise :: "ptr \<Rightarrow> rt \<Rightarrow> ('a, rt) outcome" where
  "pup_raise ex s =
     andthen (on_part (\<lambda>(u, t). s\<lparr>unwinds := u, mallocs := t\<rparr>)
        (create_unwind_exception ex (unwinds s, mallocs s)))
       (\<lambda>e s. Raised e s)"

text \<open>An exception on its way goes on; the cleanup that the unwinder calls for one does nothing.\<close>

definition pup_rethrow_uncaught_exception :: "ptr \<Rightarrow> rt \<Rightarrow> ('a, rt) outcome" where
  "pup_rethrow_uncaught_exception dw_excep s = Raised dw_excep s"

definition pup_uwind_exception_cleanup :: "ptr \<Rightarrow> rt \<Rightarrow> (unit, rt) outcome" where
  "pup_uwind_exception_cleanup cleanup s = Ret () s"

definition pup_exception_message_set :: "ptr \<Rightarrow> ptr \<Rightarrow> rt \<Rightarrow> (unit, rt) outcome" where
  "pup_exception_message_set target val s =
     andthen (pup_env_str_to_sym ''@message'' s) (\<lambda>sym_message s. pup_iv_set target sym_message val s)"

definition pup_exception_message_get :: "ptr \<Rightarrow> rt \<Rightarrow> (ptr, rt) outcome" where
  "pup_exception_message_get target s =
     andthen (pup_env_str_to_sym ''@message'' s) (\<lambda>sym_message s. pup_iv_get target sym_message s)"

definition pup_instanceof_exception :: "ptr \<Rightarrow> rt \<Rightarrow> (bool, rt) outcome" where
  "pup_instanceof_exception obj s = pup_object_instanceof obj (class_exception (env s)) s"

section \<open>Creating objects\<close>

text \<open>
  A class allocates its instances through its hook.  The hook of Fixnum raises a RuntimeError,
  which is itself created through the hook of its class: the functions are stated with the hook of
  Fixnum as an argument, and then tied together.  Only if RuntimeError had the hook of Fixnum
  would the recursion go on, with the same arguments and the same state, without end.
\<close>

definition run_alloc_fn ::
    "(ptr \<Rightarrow> rt \<Rightarrow> (ptr, rt) outcome) \<Rightarrow> alloc_fn \<Rightarrow> ptr \<Rightarrow> rt \<Rightarrow> (ptr, rt) outcome" where
  "run_alloc_fn fixnum_hook a class s =
     (case a of
        Alloc_object \<Rightarrow> pup_object_allocate_instance class s
      | Alloc_class \<Rightarrow> pup_internal_class_allocate_instance class s
      | Alloc_string \<Rightarrow> string_allocate_instance class s
      | Alloc_fixnum \<Rightarrow> fixnum_hook class s)"

definition allocate_via :: "(ptr \<Rightarrow> rt \<Rightarrow> (ptr, rt) outcome) \<Rightarrow> ptr \<Rightarrow> rt \<Rightarrow> (ptr, rt) outcome" where
  "allocate_via fixnum_hook clazz s =
     abort_on (clazz = NULL)
       (deref (class_at s clazz) (\<lambda>c.
          case allocate_instance c of
            None \<Rightarrow> Aborted
          | Some a \<Rightarrow> run_alloc_fn fixnum_hook a clazz s))"

definition create_via :: "(ptr \<Rightarrow> rt \<Rightarrow> (ptr, rt) outcome) \<Rightarrow> ptr \<Rightarrow> rt \<Rightarrow> (ptr, rt) outcome" where
  "create_via fixnum_hook class s = abort_on (class = NULL) (allocate_via fixnum_hook class s)"

definition runtimeerror_via ::
    "(ptr \<Rightarrow> rt \<Rightarrow> (ptr, rt) outcome) \<Rightarrow> string option \<Rightarrow> rt \<Rightarrow> (ptr, rt) outcome" where
  "runtimeerror_via fixnum_hook message s =
     abort_on (message = None)
       (andthen (create_via fixnum_hook (class_runtimeerror (env s)) s) (\<lambda>e s.
        andthen (pup_string_new_cstr message s) (\<lambda>strg s.
        andthen (pup_exception_message_set e strg s) (\<lambda>_ s. Ret e s))))"

definition fixnum_allocate_instance :: "ptr \<Rightarrow> rt \<Rightarrow> (ptr, rt) outcome" where
  "fixnum_allocate_instance class s =
     andthen (runtimeerror_via (\<lambda>_ _. Diverged) (Some ''you can't call 'new' on Fixnum'') s)
       (\<lambda>e s. pup_raise e s)"

definition pup_class_allocate_instance :: "ptr \<Rightarrow> rt \<Rightarrow> (ptr, rt) outcome" where
  "pup_class_allocate_instance = allocate_via fixnum_allocate_instance"

definition pup_create_object :: "ptr \<Rightarrow> rt \<Rightarrow> (ptr, rt) outcome" where
  "pup_create_object = create_via fixnum_allocate_instance"

definition pup_new_runtimeerror :: "string option \<Rightarrow> rt \<Rightarrow> (ptr, rt) outcome" where
  "pup_new_runtimeerror = runtimeerror_via fixnum_allocate_instance"

text \<open>The format and its arguments come as the text they make; the buffer has 1024 bytes.\<close>

definition pup_new_runtimeerrorf :: "string \<Rightarrow> rt \<Rightarrow> (ptr, rt) outcome" where
  "pup_new_runtimeerrorf message s =
     andthen (pup_create_object (class_runtimeerror (env s)) s) (\<lambda>e s.
     andthen (pup_string_new_cstr (Some (buffered 1024 message)) s) (\<lambda>strg s.
     andthen (pup_exception_message_set e strg s) (\<lambda>_ s. Ret e s)))"

definition pup_raise_runtimeerror :: "string option \<Rightarrow> rt \<Rightarrow> ('a, rt) outcome" where
  "pup_raise_runtimeerror message s =
     andthen (pup_new_runtimeerror message s) (\<lambda>e s. pup_raise e s)"

definition raise_runtimeerrorf :: "string \<Rightarrow> rt \<Rightarrow> ('a, rt) outcome" where
  "raise_runtimeerrorf message s =
     andthen (pup_new_runtimeerrorf message s) (\<lambda>e s. pup_raise e s)"

definition pup_arity_check :: "i32 \<Rightarrow> i32 \<Rightarrow> rt \<Rightarrow> (unit, rt) outcome" where
  "pup_arity_check expected actual s =
     (if expected \<noteq> actual then
        raise_runtimeerrorf (''wrong number of arguments ('' @ show_int (sint actual) @ '' for '' @
          show_int (sint expected) @ '')'') s
      else Ret () s)"

definition pup_string_value :: "ptr \<Rightarrow> rt \<Rightarrow> (string option, rt) outcome" where
  "pup_string_value obj s =
     andthen (pup_is_string obj s) (\<lambda>is s.
       if is then pup_string_value_unsafe obj s
       else andthen (pup_object_type_name obj s) (\<lambda>n s.
         raise_runtimeerrorf (''String expected, '' @ n @ '' given'') s))"

definition exception_text :: "ptr \<Rightarrow> rt \<Rightarrow> (string option, rt) outcome" where
  "exception_text ex s =
     andthen (pup_exception_message_get ex s) (\<lambda>msg s.
       if msg \<noteq> NULL then pup_string_value msg s
       else andthen (pup_object_type_name ex s) (\<lambda>n s. Ret (Some n) s))"

text \<open>The text goes to the standard error, and the process exits.\<close>

definition pup_handle_uncaught_exception :: "ptr \<Rightarrow> rt \<Rightarrow> (unit, rt) outcome" where
  "pup_handle_uncaught_exception e s =
     andthen (on_part (\<lambda>_. s) (extract_exception_obj e (unwinds s, mallocs s))) (\<lambda>ex s.
     andthen (pup_object_type_name ex s) (\<lambda>_ s.
     andthen (exception_text ex s) (\<lambda>txt s. if txt = None then Undef else Exited)))"

definition pup_const_get_required :: "ptr \<Rightarrow> i32 \<Rightarrow> rt \<Rightarrow> (ptr, rt) outcome" where
  "pup_const_get_required clazz sy s =
     andthen (pup_const_get clazz sy s) (\<lambda>res s.
       if res \<noteq> NULL then Ret res s
       else andthen (pup_env_sym_to_str sy s) (\<lambda>nm s.
         case nm of
           None \<Rightarrow> Undef
         | Some n \<Rightarrow> raise_runtimeerrorf (''uninitialized constant '' @ n) s))"

section \<open>Text of an object\<close>

definition pup_default_obj_cstr :: "ptr \<Rightarrow> rt \<Rightarrow> (string, rt) outcome" where
  "pup_default_obj_cstr obj s =
     andthen (pup_object_type_name obj s) (\<lambda>n s.
       Ret (buffered 1024 (''<'' @ n @ '':'' @ show_ptr obj @ ''>'')) s)"

definition strdup_ret :: "string option \<Rightarrow> rt \<Rightarrow> (string option, rt) outcome" where
  "strdup_ret x s =
     (case x of None \<Rightarrow> Undef | Some v \<Rightarrow> (case strdup v s of (v', s) \<Rightarrow> Ret v' s))"

definition pup_stringify :: "ptr \<Rightarrow> rt \<Rightarrow> (string option, rt) outcome" where
  "pup_stringify obj s =
     andthen (pup_is_string obj s) (\<lambda>is_str s.
       if is_str then andthen (pup_string_value_unsafe obj s) (\<lambda>v s. strdup_ret v s)
       else
         andthen (pup_instanceof_exception obj s) (\<lambda>is_exc s.
         andthen (if is_exc then exception_text obj s else Ret None s) (\<lambda>msg s.
           if msg \<noteq> None then strdup_ret msg s
           else andthen (pup_default_obj_cstr obj s) (\<lambda>b s. strdup_ret (Some b) s))))"

section \<open>The invariant of the runtime\<close>

definition interned :: "rt \<Rightarrow> string list \<Rightarrow> bool" where
  "interned s ss \<longleftrightarrow> (\<exists>xs. sym_table_is (sym_tab s) xs ss)"

definition rt_ok :: "rt \<Rightarrow> bool" where
  "rt_ok s \<longleftrightarrow> memory_ok s \<and> classes_wf s \<and> (\<exists>ss. interned s ss)"

text \<open>The symbol of a string in a table that holds \<open>ss\<close>.\<close>

definition symbol_in :: "string list \<Rightarrow> string \<Rightarrow> i32" where
  "symbol_in ss x = of_nat (fst (intern x ss))"

lemma interned_symbols:
  assumes "heap_wf s" and "interned s ss"
  shows "symbols (sym_tab s, mallocs s) ss"
proof -
  have "fresh_tape (mallocs s) (dom (st_entries (sym_tab s)))"
    by (rule fresh_tape_mono [OF heap_wf_tapes(2) [OF assms(1)]]) (auto simp: malloced_def)
  with assms(2) show ?thesis
    by (simp add: symbols_def interned_def)
qed

lemma interned_unique:
  assumes "interned s ss" and "interned s ts"
  shows "ss = ts"
proof -
  from assms obtain xs ys where x: "sym_table_is (sym_tab s) xs ss" "sym_table_is (sym_tab s) ys ts"
    by (auto simp: interned_def)
  then have "xs = ys"
    unfolding sym_table_is_def using chain_unique by blast
  moreover have "entries_from m xs k ss \<Longrightarrow> entries_from m xs k ts \<Longrightarrow> ss = ts" for m k
    by (induction xs arbitrary: k ss ts) auto
  ultimately show ?thesis
    using x unfolding sym_table_is_def by blast
qed

text \<open>Only the tables of symbols and malloc change.\<close>

lemma memory_ok_symtab:
  assumes ok: "memory_ok s" and m: "malloc (mallocs s) = (p, junk, t)" "p \<noteq> NULL"
    and d: "dom (st_entries st) \<subseteq> insert p (dom (st_entries (sym_tab s)))"
  shows "memory_ok (s\<lparr>sym_tab := st, mallocs := t\<rparr>)"
proof -
  have "attr_chain (s\<lparr>sym_tab := st, mallocs := t\<rparr>) q xs = attr_chain s q xs" for q xs
    by (simp add: attr_chain_def split: option.split)
  moreover have "heap_wf (s\<lparr>sym_tab := st, mallocs := t\<rparr>)"
    by (rule heap_wf_malloc [OF _ m]) (use ok d in \<open>auto simp: memory_ok_def malloced_def\<close>)
  ultimately show ?thesis
    using ok by (simp add: memory_ok_def thread_ready_def attrs_wf_def)
qed

lemma classes_wf_cong:
  assumes "class_at s' = class_at s" and "methods s' = methods s"
  shows "classes_wf s' = classes_wf s" "mro s' = mro s" "own_method s' = own_method s"
proof -
  have "method_chain s' q ms = method_chain s q ms" "mro s' q ms = mro s q ms" for q ms
    using assms by (simp_all add: method_chain_def mro_def split: option.split)
  then have "method_chain s' = method_chain s" "mro s' = mro s"
    by (auto simp: fun_eq_iff)
  then show "classes_wf s' = classes_wf s" "mro s' = mro s"
    using assms by (simp_all add: classes_wf_def)
  show "own_method s' = own_method s"
    using assms by (intro ext) (simp add: own_method_def find_method_in_list_def searched_def
        deref_def split: option.splits found.splits)
qed

text \<open>Interning a string changes nothing else.\<close>

definition sym_step :: "rt \<Rightarrow> string list \<Rightarrow> string \<Rightarrow> rt \<Rightarrow> bool" where
  "sym_step s ss x s' \<longleftrightarrow>
     memory_ok s' \<and> interned s' (snd (intern x ss)) \<and> uses_at_most 1 s s' \<and>
     s' = s\<lparr>sym_tab := sym_tab s', mallocs := mallocs s'\<rparr>"

lemma intern_old: "x \<in> set ss \<Longrightarrow> snd (intern x ss) = ss"
  by (auto simp: intern_def index_of_None split: option.splits)

lemma str_to_sym_step:
  assumes ok: "memory_ok s" and ss: "interned s ss"
    and room: "x \<in> set ss \<or> fst (malloc (mallocs s)) \<noteq> NULL \<and> length ss < 2 ^ 31 - 2"
  shows "\<exists>s'. pup_env_str_to_sym x s = Ret (symbol_in ss x) s' \<and> sym_step s ss x s' \<and>
    (x \<in> set ss \<longrightarrow> s' = s)"
proof -
  obtain xs where st: "sym_table_is (sym_tab s) xs ss"
    using ss by (auto simp: interned_def)
  show ?thesis
  proof (cases "x \<in> set ss")
    case True
    then obtain i where i: "index_of x ss = Some i"
      using index_of_None [of x ss] by auto
    have "pup_env_str_to_sym x s = Ret (symbol_in ss x) s"
      using pup_str_to_sym_old [OF st i, of "mallocs s"] i
      by (simp add: pup_env_str_to_sym_def symbol_in_def intern_def)
    moreover have "sym_step s ss x s"
      using ok ss True uses_none [of s s 1] by (simp add: sym_step_def intern_old)
    ultimately show ?thesis by blast
  next
    case False
    obtain p junk t where m: "malloc (mallocs s) = (p, junk, t)"
      by (cases "malloc (mallocs s)")
    with room False have p: "p \<noteq> NULL" "Suc (Suc (length ss)) < 2 ^ 31"
      by auto
    have "p \<notin> malloced s"
      using ok fresh_tape_head [OF heap_wf_tapes(2) m p(1)] by (auto simp: memory_ok_def)
    then have fresh: "p \<notin> dom (st_entries (sym_tab s))"
      by (simp add: malloced_def)
    note app = appended_is [OF st False p(2,1) fresh]
    let ?s = "s\<lparr>sym_tab := appended (sym_tab s) xs p x, mallocs := t\<rparr>"
    have "pup_env_str_to_sym x s = Ret (symbol_in ss x) ?s"
      using pup_str_to_sym_new [OF st False p(2) m p(1) fresh] False index_of_None [of x ss]
      by (simp add: pup_env_str_to_sym_def symbol_in_def intern_def)
    moreover have "memory_ok ?s"
      by (rule memory_ok_symtab [OF ok m p(1)]) (use app(3) in auto)
    moreover have "interned ?s (snd (intern x ss))"
      using app(1) False index_of_None [of x ss] by (auto simp: interned_def intern_def)
    moreover have "uses_at_most 1 s ?s"
      using uses_malloc [OF m, of ?s 0] by simp
    ultimately show ?thesis
      using False by (intro exI [of _ ?s]) (simp add: sym_step_def)
  qed
qed

lemma sym_step_frame:
  assumes "sym_step s ss x s'"
  shows "objects s' = objects s" "attrs s' = attrs s" "methods s' = methods s" "class_at s' = class_at s"
    "attr_of s' = attr_of s" "my_mark s' = my_mark s" "env s' = env s" "self s' = self s"
    "unwinds s' = unwinds s" "stdout s' = stdout s" "heap s' = heap s" "gc s' = gc s"
    "segments s' = segments s"
proof -
  have eq: "s' = s\<lparr>sym_tab := sym_tab s', mallocs := mallocs s'\<rparr>"
    using assms by (simp add: sym_step_def)
  show f: "objects s' = objects s" "attrs s' = attrs s" "methods s' = methods s" "env s' = env s"
    "self s' = self s" "unwinds s' = unwinds s" "stdout s' = stdout s" "heap s' = heap s" "gc s' = gc s"
    "segments s' = segments s"
    by (subst eq, simp)+
  then show "class_at s' = class_at s" "my_mark s' = my_mark s"
    by (auto simp: fun_eq_iff class_at_def my_mark_def my_thread_def Let_def)
  show "attr_of s' = attr_of s"
    using f by (intro ext) (simp add: attr_of_def pup_iv_get_def find_attr_def searched_def deref_def
      split: option.splits found.splits)
qed

lemma sym_step_rt_ok: "sym_step s ss x s' \<Longrightarrow> rt_ok s \<Longrightarrow> rt_ok s'"
  using classes_wf_cong(1) [of s' s] sym_step_frame [of s ss x s']
  by (auto simp: rt_ok_def sym_step_def)

subsection \<open>New strings and objects\<close>

definition str_step :: "rt \<Rightarrow> ptr \<Rightarrow> string \<Rightarrow> rt \<Rightarrow> bool" where
  "str_step s p v s' \<longleftrightarrow>
     memory_ok s' \<and> p \<noteq> NULL \<and> p \<notin> dom (objects s) \<and> my_mark s' = my_mark s \<and> uses_at_most 2 s s' \<and>
     (\<exists>g. objects s' = (objects s)(p \<mapsto> \<lparr>otype = class_string (env s), attr_list_head = NULL,
        gc_mark = g, body = StringBody (Some v)\<rparr>)) \<and> attrs s' = attrs s \<and>
     methods s' = methods s \<and> segments s' = segments s \<and> gc s' = gc s \<and> unwinds s' = unwinds s \<and>
     sym_tab s' = sym_tab s \<and> env s' = env s \<and> self s' = self s \<and> stdout s' = stdout s"

text \<open>The block of a string and the two answers of malloc it takes.\<close>

lemma string_object_ok:
  assumes ok: "memory_ok s" and m: "malloc (mallocs s) = (p, junk, t)" "p \<noteq> NULL" "malloc t = (q, junk', t')"
    and ob: "attr_list_head ob = NULL"
  shows "memory_ok (s\<lparr>mallocs := t', objects := (objects s)(p \<mapsto> ob)\<rparr>)" "p \<notin> dom (objects s)"
proof -
  let ?s2 = "s\<lparr>mallocs := t, objects := (objects s)(p \<mapsto> ob)\<rparr>"
  have wf: "heap_wf s" "attrs_wf s"
    using ok by (simp_all add: memory_ok_def)
  have "p \<notin> malloced s"
    using fresh_tape_head [OF heap_wf_tapes(2) [OF wf(1)] m(1,2)] by blast
  then show fresh: "p \<notin> dom (objects s)"
    by (simp add: malloced_def)
  have "heap_wf ?s2"
    by (rule heap_wf_malloc [OF wf(1) m(1,2)]) (auto simp: malloced_def)
  moreover have "attrs_wf ?s2"
    by (rule attrs_wf_new_object [OF wf(2) fresh, of _ ob]) (simp_all add: ob)
  ultimately have "memory_ok ?s2"
    using ok by (simp add: memory_ok_def thread_ready_def)
  moreover have "malloc (mallocs ?s2) = (q, junk', t')"
    using m(3) by simp
  ultimately have "memory_ok (?s2\<lparr>mallocs := t'\<rparr>)"
    by (rule memory_ok_mallocs)
  moreover have "?s2\<lparr>mallocs := t'\<rparr> = s\<lparr>mallocs := t', objects := (objects s)(p \<mapsto> ob)\<rparr>"
    by simp
  ultimately show "memory_ok (s\<lparr>mallocs := t', objects := (objects s)(p \<mapsto> ob)\<rparr>)"
    by (simp only:)
qed

lemma string_new_step:
  assumes ok: "memory_ok s" and room: "plenty 2 s"
  shows "\<exists>p s'. pup_string_new_cstr (Some v) s = Ret p s' \<and> str_step s p v s'"
proof -
  obtain p junk t where m: "malloc (mallocs s) = (p, junk, t)"
    by (cases "malloc (mallocs s)")
  obtain q junk' t' where m': "malloc t = (q, junk', t')"
    by (cases "malloc t")
  have p: "p \<noteq> NULL"
    using plenty_malloc [of 1 s] room m by (simp add: numeral_2_eq_2)
  let ?s1 = "s\<lparr>mallocs := t\<rparr>"
  have u1: "uses_at_most 1 s ?s1"
    using uses_malloc [OF m, of ?s1 0] by simp
  have "plenty (Suc 0) ?s1"
    by (rule plenty_uses [OF _ u1]) (use room in \<open>simp add: numeral_2_eq_2\<close>)
  then have q: "q \<noteq> NULL"
    using plenty_malloc [of 0 ?s1] m' by simp
  let ?ob = "\<lparr>otype = class_string (env s), attr_list_head = NULL, gc_mark = ucast junk,
      body = StringBody (Some v)\<rparr>"
  let ?s' = "s\<lparr>mallocs := t', objects := (objects s)(p \<mapsto> ?ob)\<rparr>"
  have "attr_list_head ?ob = NULL"
    by simp
  note new = string_object_ok [OF ok m p m' this]
  have "uses_at_most 1 ?s1 ?s'"
    using uses_malloc [of ?s1 q junk' t' ?s' 0] m' by simp
  then have "uses_at_most 2 s ?s'"
    using uses_trans [OF u1] by (simp add: numeral_2_eq_2)
  moreover have "pup_string_new_cstr (Some v) s = Ret p ?s'"
    using m m' p q by (simp add: pup_string_new_cstr_def strdup_def)
  ultimately show ?thesis
    using p new
    by (intro exI [of _ p] exI [of _ ?s']) (auto simp: str_step_def my_mark_def my_thread_def Let_def)
qed

text \<open>Adding an object that is no class leaves classes and old attributes as they are.\<close>

lemma added_object_frame:
  assumes new: "objects s' = (objects s)(p \<mapsto> ob)" "attrs s' = attrs s" "methods s' = methods s"
    and p: "p \<notin> dom (objects s)" and ob: "the_class ob = None"
  shows "class_at s' = class_at s" "classes_wf s' = classes_wf s" "own_method s' = own_method s"
    "mro s' = mro s" and "q \<noteq> p \<Longrightarrow> attr_of s' q = attr_of s q"
proof -
  have "class_at s p = None"
    using p by (simp add: class_at_def domIff)
  then show c: "class_at s' = class_at s"
    using new ob by (auto simp: fun_eq_iff class_at_def)
  show "classes_wf s' = classes_wf s" "own_method s' = own_method s" "mro s' = mro s"
    using classes_wf_cong [OF c new(3)] by simp_all
  show "attr_of s' q = attr_of s q" if "q \<noteq> p"
    using new that by (intro ext) (simp add: attr_of_def pup_iv_get_def find_attr_def searched_def
      deref_def split: option.splits found.splits)
qed

lemma str_step_object:
  assumes "str_step s p v s'"
  shows "\<exists>ob. objects s' = (objects s)(p \<mapsto> ob) \<and> otype ob = class_string (env s) \<and>
    body ob = StringBody (Some v) \<and> the_class ob = None"
  using assms by (auto simp: str_step_def the_class_def)

lemma str_step_rt_ok:
  assumes "str_step s p v s'" and "rt_ok s"
  shows "rt_ok s'"
proof -
  obtain ob where "objects s' = (objects s)(p \<mapsto> ob)" "the_class ob = None"
    using str_step_object [OF assms(1)] by blast
  then have "classes_wf s' = classes_wf s"
    using added_object_frame(2) [of s' s p ob] assms(1) by (simp add: str_step_def)
  with assms show ?thesis
    by (simp add: rt_ok_def str_step_def interned_def)
qed

lemma obj_step_rt_ok:
  assumes step: "obj_step s p cl b s'" and ok: "rt_ok s" and b: "\<And>c. b \<noteq> ClassBody c"
  shows "rt_ok s'" "class_at s' = class_at s"
proof -
  have new: "objects s' = (objects s)(p \<mapsto> new_object cl (my_mark s) b)" "attrs s' = attrs s"
      "methods s' = methods s" "p \<notin> dom (objects s)"
    using step by (simp_all add: obj_step_def)
  have "the_class (new_object cl (my_mark s) b) = None"
    using b by (auto simp: the_class_def new_object_def split: body.split)
  note fr = added_object_frame [OF new this]
  show "class_at s' = class_at s" by (rule fr(1))
  show "rt_ok s'"
    using step ok fr(2) by (simp add: rt_ok_def obj_step_def interned_def)
qed

lemma attr_step_rt_ok: "attr_step s p sy v s' \<Longrightarrow> rt_ok s \<Longrightarrow> rt_ok s'"
proof -
  assume st: "attr_step s p sy v s'" and ok: "rt_ok s"
  then have same: "same_but_attrs s s'"
    by (simp add: attr_step_def)
  have "classes_wf s' = classes_wf s"
    by (rule classes_wf_cong(1) [OF same_but_attrs_class [OF same]])
      (use same in \<open>simp add: same_but_attrs_def\<close>)
  with st ok same show ?thesis
    by (simp add: rt_ok_def attr_step_def interned_def same_but_attrs_def)
qed

text \<open>Creating an instance of a class with the default hook.\<close>

lemma create_object_step:
  assumes ok: "memory_ok s" and c: "class_at s cl = Some c" "allocate_instance c = Some Alloc_object"
  shows "pup_create_object cl s = Aborted \<and> \<not> plenty 1 s \<or>
    (\<exists>p s'. pup_create_object cl s = Ret p s' \<and> obj_step s p cl PlainBody s')"
proof -
  have "cl \<noteq> NULL"
    using c(1) ok heap_wf_tapes(4) [of s] by (auto simp: class_at_Some memory_ok_def)
  then have "pup_create_object cl s = pup_object_allocate_instance cl s"
    using c by (simp add: pup_create_object_def create_via_def allocate_via_def run_alloc_fn_def)
  then show ?thesis
    using object_allocate_step [OF ok] by simp
qed

lemma create_via_object:
  "class_at s cl = Some c \<Longrightarrow> allocate_instance c = Some Alloc_object \<Longrightarrow> create_via f cl s = pup_create_object cl s"
  by (simp add: pup_create_object_def create_via_def allocate_via_def run_alloc_fn_def)

section \<open>A raised error and its text\<close>

text \<open>The class of runtime errors allocates plain objects.\<close>

definition errors_ok :: "rt \<Rightarrow> bool" where
  "errors_ok s \<longleftrightarrow>
     (\<exists>c. class_at s (class_runtimeerror (env s)) = Some c \<and> allocate_instance c = Some Alloc_object)"

text \<open>What both ways to make an error do.\<close>

definition make_error :: "string \<Rightarrow> rt \<Rightarrow> (ptr, rt) outcome" where
  "make_error txt s =
     andthen (pup_create_object (class_runtimeerror (env s)) s) (\<lambda>e s.
     andthen (pup_string_new_cstr (Some txt) s) (\<lambda>strg s.
     andthen (pup_exception_message_set e strg s) (\<lambda>_ s. Ret e s)))"

lemma make_errors:
  "pup_new_runtimeerrorf m s = make_error (buffered 1024 m) s"
  "errors_ok s \<Longrightarrow> pup_new_runtimeerror (Some m) s = make_error m s"
  by (auto simp: pup_new_runtimeerrorf_def make_error_def pup_new_runtimeerror_def runtimeerror_via_def
      errors_ok_def create_via_object)

text \<open>\<open>error_object s x txt\<close>: \<open>x\<close> is a RuntimeError with the message \<open>txt\<close>.\<close>

definition error_object :: "rt \<Rightarrow> ptr \<Rightarrow> string \<Rightarrow> bool" where
  "error_object s x txt \<longleftrightarrow>
     (\<exists>ss ob so str_ptr. interned s ss \<and> ''@message'' \<in> set ss \<and>
        objects s x = Some ob \<and> otype ob = class_runtimeerror (env s) \<and>
        attr_of s x (symbol_in ss ''@message'') = str_ptr \<and> str_ptr \<noteq> NULL \<and>
        objects s str_ptr = Some so \<and> otype so = class_string (env s) \<and> body so = StringBody (Some txt))"

lemma intern_contains: "x \<in> set (snd (intern x ss))"
  by (auto simp: intern_def index_of_None dest: index_of_Some split: option.splits)

lemma symbol_in_intern: "symbol_in (snd (intern x ss)) x = symbol_in ss x"
  by (simp add: symbol_in_def intern_again)

definition room_for_symbols :: "rt \<Rightarrow> bool" where
  "room_for_symbols s \<longleftrightarrow> (\<forall>ss. interned s ss \<longrightarrow> length ss < 2 ^ 31 - 2)"

lemma message_set_step:
  assumes ok: "rt_ok s" and room: "plenty 2 s" and ss: "interned s ss" "length ss < 2 ^ 31 - 2"
    and ob: "objects s x = Some ob"
  shows "\<exists>s' ss'. pup_exception_message_set x v s = Ret () s' \<and> rt_ok s' \<and> uses_at_most 2 s s' \<and>
    env s' = env s \<and> unwinds s' = unwinds s \<and>
    interned s' ss' \<and> ''@message'' \<in> set ss' \<and> attr_of s' x (symbol_in ss' ''@message'') = v \<and>
    (\<exists>ob'. objects s' x = Some ob' \<and> otype ob' = otype ob) \<and> (\<forall>p. p \<noteq> x \<longrightarrow> objects s' p = objects s p)"
proof -
  have mem: "memory_ok s"
    using ok by (simp add: rt_ok_def)
  have "fst (malloc (mallocs s)) \<noteq> NULL"
    using plenty_malloc [OF room [unfolded numeral_2_eq_2]] by (cases "malloc (mallocs s)") auto
  with str_to_sym_step [OF mem ss(1), of "''@message''"] ss(2) obtain s1 where
    s1: "pup_env_str_to_sym ''@message'' s = Ret (symbol_in ss ''@message'') s1"
      "sym_step s ss ''@message'' s1" by blast
  have u1: "uses_at_most 1 s s1" and m1: "memory_ok s1"
    using s1(2) by (simp_all add: sym_step_def)
  note f1 = sym_step_frame [OF s1(2)]
  have x1: "x \<in> dom (objects s1)" "objects s1 x = Some ob"
    using ob f1(1) by auto
  have "plenty 1 s1"
    by (rule plenty_uses [OF _ u1]) (use room in \<open>simp add: numeral_2_eq_2\<close>)
  with iv_set_step [OF m1 x1(1), of "symbol_in ss ''@message''" v] obtain s2 where
    s2: "pup_iv_set x (symbol_in ss ''@message'') v s1 = Ret () s2"
      "attr_step s1 x (symbol_in ss ''@message'') v s2"
    by blast
  have run: "pup_exception_message_set x v s = Ret () s2"
    using s1(1) s2(1) by (simp add: pup_exception_message_set_def)
  have same: "same_but_attrs s1 s2" and u2: "uses_at_most 1 s1 s2"
    and others: "\<And>p. p \<noteq> x \<Longrightarrow> objects s2 p = objects s1 p"
    and attr: "attr_of s2 x (symbol_in ss ''@message'') = v"
    using s2(2) x1(1) by (simp_all add: attr_step_def)
  have e: "env s2 = env s" "unwinds s2 = unwinds s" "sym_tab s2 = sym_tab s1"
    using same f1 by (simp_all add: same_but_attrs_def)
  let ?ss = "snd (intern ''@message'' ss)"
  show ?thesis
  proof (intro exI [of _ s2] exI [of _ ?ss] conjI allI impI)
    show "pup_exception_message_set x v s = Ret () s2" "env s2 = env s" "unwinds s2 = unwinds s"
        "''@message'' \<in> set ?ss"
      by (fact run e intern_contains)+
    show "rt_ok s2"
      by (rule attr_step_rt_ok [OF s2(2) sym_step_rt_ok [OF s1(2) ok]])
    show "uses_at_most 2 s s2"
      using uses_trans [OF u1 u2] by (simp add: numeral_2_eq_2)
    show "interned s2 ?ss"
      using s1(2) e(3) by (simp add: sym_step_def interned_def)
    show "attr_of s2 x (symbol_in ?ss ''@message'') = v"
      unfolding symbol_in_intern by (rule attr)
    show "\<exists>ob'. objects s2 x = Some ob' \<and> otype ob' = otype ob"
      using same_but_attrs_body [OF same x1(2)] by (elim exE conjE) (rule exI, erule conjI, simp)
    show "objects s2 p = objects s p" if "p \<noteq> x" for p
      using others [OF that] f1(1) by simp
  qed
qed

lemma make_error_step:
  assumes ok: "rt_ok s" and err: "errors_ok s" and room: "plenty 5 s" "room_for_symbols s"
  shows "\<exists>x s'. make_error txt s = Ret x s' \<and> rt_ok s' \<and> uses_at_most 5 s s' \<and> error_object s' x txt \<and>
    x \<notin> dom (objects s) \<and> (\<forall>p \<in> dom (objects s). objects s' p = objects s p) \<and>
    env s' = env s \<and> unwinds s' = unwinds s"
proof -
  let ?cl = "class_runtimeerror (env s)"
  have mem: "memory_ok s" and "\<exists>ss. interned s ss"
    using ok by (simp_all add: rt_ok_def)
  then obtain ss where ss: "interned s ss" "length ss < 2 ^ 31 - 2"
    using room(2) by (auto simp: room_for_symbols_def)
  from err obtain c where c: "class_at s ?cl = Some c" "allocate_instance c = Some Alloc_object"
    by (auto simp: errors_ok_def)
  have "plenty 1 s"
    by (rule plenty_less [OF room(1)]) simp
  with create_object_step [OF mem c] obtain x s1 where
    s1: "pup_create_object ?cl s = Ret x s1" "obj_step s x ?cl PlainBody s1"
    by blast
  have u1: "uses_at_most 1 s s1" and m1: "memory_ok s1"
    using s1(2) by (simp_all add: obj_step_def)
  have p1: "plenty 4 s1"
    by (rule plenty_uses [OF _ u1]) (use room in simp)
  then have "plenty 2 s1"
    by (rule plenty_less) simp
  from string_new_step [OF m1 this, of "txt"] obtain q s2 where
    s2: "pup_string_new_cstr (Some txt) s1 = Ret q s2" "str_step s1 q txt s2" by blast
  have u2: "uses_at_most 2 s1 s2"
    using s2(2) by (simp add: str_step_def)
  have p2: "plenty 2 s2"
    by (rule plenty_uses [OF _ u2]) (use p1 in simp)
  have e: "env s2 = env s" "env s1 = env s" "unwinds s2 = unwinds s" "interned s2 ss"
    using ss(1) s1(2) s2(2) by (simp_all add: interned_def obj_step_def str_step_def)
  obtain so where so: "objects s2 = (objects s1)(q \<mapsto> so)" "otype so = class_string (env s1)"
      "body so = StringBody (Some txt)" "the_class so = None"
    using str_step_object [OF s2(2)] by blast
  have o1: "objects s1 = (objects s)(x \<mapsto> new_object ?cl (my_mark s) PlainBody)"
    using s1(2) by (simp add: obj_step_def)
  have xq: "x \<notin> dom (objects s)" "q \<notin> dom (objects s1)" "q \<noteq> NULL" "q \<noteq> x"
    using s1(2) s2(2) o1 by (auto simp: obj_step_def str_step_def)
  have rt2: "rt_ok s2"
    using obj_step_rt_ok(1) [OF s1(2) ok] str_step_rt_ok [OF s2(2)] by simp
  have x2: "objects s2 x = Some (new_object ?cl (my_mark s) PlainBody)"
    using o1 so(1) xq by simp
  from message_set_step [OF rt2 p2 e(4) ss(2) x2, of q] obtain s3 ss' ob where
    s3: "pup_exception_message_set x q s2 = Ret () s3" "rt_ok s3" "uses_at_most 2 s2 s3"
      "env s3 = env s2" "unwinds s3 = unwinds s2"
    and msg: "interned s3 ss'" "''@message'' \<in> set ss'" "attr_of s3 x (symbol_in ss' ''@message'') = q"
    and ob: "objects s3 x = Some ob" "otype ob = ?cl" and others: "\<And>p. p \<noteq> x \<Longrightarrow> objects s3 p = objects s2 p"
    by (auto simp: new_object_def)
  have "objects s3 q = Some so"
    using others [of q] xq so(1) by simp
  then have "error_object s3 x txt"
    unfolding error_object_def using ob msg xq so e s3(4)
    by (intro exI [of _ ss'] exI [of _ ob] exI [of _ so] exI [of _ q]) simp
  moreover have "objects s3 p = objects s p" if "p \<in> dom (objects s)" for p
  proof -
    have "p \<noteq> x" "p \<noteq> q"
      using that xq o1 by auto
    then show ?thesis
      using others [of p] o1 so(1) by simp
  qed
  moreover have "make_error txt s = Ret x s3"
    using s1(1) s2(1) s3(1) by (simp add: make_error_def)
  ultimately show ?thesis
    using s3 e xq(1) uses_trans [OF uses_trans [OF u1 u2] s3(3)] by (auto simp: eval_nat_numeral)
qed

lemma error_object_text:
  assumes "error_object s x txt" and "rt_ok s"
  shows "exception_text x s = Ret (Some txt) s"
    and "pup_object_instanceof x (class_runtimeerror (env s)) s = Ret True s"
proof -
  from assms(1) obtain ss ob so p where e: "interned s ss" "''@message'' \<in> set ss" "objects s x = Some ob"
      "otype ob = class_runtimeerror (env s)" "attr_of s x (symbol_in ss ''@message'') = p" "p \<noteq> NULL"
      "objects s p = Some so" "otype so = class_string (env s)" "body so = StringBody (Some txt)"
    by (auto simp: error_object_def)
  have ok: "memory_ok s" "attrs_wf s"
    using assms(2) by (simp_all add: rt_ok_def memory_ok_def)
  have "pup_env_str_to_sym ''@message'' s = Ret (symbol_in ss ''@message'') s"
    using str_to_sym_step [OF ok(1) e(1), of "''@message''"] e(2) by auto
  moreover have "pup_iv_get x (symbol_in ss ''@message'') s = Ret p s"
    using iv_get_attr_of [OF ok(2), of x] e by auto
  ultimately show "exception_text x s = Ret (Some txt) s"
    using e by (simp add: exception_text_def pup_exception_message_get_def pup_string_value_def
        pup_is_string_def pup_object_instanceof_def pup_string_value_unsafe_def)
  show "pup_object_instanceof x (class_runtimeerror (env s)) s = Ret True s"
    using e by (simp add: pup_object_instanceof_def)
qed

text \<open>
  \<open>raises_error txt s r\<close>: from \<open>s\<close> the result \<open>r\<close> is that an exception left, whose object is a
  fresh RuntimeError with the text \<open>txt\<close>, all older objects as they were.
\<close>

definition raises_error :: "string \<Rightarrow> rt \<Rightarrow> ('a, rt) outcome \<Rightarrow> bool" where
  "raises_error txt s r \<longleftrightarrow>
     (\<exists>e s' x. r = Raised e s' \<and> rt_ok s' \<and>
        extract_exception_obj e (unwinds s', mallocs s') = Ret x (unwinds s', mallocs s') \<and>
        pup_object_instanceof x (class_runtimeerror (env s')) s' = Ret True s' \<and>
        exception_text x s' = Ret (Some txt) s' \<and>
        x \<notin> dom (objects s) \<and> (\<forall>p \<in> dom (objects s). objects s' p = objects s p) \<and> env s' = env s)"

lemma raise_run:
  assumes ok: "rt_ok s" and m: "malloc (mallocs s) = (p, junk, t)" "p \<noteq> NULL"
  shows "pup_raise x s = Raised (p + unwindException_offset)
      (s\<lparr>unwinds := (unwinds s)(p \<mapsto> \<lparr>pup_exception = x, exception_class = pup_unwindclass\<rparr>), mallocs := t\<rparr>)"
    and "rt_ok (s\<lparr>unwinds := (unwinds s)(p \<mapsto> u), mallocs := t\<rparr>)" (is "rt_ok ?s'")
proof -
  show "pup_raise x s = Raised (p + unwindException_offset)
      (s\<lparr>unwinds := (unwinds s)(p \<mapsto> \<lparr>pup_exception = x, exception_class = pup_unwindclass\<rparr>), mallocs := t\<rparr>)"
    using m by (simp add: pup_raise_def create_unwind_exception_def)
  have "heap_wf ?s'"
    by (rule heap_wf_malloc [OF _ m]) (use ok in \<open>auto simp: rt_ok_def memory_ok_def malloced_def\<close>)
  moreover have "attr_chain ?s' q xs = attr_chain s q xs" for q xs
    by (simp add: attr_chain_def split: option.split)
  ultimately have "memory_ok ?s'"
    using ok by (simp add: rt_ok_def memory_ok_def thread_ready_def attrs_wf_def)
  moreover have "classes_wf ?s' = classes_wf s"
    by (rule classes_wf_cong) (simp_all add: fun_eq_iff class_at_def)
  ultimately show "rt_ok ?s'"
    using ok by (simp add: rt_ok_def interned_def)
qed

lemma raise_step:
  assumes ok: "rt_ok s" and room: "plenty 1 s"
  shows "\<exists>e s'. pup_raise x s = Raised e s' \<and> rt_ok s' \<and>
    extract_exception_obj e (unwinds s', mallocs s') = Ret x (unwinds s', mallocs s') \<and>
    s' = s\<lparr>unwinds := unwinds s', mallocs := mallocs s'\<rparr>"
proof -
  obtain p junk t where m: "malloc (mallocs s) = (p, junk, t)"
    by (cases "malloc (mallocs s)")
  have p: "p \<noteq> NULL"
    using plenty_malloc [of 0 s] room m by simp
  show ?thesis
    using raise_run(1) [OF ok m p, of x] raise_run(2) [OF ok m p]
    by (intro exI conjI) (assumption, simp_all add: extract_exception_obj_def Let_def)
qed

lemma raise_made_error:
  assumes ok: "rt_ok s" and err: "errors_ok s" and room: "plenty 6 s" "room_for_symbols s"
  shows "raises_error txt s (andthen (make_error txt s) (\<lambda>e s. pup_raise e s) :: ('a, rt) outcome)"
proof -
  have "plenty 5 s"
    by (rule plenty_less [OF room(1)]) simp
  from make_error_step [OF ok err this room(2), of "txt"] show ?thesis
  proof (elim exE conjE)
    fix x s1
    assume x: "make_error txt s = Ret x s1" "rt_ok s1" "uses_at_most 5 s s1" "error_object s1 x txt"
      "x \<notin> dom (objects s)" "\<forall>p \<in> dom (objects s). objects s1 p = objects s p"
      "env s1 = env s" "unwinds s1 = unwinds s"
    have "plenty 1 s1"
      by (rule plenty_uses [OF _ x(3)]) (use room in simp)
    from raise_step [OF x(2) this, of x] obtain e s2 where
        e: "(pup_raise x s1 :: ('a, rt) outcome) = Raised e s2" "rt_ok s2"
        "extract_exception_obj e (unwinds s2, mallocs s2) = Ret x (unwinds s2, mallocs s2)"
        and s2: "s2 = s1\<lparr>unwinds := unwinds s2, mallocs := mallocs s2\<rparr>"
      by blast
    have same: "objects s2 = objects s1" "attrs s2 = attrs s1" "env s2 = env s1" "sym_tab s2 = sym_tab s1"
      by (subst s2, simp)+
    then have "attr_of s2 = attr_of s1"
      by (intro ext) (simp add: attr_of_def pup_iv_get_def find_attr_def searched_def deref_def
        split: option.splits found.splits)
    with x(4) same have "error_object s2 x txt"
      by (simp add: error_object_def interned_def)
    from error_object_text [OF this e(2)] x e same show ?thesis
      by (auto simp: raises_error_def)
  qed
qed

lemma raise_runtimeerror_step:
  assumes "rt_ok s" and "errors_ok s" and "plenty 6 s" and "room_for_symbols s"
  shows "raises_error msg s (pup_raise_runtimeerror (Some msg) s)"
    and "raises_error (buffered 1024 msg) s (raise_runtimeerrorf msg s)"
  using raise_made_error [OF assms] make_errors(2) [OF assms(2)]
  by (simp_all add: pup_raise_runtimeerror_def raise_runtimeerrorf_def make_errors(1))

lemma decimal_length: "n < 10 ^ Suc k \<Longrightarrow> length (decimal n) \<le> Suc k"
proof (induction k arbitrary: n)
  case 0
  then show ?case by (simp add: decimal.simps [of n])
next
  case (Suc k)
  then have "n div 10 < 10 ^ Suc k"
    by (simp add: div_less_iff_less_mult)
  from Suc.IH [OF this] show ?case
    by (simp add: decimal.simps [of n])
qed

lemma show_int_length: "length (show_int (sint (i :: i32))) \<le> 11"
proof -
  have "nat (sint i) < 10 ^ Suc 9" "nat (- sint i) < 10 ^ Suc 9"
    using sint_ge [of i] sint_lt [of i] by simp_all
  from this [THEN decimal_length] show ?thesis
    by (simp add: show_int_def)
qed

section \<open>Properties\<close>


text \<open>The first two classes, the first of them serving as the class of runtime errors.\<close>

definition demo_rt :: rt where
  "demo_rt = two_classes\<lparr>
     objects := [
       1048585 \<mapsto> \<lparr>otype = 1048681, attr_list_head = 0, gc_mark = 0, body = ClassBody demo_object_class\<rparr>,
       1048681 \<mapsto> \<lparr>otype = 1048681, attr_list_head = 0, gc_mark = 0, body = ClassBody demo_class_class\<rparr>],
     env := (env two_classes)\<lparr>class_object := 1048585, class_class := 1048681,
       class_runtimeerror := 1048585, class_string := 77\<rparr>\<rparr>"

lemma demo_rt_same:
  "mallocs demo_rt = mallocs two_classes" "methods demo_rt = methods two_classes"
  "attrs demo_rt = attrs two_classes" "class_at demo_rt = class_at two_classes"
  by (simp_all add: demo_rt_def fun_eq_iff class_at_def two_classes_at the_class_def)

lemma demo_rt_spare: "spare demo_rt = spare two_classes"
  by (rule spare_heap) (simp_all add: demo_rt_def)

lemma demo_rt_ok: "rt_ok demo_rt" "errors_ok demo_rt" "plenty 6 demo_rt" "room_for_symbols demo_rt"
  "interned demo_rt []"
proof -
  have tab: "sym_tab demo_rt = \<lparr>next_sym = 1, st_head = 0, st_entries = Map.empty\<rparr>"
    by (simp add: demo_rt_def two_classes_def class_eval boot_eval zero_object_def)
  have "heap_wf demo_rt"
    by (rule heap_wf_cong [of two_classes])
      (use two_classes_ok(1) in \<open>simp_all add: demo_rt_def memory_ok_def two_classes_at\<close>)
  moreover have "attr_chain demo_rt q xs = attr_chain two_classes q xs" for q xs
    by (simp add: attr_chain_def demo_rt_def two_classes_at)
  ultimately have "memory_ok demo_rt"
    using two_classes_ok(1)
    by (simp add: memory_ok_def thread_ready_def attrs_wf_def demo_rt_def two_classes_at)
  moreover have "classes_wf demo_rt"
    using classes_wf_cong(1) [OF demo_rt_same(4,2)] two_classes_ok(2) by simp
  moreover show empty: "interned demo_rt []"
    by (simp add: interned_def sym_table_is_def tab)
  ultimately show "rt_ok demo_rt"
    by (auto simp: rt_ok_def)
  show "room_for_symbols demo_rt"
    unfolding room_for_symbols_def
  proof (intro allI impI)
    fix ss
    assume "interned demo_rt ss"
    from interned_unique [OF empty this] have "ss = []" by simp
    then show "length ss < 2 ^ 31 - 2" by simp
  qed
  show "plenty 6 demo_rt"
    by (simp add: plenty_def answers_def demo_rt_same two_classes_at demo_rt_spare two_classes_spare demo_tape_def)
  show "errors_ok demo_rt"
    by (simp add: errors_ok_def demo_rt_same class_at_def two_classes_at)
      (simp add: demo_rt_def two_classes_at the_class_def demo_object_class_def)
qed




end
