(* ===== verification/Dispatch.thy ===== *)
theory Dispatch
  imports Exceptions
begin

text \<open>
  The built-in methods (object.c, class.c, exception.c, fixnum.c) and \<open>pup_invoke\<close>.  A method gets
  its receiver, \<open>argc\<close> and \<open>argv\<close>; \<open>argv\<close> is the array the pointer leads to, \<open>None\<close> for \<open>NULL\<close>, and
  reading past it is undefined.  Compiled methods are a parameter: what code number \<open>n\<close> does, given
  the dispatcher for its own calls.
\<close>

section \<open>Arguments\<close>

type_synonym argv = "ptr list option"

definition nth_arg :: "argv \<Rightarrow> nat \<Rightarrow> ptr option" where
  "nth_arg argv n =
     (case argv of None \<Rightarrow> None | Some xs \<Rightarrow> if n < length xs then Some (xs ! n) else None)"

text \<open>\<open>pup_arity_check\<close> takes ints: of the long \<open>argc\<close> it sees the lower half.\<close>

definition with_one_arg :: "i64 \<Rightarrow> argv \<Rightarrow> (ptr \<Rightarrow> rt \<Rightarrow> (ptr, rt) outcome) \<Rightarrow> rt \<Rightarrow> (ptr, rt) outcome" where
  "with_one_arg argc argv k s =
     andthen (pup_arity_check 1 (ucast argc) s) (\<lambda>_ s. deref (nth_arg argv 0) (\<lambda>a. k a s))"

definition truth :: "bool \<Rightarrow> rt \<Rightarrow> ptr" where
  "truth b s = (if b then object_true (env s) else object_false (env s))"

section \<open>Methods of Object and Class\<close>

definition pup_object_initialize :: "ptr \<Rightarrow> i64 \<Rightarrow> argv \<Rightarrow> rt \<Rightarrow> (ptr, rt) outcome" where
  "pup_object_initialize target argc argv s = Ret NULL s"

definition pup_object_allocate :: "ptr \<Rightarrow> i64 \<Rightarrow> argv \<Rightarrow> rt \<Rightarrow> (ptr, rt) outcome" where
  "pup_object_allocate target argc argv s = pup_class_allocate_instance target s"

definition pup_object_op_equals :: "ptr \<Rightarrow> i64 \<Rightarrow> argv \<Rightarrow> rt \<Rightarrow> (ptr, rt) outcome" where
  "pup_object_op_equals target argc argv =
     with_one_arg argc argv (\<lambda>rhs s. Ret (truth (target = rhs) s) s)"

definition pup_object_raise :: "ptr \<Rightarrow> i64 \<Rightarrow> argv \<Rightarrow> rt \<Rightarrow> (ptr, rt) outcome" where
  "pup_object_raise target argc argv =
     with_one_arg argc argv (\<lambda>a s.
       andthen (pup_object_kindof a (class_exception (env s)) s) (\<lambda>is_exc s.
       if is_exc then pup_raise a s
       else
         andthen (pup_is_string a s) (\<lambda>is_str s.
         if is_str then
           andthen (pup_string_value_unsafe a s) (\<lambda>v s. pup_raise_runtimeerror v s)
         else pup_raise_runtimeerror (Some ''exception class/object expected'') s)))"

text \<open>The line goes to the standard output; \<open>puts(NULL)\<close>, when strdup failed, is undefined.\<close>

definition pup_puts :: "ptr \<Rightarrow> i64 \<Rightarrow> argv \<Rightarrow> rt \<Rightarrow> (ptr, rt) outcome" where
  "pup_puts target argc argv s =
     andthen (pup_arity_check 1 (ucast argc) s) (\<lambda>_ s.
     abort_on (argv = None)
       (deref (nth_arg argv 0) (\<lambda>a.
        andthen (pup_stringify a s) (\<lambda>x s.
          case x of
            None \<Rightarrow> Undef
          | Some line \<Rightarrow> Ret NULL (s\<lparr>stdout := stdout s @ [line]\<rparr>)))))"

definition pup_object_to_s :: "ptr \<Rightarrow> i64 \<Rightarrow> argv \<Rightarrow> rt \<Rightarrow> (ptr, rt) outcome" where
  "pup_object_to_s target argc argv s =
     andthen (pup_default_obj_cstr target s) (\<lambda>b s. pup_string_new_cstr (Some b) s)"

definition pup_class_to_s :: "ptr \<Rightarrow> i64 \<Rightarrow> argv \<Rightarrow> rt \<Rightarrow> (ptr, rt) outcome" where
  "pup_class_to_s target argc argv s =
     deref (class_at s target) (\<lambda>c. pup_string_new_cstr (name c) s)"

section \<open>Methods of Exception\<close>

definition pup_exception_to_s :: "ptr \<Rightarrow> i64 \<Rightarrow> argv \<Rightarrow> rt \<Rightarrow> (ptr, rt) outcome" where
  "pup_exception_to_s target argc argv s =
     andthen (pup_object_type_name target s) (\<lambda>n s.
     andthen (exception_text target s) (\<lambda>msg s.
       case msg of
         None \<Rightarrow> Undef
       | Some m \<Rightarrow> pup_string_new_cstr (Some (buffered 1024 (''#<'' @ n @ '': '' @ m @ ''>''))) s))"

definition pup_exception_message :: "ptr \<Rightarrow> i64 \<Rightarrow> argv \<Rightarrow> rt \<Rightarrow> (ptr, rt) outcome" where
  "pup_exception_message target argc argv s = pup_exception_message_get target s"

definition pup_exception_initialize :: "ptr \<Rightarrow> i64 \<Rightarrow> argv \<Rightarrow> rt \<Rightarrow> (ptr, rt) outcome" where
  "pup_exception_initialize target argc argv s =
     (if argc = 1 then
        deref (nth_arg argv 0) (\<lambda>a.
        andthen (pup_exception_message_set target a s) (\<lambda>_ s. Ret NULL s))
      else if 1 <s argc then
        andthen (pup_arity_check 1 (ucast argc) s) (\<lambda>_ s. Ret NULL s)
      else Ret NULL s)"

section \<open>Fixnums\<close>

definition sizeof_PupFixnum :: u64 where
  "sizeof_PupFixnum = 32"

definition pup_fixnum_create :: "i32 \<Rightarrow> rt \<Rightarrow> (ptr, rt) outcome" where
  "pup_fixnum_create val s =
     (let fixclass = class_fixnum (env s) in
      andthen (pup_alloc_obj sizeof_PupFixnum s) (\<lambda>obj s.
      andthen (obj_init obj fixclass s) (\<lambda>_ s.
      andthen (with_object obj (body_update (\<lambda>_. FixnumBody val)) s) (\<lambda>_ s. Ret obj s))))"

definition fixnum_at :: "rt \<Rightarrow> ptr \<Rightarrow> i32 option" where
  "fixnum_at s p =
     (case objects s p of
        None \<Rightarrow> None
      | Some ob \<Rightarrow> (case body ob of FixnumBody v \<Rightarrow> Some v | _ \<Rightarrow> None))"

text \<open>The sum of two ints is undefined when it overflows.\<close>

definition int_add :: "i32 \<Rightarrow> i32 \<Rightarrow> i32 option" where
  "int_add a b =
     (if - (2 ^ 31) \<le> sint a + sint b \<and> sint a + sint b < 2 ^ 31 then Some (a + b) else None)"

definition pup_fixnum_plus :: "ptr \<Rightarrow> i64 \<Rightarrow> argv \<Rightarrow> rt \<Rightarrow> (ptr, rt) outcome" where
  "pup_fixnum_plus target argc argv =
     with_one_arg argc argv (\<lambda>rhs s.
       deref (objects s target) (\<lambda>tob. deref (objects s rhs) (\<lambda>rob.
       if otype tob \<noteq> otype rob then
         andthen (pup_type_name (otype rob) s) (\<lambda>n s.
           raise_runtimeerrorf (n @ '' can't be coerced into Fixnum'') s)
       else
         deref (fixnum_at s target) (\<lambda>l. deref (fixnum_at s rhs) (\<lambda>r.
         deref (int_add l r) (\<lambda>v. pup_fixnum_create v s))))))"

definition fixnum_compare :: "(i32 \<Rightarrow> i32 \<Rightarrow> bool) \<Rightarrow> ptr \<Rightarrow> i64 \<Rightarrow> argv \<Rightarrow> rt \<Rightarrow> (ptr, rt) outcome" where
  "fixnum_compare cmp target argc argv =
     with_one_arg argc argv (\<lambda>rhs s.
       deref (objects s target) (\<lambda>tob. deref (objects s rhs) (\<lambda>rob.
       if otype tob \<noteq> otype rob then Ret (object_false (env s)) s
       else
         deref (fixnum_at s target) (\<lambda>l. deref (fixnum_at s rhs) (\<lambda>r.
           Ret (truth (cmp l r) s) s)))))"

definition pup_fixnum_op_equals :: "ptr \<Rightarrow> i64 \<Rightarrow> argv \<Rightarrow> rt \<Rightarrow> (ptr, rt) outcome" where
  "pup_fixnum_op_equals = fixnum_compare (=)"

definition pup_fixnum_op_lessthan :: "ptr \<Rightarrow> i64 \<Rightarrow> argv \<Rightarrow> rt \<Rightarrow> (ptr, rt) outcome" where
  "pup_fixnum_op_lessthan = fixnum_compare (<s)"

section \<open>Dispatch\<close>

type_synonym dispatcher = "ptr \<Rightarrow> i64 \<Rightarrow> i64 \<Rightarrow> argv \<Rightarrow> rt \<Rightarrow> (ptr, rt) outcome"
type_synonym compiled = "nat \<Rightarrow> dispatcher \<Rightarrow> ptr \<Rightarrow> i64 \<Rightarrow> argv \<Rightarrow> rt \<Rightarrow> (ptr, rt) outcome"

definition invoke_named ::
    "dispatcher \<Rightarrow> ptr \<Rightarrow> string \<Rightarrow> i64 \<Rightarrow> argv \<Rightarrow> rt \<Rightarrow> (ptr, rt) outcome" where
  "invoke_named invoke target nm argc argv s =
     andthen (pup_env_str_to_sym nm s) (\<lambda>sy s. invoke target (scast sy) argc argv s)"

definition pup_class_new :: "dispatcher \<Rightarrow> ptr \<Rightarrow> i64 \<Rightarrow> argv \<Rightarrow> rt \<Rightarrow> (ptr, rt) outcome" where
  "pup_class_new invoke target argc argv s =
     andthen (invoke_named invoke target ''allocate'' 0 None s) (\<lambda>res s.
     andthen (invoke_named invoke res ''initialize'' argc argv s) (\<lambda>_ s. Ret res s))"

definition call_method ::
    "compiled \<Rightarrow> dispatcher \<Rightarrow> pup_method \<Rightarrow> ptr \<Rightarrow> i64 \<Rightarrow> argv \<Rightarrow> rt \<Rightarrow> (ptr, rt) outcome" where
  "call_method code invoke f =
     (case f of
        Object_initialize \<Rightarrow> pup_object_initialize
      | Object_raise \<Rightarrow> pup_object_raise
      | Object_puts \<Rightarrow> pup_puts
      | Object_op_equals \<Rightarrow> pup_object_op_equals
      | Class_new \<Rightarrow> pup_class_new invoke
      | Object_allocate \<Rightarrow> pup_object_allocate
      | Class_to_s \<Rightarrow> pup_class_to_s
      | Exception_initialize \<Rightarrow> pup_exception_initialize
      | Exception_message \<Rightarrow> pup_exception_message
      | Fixnum_plus \<Rightarrow> pup_fixnum_plus
      | Fixnum_op_equals \<Rightarrow> pup_fixnum_op_equals
      | Fixnum_op_lessthan \<Rightarrow> pup_fixnum_op_lessthan
      | Compiled n \<Rightarrow> code n invoke)"

text \<open>A copy of the name of a symbol, or its number in a buffer of 256 bytes.\<close>

definition sym_name :: "i32 \<Rightarrow> rt \<Rightarrow> (string option, rt) outcome" where
  "sym_name sy s =
     andthen (pup_env_sym_to_str sy s) (\<lambda>x s.
       case x of
         Some n \<Rightarrow> strdup_ret (Some n) s
       | None \<Rightarrow> strdup_ret (Some (buffered 256 (''sym:'' @ show_int (sint sy)))) s)"

definition undefined_method :: "ptr \<Rightarrow> i64 \<Rightarrow> rt \<Rightarrow> (ptr, rt) outcome" where
  "undefined_method target name_sym s =
     andthen (sym_name (ucast name_sym) s) (\<lambda>nm s.
     andthen (pup_object_type_name target s) (\<lambda>n s.
       case nm of
         None \<Rightarrow> Undef
       | Some m \<Rightarrow>
           pup_raise_runtimeerror
             (Some (buffered 256 (''undefined method `'' @ m @ [CHR 0x27] @ '' for '' @ n))) s))"

text \<open>The number bounds the depth of the C stack: \<open>0\<close> is a stack that overflowed.\<close>

fun pup_invoke :: "compiled \<Rightarrow> nat \<Rightarrow> dispatcher" where
  "pup_invoke code 0 target name_sym argc argv s = Diverged"
| "pup_invoke code (Suc depth) target name_sym argc argv s =
     abort_on (target = NULL)
       (deref (objects s target) (\<lambda>ob.
        abort_on (otype ob = NULL)
          (andthen (find_method_in_classes (otype ob) name_sym s) (\<lambda>f s.
             case f of
               None \<Rightarrow> undefined_method target name_sym s
             | Some m \<Rightarrow> call_method code (pup_invoke code depth) m target argc argv s))))"

declare pup_invoke.simps [simp del]

section \<open>Creating classes\<close>

definition pup_internal_create_class ::
    "dispatcher \<Rightarrow> ptr \<Rightarrow> ptr \<Rightarrow> string option \<Rightarrow> alloc_fn option \<Rightarrow> destroy_fn option \<Rightarrow> copy_fn option \<Rightarrow>
       rt \<Rightarrow> (ptr, rt) outcome" where
  "pup_internal_create_class invoke super scp nm alloc destroy copy s =
     abort_on (super = NULL) (abort_on (alloc = None)
       (andthen (invoke_named invoke (class_class (env s)) ''new'' 0 None s) (\<lambda>class s.
        andthen (pup_internal_class_init class super scp nm alloc destroy copy s) (\<lambda>_ s.
        Ret class s))))"

definition pup_create_class :: "dispatcher \<Rightarrow> ptr \<Rightarrow> ptr \<Rightarrow> string option \<Rightarrow> rt \<Rightarrow> (ptr, rt) outcome" where
  "pup_create_class invoke super scp nm =
     pup_internal_create_class invoke super scp nm
       (Some Alloc_object) (Some Destroy_object) (Some Copy_object)"

text \<open>
  string.c and fixnum.c call with the seven arguments class.h declares; the eighth parameter of the
  definition, the copy hook, is whatever the register holds.
\<close>

definition pup_bootstrap_create_classstring :: "dispatcher \<Rightarrow> rt \<Rightarrow> (ptr, rt) outcome" where
  "pup_bootstrap_create_classstring invoke s =
     pup_internal_create_class invoke (class_object (env s)) NULL (Some ''String'')
       (Some Alloc_string) (Some Destroy_string) (Some Copy_indeterminate) s"

definition pup_bootstrap_create_classfixnum :: "dispatcher \<Rightarrow> rt \<Rightarrow> (ptr, rt) outcome" where
  "pup_bootstrap_create_classfixnum invoke s =
     andthen (pup_internal_create_class invoke (class_object (env s)) NULL (Some ''Fixnum'')
       (Some Alloc_fixnum) (Some Destroy_fixnum) (Some Copy_indeterminate) s) (\<lambda>class_fix s.
     andthen (define_named class_fix ''+'' Fixnum_plus s) (\<lambda>_ s.
     andthen (define_named class_fix ''=='' Fixnum_op_equals s) (\<lambda>_ s.
     andthen (define_named class_fix ''<'' Fixnum_op_lessthan s) (\<lambda>_ s.
     Ret class_fix s))))"

section \<open>Arity and fixnums\<close>

lemma with_one_arg_pass: "ucast argc = (1 :: i32) \<Longrightarrow> with_one_arg argc (Some [a]) k s = k a s"
  by (simp add: with_one_arg_def pup_arity_check_def nth_arg_def)

lemma fixnum_create_step:
  assumes ok: "memory_ok s"
  shows "pup_fixnum_create v s = Aborted \<and> \<not> plenty 1 s \<or>
    (\<exists>p s'. pup_fixnum_create v s = Ret p s' \<and> obj_step s p (class_fixnum (env s)) (FixnumBody v) s')"
proof -
  have sz: "sizeof_PupFixnum \<le> MAX_REGION_ALLOCATION"
    by (simp add: sizeof_PupFixnum_def MAX_REGION_ALLOCATION_def)
  from obj_alloc_step [OF ok sz] show ?thesis
  proof (elim disjE exE conjE)
    fix p s1
    assume a: "pup_alloc_obj sizeof_PupFixnum s = Ret p s1" "alloc_step s PUP_KIND_OBJ p s1"
      "objects s1 p = Some (marked_object (my_mark s))"
    have "pup_fixnum_create v s =
        Ret p (s1\<lparr>objects := (objects s1)(p \<mapsto> new_object (class_fixnum (env s)) (my_mark s) (FixnumBody v))\<rparr>)"
      using a(1,3) by (simp add: pup_fixnum_create_def obj_init_def with_object_def
          marked_object_def zero_object_def new_object_def)
    with obj_step_alloc [OF ok a(2)] show ?thesis by blast
  qed (simp add: pup_fixnum_create_def)
qed

lemma fixnum_at_Some: "fixnum_at s p = Some v \<longleftrightarrow> (\<exists>ob. objects s p = Some ob \<and> body ob = FixnumBody v)"
  by (auto simp: fixnum_at_def split: option.splits body.splits)

lemma obj_step_fixnum_at:
  assumes "obj_step s p cl (FixnumBody v) s'"
  shows "fixnum_at s' q = (if q = p then Some v else fixnum_at s q)"
  using assms by (simp add: obj_step_def fixnum_at_def new_object_def)

lemma int_add_exact: "int_add a b = Some v \<Longrightarrow> sint v = sint a + sint b"
proof -
  assume v: "int_add a b = Some v"
  then have range: "- (2 ^ 31) \<le> sint a + sint b" "sint a + sint b < 2 ^ 31" and ab: "v = a + b"
    by (simp_all add: int_add_def split: if_splits)
  have "sint (a + b) = signed_take_bit 31 (sint a + sint b)"
    by (simp add: sint_word_ariths(1))
  also have "\<dots> = sint a + sint b"
    using range by (rule signed_take_bit_int_eq_self)
  finally show ?thesis by (simp add: ab)
qed

text \<open>Both operands of one type, or not.\<close>

lemma fixnum_operands:
  assumes "fixnum_at s a = Some x" and "fixnum_at s b = Some y" and "ucast argc = (1 :: i32)"
    and "map_option otype (objects s a) = map_option otype (objects s b)"
  shows "pup_fixnum_plus a argc (Some [b]) s =
      (case int_add x y of None \<Rightarrow> Undef | Some v \<Rightarrow> pup_fixnum_create v s)"
    and "fixnum_compare cmp a argc (Some [b]) s = Ret (truth (cmp x y) s) s"
proof -
  obtain oa ob where "objects s a = Some oa" "objects s b = Some ob" "otype oa = otype ob"
    using assms by (auto simp: fixnum_at_Some)
  then show "pup_fixnum_plus a argc (Some [b]) s =
      (case int_add x y of None \<Rightarrow> Undef | Some v \<Rightarrow> pup_fixnum_create v s)"
    and "fixnum_compare cmp a argc (Some [b]) s = Ret (truth (cmp x y) s) s"
    using assms(1-3)
    by (simp_all add: pup_fixnum_plus_def fixnum_compare_def with_one_arg_pass deref_def split: option.split)
qed

section \<open>Finding and running a method\<close>

lemma rt_ok_mallocs:
  assumes ok: "rt_ok s" and m: "malloc (mallocs s) = (p, junk, t)"
  shows "rt_ok (s\<lparr>mallocs := t\<rparr>)"
proof -
  have "classes_wf (s\<lparr>mallocs := t\<rparr>) = classes_wf s"
    by (rule classes_wf_cong) (simp_all add: fun_eq_iff class_at_def)
  then show ?thesis
    using ok memory_ok_mallocs [OF _ m] by (simp add: rt_ok_def interned_def)
qed

lemma raises_error_cong:
  "raises_error x s1 r \<Longrightarrow> objects s1 = objects s \<Longrightarrow> env s1 = env s \<Longrightarrow> raises_error x s r"
  by (simp add: raises_error_def)

lemma sym_name_known:
  assumes ok: "rt_ok s" and room: "plenty (Suc n) s"
    and known: "pup_env_sym_to_str sy s = Ret (Some nm) s"
  shows "\<exists>t. sym_name sy s = Ret (Some nm) (s\<lparr>mallocs := t\<rparr>) \<and> rt_ok (s\<lparr>mallocs := t\<rparr>) \<and>
    plenty n (s\<lparr>mallocs := t\<rparr>)"
proof -
  obtain p junk t where m: "malloc (mallocs s) = (p, junk, t)"
    by (cases "malloc (mallocs s)")
  have p: "p \<noteq> NULL"
    using plenty_malloc [OF room m] .
  have "uses_at_most 1 s (s\<lparr>mallocs := t\<rparr>)"
    using uses_malloc [OF m, of "s\<lparr>mallocs := t\<rparr>" 0] by simp
  then have "plenty n (s\<lparr>mallocs := t\<rparr>)"
    using plenty_uses [of 1 n s] room by simp
  with rt_ok_mallocs [OF ok m] p m known show ?thesis
    by (intro exI [of _ t]) (simp add: sym_name_def strdup_ret_def strdup_def)
qed

lemma pup_object_type_name_class:
  "objects s p = Some ob \<Longrightarrow> p \<noteq> NULL \<Longrightarrow> otype ob \<noteq> NULL \<Longrightarrow> class_at s (otype ob) = Some c \<Longrightarrow>
     name c = Some n \<Longrightarrow> pup_object_type_name p s = Ret n s"
  by (simp add: pup_object_type_name_def pup_type_name_def)

lemma undefined_method_raises:
  assumes ok: "rt_ok s" and err: "errors_ok s" and room: "plenty 7 s" "room_for_symbols s"
    and known: "pup_env_sym_to_str (ucast k) s = Ret (Some nm) s"
    and ob: "pup_object_type_name target s = Ret cn s"
      "\<And>t. pup_object_type_name target (s\<lparr>mallocs := t\<rparr>) = Ret cn (s\<lparr>mallocs := t\<rparr>)"
  shows "raises_error (buffered 256 (''undefined method `'' @ nm @ [CHR 0x27] @ '' for '' @ cn)) s
    (undefined_method target k s)"
proof -
  from sym_name_known [OF ok _ known, of 6] room(1) obtain t where
    s1: "sym_name (ucast k) s = Ret (Some nm) (s\<lparr>mallocs := t\<rparr>)" "rt_ok (s\<lparr>mallocs := t\<rparr>)"
      "plenty 6 (s\<lparr>mallocs := t\<rparr>)" by auto
  let ?s = "s\<lparr>mallocs := t\<rparr>"
  let ?m = "buffered 256 (''undefined method `'' @ nm @ [CHR 0x27] @ '' for '' @ cn)"
  have "errors_ok ?s" "room_for_symbols ?s"
    using err room(2) by (simp_all add: errors_ok_def class_at_def room_for_symbols_def interned_def)
  from raise_runtimeerror_step(1) [OF s1(2) this(1) s1(3) this(2)]
  have "raises_error ?m ?s (pup_raise_runtimeerror (Some ?m) ?s :: (ptr, rt) outcome)" .
  then have "raises_error ?m s (pup_raise_runtimeerror (Some ?m) ?s :: (ptr, rt) outcome)"
    by (rule raises_error_cong) simp_all
  moreover have "undefined_method target k s = pup_raise_runtimeerror (Some ?m) ?s"
    using s1(1) ob(2) [of t] by (simp add: undefined_method_def)
  ultimately show ?thesis
    by (simp only:)
qed

lemma invoke_found:
  assumes wf: "classes_wf s" and ob: "objects s p = Some ob" and p: "p \<noteq> NULL"
    and cs: "mro s (otype ob) cs" and ne: "cs \<noteq> []"
  shows "pup_invoke code (Suc d) p k argc argv s =
    (case first_in (\<lambda>c. own_method s c k) cs of
       None \<Rightarrow> undefined_method p k s
     | Some f \<Rightarrow> call_method code (pup_invoke code d) f p argc argv s)"
proof -
  have "otype ob \<noteq> NULL"
    using cs ne by (cases cs) auto
  with class_walk_first [OF wf cs, of k] ob p show ?thesis
    by (simp add: pup_invoke.simps find_method_in_classes_def)
qed

section \<open>Depth of the C stack\<close>

text \<open>
  A deeper stack changes no result: whatever a call gives at some depth without overflowing, it
  gives at every greater depth.  Compiled code must treat its dispatcher like that.
\<close>

definition refines :: "dispatcher \<Rightarrow> dispatcher \<Rightarrow> bool" where
  "refines g h \<longleftrightarrow> (\<forall>p k n a s. g p k n a s \<noteq> Diverged \<longrightarrow> h p k n a s = g p k n a s)"

definition stack_uniform :: "compiled \<Rightarrow> bool" where
  "stack_uniform code \<longleftrightarrow>
     (\<forall>m g h p n a s. refines g h \<longrightarrow> code m g p n a s \<noteq> Diverged \<longrightarrow> code m h p n a s = code m g p n a s)"

lemma refinesD: "refines g h \<Longrightarrow> g p k n a s \<noteq> Diverged \<Longrightarrow> h p k n a s = g p k n a s"
  by (simp add: refines_def)

lemma andthen_refines:
  assumes "andthen m f \<noteq> Diverged" and "m \<noteq> Diverged \<Longrightarrow> m' = m"
    and "\<And>x s. m = Ret x s \<Longrightarrow> f x s \<noteq> Diverged \<Longrightarrow> f' x s = f x s"
  shows "andthen m' f' = andthen m f"
  using assms by (cases m) auto

lemma invoke_named_refines:
  assumes "refines g h" and "invoke_named g p nm n a s \<noteq> Diverged"
  shows "invoke_named h p nm n a s = invoke_named g p nm n a s"
  using assms(2) unfolding invoke_named_def
  by (rule andthen_refines) (use refinesD [OF assms(1)] in auto)

lemma class_new_refines:
  assumes "refines g h" and "pup_class_new g p n a s \<noteq> Diverged"
  shows "pup_class_new h p n a s = pup_class_new g p n a s"
  using assms(2) unfolding pup_class_new_def
proof (rule andthen_refines)
  fix x s1
  assume "andthen (invoke_named g x ''initialize'' n a s1) (\<lambda>_ s. Ret x s) \<noteq> Diverged"
  then show "andthen (invoke_named h x ''initialize'' n a s1) (\<lambda>_ s. Ret x s) =
      andthen (invoke_named g x ''initialize'' n a s1) (\<lambda>_ s. Ret x s)"
    by (rule andthen_refines) (use invoke_named_refines [OF assms(1)] in auto)
qed (use invoke_named_refines [OF assms(1)] in auto)

lemma call_method_refines:
  assumes "stack_uniform code" and "refines g h" and "call_method code g f p n a s \<noteq> Diverged"
  shows "call_method code h f p n a s = call_method code g f p n a s"
  using assms class_new_refines [OF assms(2)]
  by (cases f) (auto simp: call_method_def stack_uniform_def)

lemma invoke_refines:
  assumes code: "stack_uniform code"
  shows "refines (pup_invoke code d) (pup_invoke code (Suc d))"
proof (induction d)
  case 0
  show ?case by (simp add: refines_def pup_invoke.simps)
next
  case (Suc d)
  show ?case
    unfolding refines_def
  proof (intro allI impI)
    fix p k n a s
    assume nd: "pup_invoke code (Suc d) p k n a s \<noteq> Diverged"
    show "pup_invoke code (Suc (Suc d)) p k n a s = pup_invoke code (Suc d) p k n a s"
    proof (cases "p = NULL \<or> objects s p = None")
      case True
      then show ?thesis by (auto simp: pup_invoke.simps)
    next
      case False
      then obtain ob where ob: "p \<noteq> NULL" "objects s p = Some ob"
        by auto
      let ?run = "\<lambda>g. andthen (find_method_in_classes (otype ob) k s) (\<lambda>f s.
             case f of None \<Rightarrow> undefined_method p k s | Some m \<Rightarrow> call_method code g m p n a s)"
      have inv: "pup_invoke code (Suc e) p k n a s = abort_on (otype ob = NULL) (?run (pup_invoke code e))"
        for e
        using ob by (simp add: pup_invoke.simps)
      show ?thesis
      proof (cases "otype ob = NULL")
        case True
        then show ?thesis by (simp add: inv)
      next
        case False
        with nd inv have "?run (pup_invoke code d) \<noteq> Diverged"
          by simp
        then have "?run (pup_invoke code (Suc d)) = ?run (pup_invoke code d)"
          by (rule andthen_refines)
            (auto split: option.split intro: call_method_refines [OF code Suc.IH])
        with False show ?thesis by (simp add: inv)
      qed
    qed
  qed
qed

lemma invoke_deeper:
  assumes "stack_uniform code" and "pup_invoke code d p k n a s \<noteq> Diverged" and "d \<le> e"
  shows "pup_invoke code e p k n a s = pup_invoke code d p k n a s"
  using assms(3,2)
proof (induction rule: dec_induct)
  case base
  show ?case by simp
next
  case (step e)
  then show ?case
    using refinesD [OF invoke_refines [OF assms(1), of e]] by simp
qed

section \<open>Creating a class\<close>

text \<open>
  What the creation of classes relies on: \<open>new\<close>, sent to the class of classes, runs \<open>pup_class_new\<close>,
  whose \<open>allocate\<close> and \<open>initialize\<close> are the built-in ones, and the class of classes allocates
  classes.
\<close>

definition finds :: "rt \<Rightarrow> string list \<Rightarrow> ptr \<Rightarrow> string \<Rightarrow> pup_method \<Rightarrow> bool" where
  "finds s ss p nm f \<longleftrightarrow>
     nm \<in> set ss \<and>
     (\<exists>cs. mro s p cs \<and> cs \<noteq> [] \<and> first_in (\<lambda>c. own_method s c (scast (symbol_in ss nm))) cs = Some f)"

definition creation_ready :: "rt \<Rightarrow> string list \<Rightarrow> bool" where
  "creation_ready s ss \<longleftrightarrow>
     rt_ok s \<and> interned s ss \<and>
     (\<exists>ob c. objects s (class_class (env s)) = Some ob \<and> body ob = ClassBody c \<and>
        allocate_instance c = Some Alloc_class \<and>
        finds s ss (otype ob) ''new'' Class_new \<and> finds s ss (otype ob) ''allocate'' Object_allocate) \<and>
     finds s ss (class_class (env s)) ''initialize'' Object_initialize"

lemma invoke_named_found:
  assumes ok: "rt_ok s" and ss: "interned s ss" and ob: "objects s p = Some ob"
    and f: "finds s ss (otype ob) nm f"
  shows "invoke_named (pup_invoke code (Suc d)) p nm argc argv s =
    call_method code (pup_invoke code d) f p argc argv s"
proof -
  obtain cs where cs: "mro s (otype ob) cs" "cs \<noteq> []"
      "first_in (\<lambda>c. own_method s c (scast (symbol_in ss nm))) cs = Some f" and nm: "nm \<in> set ss"
    using f by (auto simp: finds_def)
  have mem: "memory_ok s" "classes_wf s" "p \<noteq> NULL"
    using ok ob heap_wf_tapes(4) [of s] by (auto simp: rt_ok_def memory_ok_def)
  have "pup_env_str_to_sym nm s = Ret (symbol_in ss nm) s"
    using str_to_sym_step [OF mem(1) ss, of nm] nm by auto
  then show ?thesis
    using invoke_found [OF mem(2) ob mem(3) cs(1,2)] cs(3) by (simp add: invoke_named_def)
qed

text \<open>A new class leaves what the old ones find as it is.\<close>

lemma first_in_cong: "(\<And>c. c \<in> set cs \<Longrightarrow> f c = g c) \<Longrightarrow> first_in f cs = first_in g cs"
  by (induction cs) (auto split: option.split)

definition class_added :: "rt \<Rightarrow> ptr \<Rightarrow> class_body \<Rightarrow> ptr list \<Rightarrow> rt \<Rightarrow> bool" where
  "class_added s p c cs s' \<longleftrightarrow>
     rt_ok s' \<and> p \<noteq> NULL \<and> p \<notin> dom (objects s) \<and> class_at s' = (class_at s)(p \<mapsto> c) \<and>
     (\<exists>ob. objects s' = (objects s)(p \<mapsto> ob) \<and> otype ob = class_class (env s)) \<and>
     methods s' = methods s \<and> sym_tab s' = sym_tab s \<and> env s' = env s \<and> self s' = self s \<and>
     unwinds s' = unwinds s \<and> stdout s' = stdout s \<and> my_mark s' = my_mark s \<and>
     mro s' p (p # cs) \<and> (\<forall>q ds. p \<notin> set ds \<longrightarrow> mro s q ds \<longrightarrow> mro s' q ds) \<and>
     (\<forall>q. q \<noteq> p \<longrightarrow> own_method s' q = own_method s q) \<and> (\<forall>k. own_method s' p k = None) \<and>
     (\<forall>q k. attr_of s' q k = (if q = p then NULL else attr_of s q k))"

lemma class_added_intro:
  assumes ok: "rt_ok s" and mem: "memory_ok s'" and p: "p \<noteq> NULL" "p \<notin> dom (objects s)"
    and objs: "objects s' = (objects s)(p \<mapsto> ob)" "otype ob = class_class (env s)" "body ob = ClassBody c"
    and rest: "methods s' = methods s" "sym_tab s' = sym_tab s" "env s' = env s" "self s' = self s"
      "unwinds s' = unwinds s" "stdout s' = stdout s" "my_mark s' = my_mark s"
    and head: "method_list_head c = NULL" and super: "mro s (superclass c) cs"
    and attr: "\<And>q k. attr_of s' q k = (if q = p then NULL else attr_of s q k)"
  shows "class_added s p c cs s'"
proof -
  have wf: "classes_wf s"
    using ok by (simp add: rt_ok_def)
  have cls: "class_at s' = (class_at s)(p \<mapsto> c)"
    using objs by (auto simp: fun_eq_iff class_at_def the_class_def)
  have np: "p \<notin> dom (class_at s)"
    using p(2) by (auto simp: class_at_Some)
  have out: "p \<notin> set ds" if "mro s q ds" for q ds
    using mro_in [OF that] np by blast
  have new: "classes_wf s' \<and> mro s' p (p # cs) \<and>
      (\<forall>q ds. p \<notin> set ds \<longrightarrow> mro s q ds \<longrightarrow> mro s' q ds) \<and>
      (\<forall>q. q \<noteq> p \<longrightarrow> own_method s' q = own_method s q) \<and> (\<forall>k. own_method s' p k = None)"
    by (rule classes_wf_new_class [OF wf cls rest(1) p(1) head super out [OF super]]) (rule out)
  have "rt_ok s'"
    using new mem ok rest(2) by (simp add: rt_ok_def interned_def)
  moreover have "\<exists>ob. objects s' = (objects s)(p \<mapsto> ob) \<and> otype ob = class_class (env s)"
    using objs by blast
  ultimately show ?thesis
    using new p cls rest attr unfolding class_added_def by simp
qed

lemma class_added_finds:
  assumes "class_added s p c cs s'" and "finds s ss q nm f"
  shows "finds s' ss q nm f"
proof -
  obtain ds where ds: "mro s q ds" "ds \<noteq> []" "nm \<in> set ss"
      "first_in (\<lambda>c. own_method s c (scast (symbol_in ss nm))) ds = Some f"
    using assms(2) by (auto simp: finds_def)
  have np: "p \<notin> dom (class_at s)"
    using assms(1) by (auto simp: class_added_def class_at_Some)
  have "p \<notin> set ds"
    using mro_in [OF ds(1)] np by blast
  moreover have "mro s' q ds"
    using assms(1) ds(1) calculation by (simp add: class_added_def)
  moreover have "first_in (\<lambda>c. own_method s' c k) ds = first_in (\<lambda>c. own_method s c k) ds" for k
    by (rule first_in_cong) (use assms(1) calculation(1) in \<open>auto simp: class_added_def\<close>)
  ultimately show ?thesis
    using ds by (auto simp: finds_def)
qed

lemma class_added_ready:
  assumes add: "class_added s p c cs s'" and ready: "creation_ready s ss"
  shows "creation_ready s' ss"
proof -
  have cc: "class_class (env s) \<noteq> p"
    using ready add by (auto simp: creation_ready_def class_added_def)
  have e: "env s' = env s" "sym_tab s' = sym_tab s" "rt_ok s'"
    using add by (simp_all add: class_added_def)
  obtain ob where "objects s' = (objects s)(p \<mapsto> ob)"
    using add by (auto simp: class_added_def)
  with cc have "objects s' (class_class (env s)) = objects s (class_class (env s))"
    by simp
  with ready e show ?thesis
    unfolding creation_ready_def interned_def using class_added_finds [OF add] by auto
qed

text \<open>\<open>new\<close>, sent to the class of classes: a class struct with nothing in it.\<close>

lemma class_new_step:
  assumes ready: "creation_ready s ss" and room: "plenty 1 s"
  shows "\<exists>p s'. invoke_named (pup_invoke code (Suc (Suc d))) (class_class (env s)) ''new'' 0 None s = Ret p s' \<and>
    obj_step s p (class_class (env s)) (ClassBody zero_class) s'"
proof -
  let ?cc = "class_class (env s)" and ?inv = "pup_invoke code (Suc d)"
  from ready obtain ob c where ob: "objects s ?cc = Some ob" "body ob = ClassBody c"
      "allocate_instance c = Some Alloc_class" and new: "finds s ss (otype ob) ''new'' Class_new"
      and alloc: "finds s ss (otype ob) ''allocate'' Object_allocate"
    by (auto simp: creation_ready_def)
  have init: "finds s ss ?cc ''initialize'' Object_initialize" and ok: "rt_ok s" and ss: "interned s ss"
    using ready by (simp_all add: creation_ready_def)
  have mem: "memory_ok s" and cc0: "?cc \<noteq> NULL"
    using ok ob(1) heap_wf_tapes(4) [of s] by (auto simp: rt_ok_def memory_ok_def)
  have "invoke_named (pup_invoke code (Suc (Suc d))) ?cc ''new'' 0 None s = pup_class_new ?inv ?cc 0 None s"
    using invoke_named_found [OF ok ss ob(1) new] by (simp add: call_method_def)
  moreover have "invoke_named ?inv ?cc ''allocate'' 0 None s = pup_internal_class_allocate_instance ?cc s"
    using invoke_named_found [OF ok ss ob(1) alloc, of code d] cc0 ob
    by (simp add: call_method_def pup_object_allocate_def pup_class_allocate_instance_def allocate_via_def
        run_alloc_fn_def class_at_def the_class_def)
  ultimately have start: "invoke_named (pup_invoke code (Suc (Suc d))) ?cc ''new'' 0 None s =
      andthen (pup_internal_class_allocate_instance ?cc s) (\<lambda>res s.
      andthen (invoke_named ?inv res ''initialize'' 0 None s) (\<lambda>_ s. Ret res s))"
    by (simp add: pup_class_new_def)
  from class_allocate_step [OF mem, of ?cc] room obtain p s1 where
    s1: "pup_internal_class_allocate_instance ?cc s = Ret p s1" and step: "obj_step s p ?cc (ClassBody zero_class) s1"
    by blast
  have o1: "objects s1 = (objects s)(p \<mapsto> new_object ?cc (my_mark s) (ClassBody zero_class))"
      "memory_ok s1" "p \<noteq> NULL" "p \<notin> dom (objects s)"
    using step by (simp_all add: obj_step_def)
  have add1: "class_added s p zero_class [] s1"
    by (rule class_added_intro [OF ok o1(2-4,1)])
      (use step obj_step_attr_of [OF step mem] in \<open>simp_all add: obj_step_def new_object_def zero_class_def\<close>)
  have "rt_ok s1" "interned s1 ss"
    using add1 ss by (simp_all add: class_added_def interned_def)
  moreover have "objects s1 p = Some (new_object ?cc (my_mark s) (ClassBody zero_class))"
    using o1(1) by simp
  moreover have "finds s1 ss (otype (new_object ?cc (my_mark s) (ClassBody zero_class)))
      ''initialize'' Object_initialize"
    using class_added_finds [OF add1 init] by (simp add: new_object_def)
  ultimately have "invoke_named ?inv p ''initialize'' 0 None s1 = Ret NULL s1"
    using invoke_named_found [of s1 ss p _ "''initialize''" Object_initialize code d 0 None]
    by (simp add: call_method_def pup_object_initialize_def)
  with start s1 step show ?thesis
    by simp
qed

lemma create_class_step:
  assumes ready: "creation_ready s ss" and room: "plenty 2 s"
    and super: "mro s super cs" "super \<noteq> NULL"
  shows "\<exists>p s'. pup_internal_create_class (pup_invoke code (Suc (Suc d))) super scp (Some nm) (Some a) df g s = Ret p s' \<and>
    class_added s p \<lparr>superclass = super, name = Some nm, method_list_head = NULL, scope = scp,
      allocate_instance = Some a, destroy_instance = df, gc_copy_instance = g\<rparr> cs s' \<and>
    uses_at_most 2 s s'"
proof -
  have ok: "rt_ok s" and mem: "memory_ok s"
    using ready by (simp_all add: creation_ready_def rt_ok_def)
  have "plenty 1 s"
    by (rule plenty_less [OF room]) simp
  from class_new_step [OF ready this, of code d] obtain p s1 where
    new1: "invoke_named (pup_invoke code (Suc (Suc d))) (class_class (env s)) ''new'' 0 None s = Ret p s1" and
    step: "obj_step s p (class_class (env s)) (ClassBody zero_class) s1"
    by blast
  let ?ob = "new_object (class_class (env s)) (my_mark s) (ClassBody zero_class)"
  let ?c = "\<lparr>superclass = super, name = Some nm, method_list_head = NULL, scope = scp,
       allocate_instance = Some a, destroy_instance = df, gc_copy_instance = g\<rparr>"
  have o1: "objects s1 = (objects s)(p \<mapsto> ?ob)"
      "memory_ok s1" "p \<noteq> NULL" "p \<notin> dom (objects s)" "methods s1 = methods s" "sym_tab s1 = sym_tab s"
      "env s1 = env s" "self s1 = self s" "stdout s1 = stdout s" "my_mark s1 = my_mark s"
      "uses_at_most 1 s s1" "unwinds s1 = unwinds s"
    using step by (simp_all add: obj_step_def)
  have room1: "plenty 1 s1"
    by (rule plenty_uses [OF _ o1(11)]) (use room in \<open>simp add: numeral_2_eq_2\<close>)
  have op: "objects s1 p = Some ?ob"
    using o1(1) by simp
  from class_init_named [OF o1(2) op _ room1, of zero_class super scp nm a df g] obtain s2
    where s2: "pup_internal_class_init p super scp (Some nm) (Some a) df g s1 = Ret () s2"
      "memory_ok s2" "objects s2 = (objects s1)(p \<mapsto> ?ob\<lparr>body := ClassBody ?c\<rparr>)"
      "attr_of s2 = attr_of s1" "my_mark s2 = my_mark s1"
      "uses_at_most 1 s1 s2" "methods s2 = methods s1" "sym_tab s2 = sym_tab s1" "env s2 = env s1"
      "self s2 = self s1" "stdout s2 = stdout s1" "unwinds s2 = unwinds s1"
    by (auto simp: new_object_def)
  have "class_added s p ?c cs s2"
    by (rule class_added_intro [OF ok s2(2) o1(3,4), of "?ob\<lparr>body := ClassBody ?c\<rparr>"])
      (use o1 s2 super(1) obj_step_attr_of [OF step mem] in \<open>simp_all add: new_object_def\<close>)
  moreover have "uses_at_most 2 s s2"
    using uses_trans [OF o1(11) s2(6)] by (simp add: numeral_2_eq_2)
  moreover have "pup_internal_create_class (pup_invoke code (Suc (Suc d))) super scp (Some nm) (Some a) df g s =
      Ret p s2"
    using new1 s2(1) super(2) by (simp add: pup_internal_create_class_def)
  ultimately show ?thesis by blast
qed

section \<open>Properties\<close>

lemma type_name_mallocs:
  "pup_object_type_name p s = Ret cn s \<Longrightarrow> pup_object_type_name p (s\<lparr>mallocs := t\<rparr>) = Ret cn (s\<lparr>mallocs := t\<rparr>)"
  by (auto simp: pup_object_type_name_def pup_type_name_def deref_def class_at_def
      split: option.splits if_splits)


text \<open>The demonstration runtime with the name \<open>foo\<close> interned, and nothing defined.\<close>

definition demo_foo :: rt where
  "demo_foo = (case pup_env_str_to_sym ''foo'' demo_rt of Ret y s \<Rightarrow> s | _ \<Rightarrow> demo_rt)"

lemma demo_foo_step:
  "pup_env_str_to_sym ''foo'' demo_rt = Ret 1 demo_foo" "sym_step demo_rt [] ''foo'' demo_foo"
proof -
  have mem: "memory_ok demo_rt" and "fst (malloc (mallocs demo_rt)) \<noteq> NULL"
    using demo_rt_ok(1) by (simp_all add: rt_ok_def demo_rt_same two_classes_at demo_tape_def)
  with str_to_sym_step [OF mem demo_rt_ok(5), of "''foo''"] obtain s' where
    "pup_env_str_to_sym ''foo'' demo_rt = Ret (symbol_in [] ''foo'') s'" "sym_step demo_rt [] ''foo'' s'"
    by auto
  then show "pup_env_str_to_sym ''foo'' demo_rt = Ret 1 demo_foo" "sym_step demo_rt [] ''foo'' demo_foo"
    by (simp_all add: demo_foo_def symbol_in_def intern_def)
qed

lemma demo_foo_ok:
  "rt_ok demo_foo" "errors_ok demo_foo" "plenty 7 demo_foo" "room_for_symbols demo_foo"
  "pup_env_sym_to_str 1 demo_foo = Ret (Some ''foo'') demo_foo" "interned demo_foo [''foo'']"
proof -
  note fr = sym_step_frame [OF demo_foo_step(2)]
  show "rt_ok demo_foo"
    by (rule sym_step_rt_ok [OF demo_foo_step(2) demo_rt_ok(1)])
  show "errors_ok demo_foo"
    using demo_rt_ok(2) fr by (simp add: errors_ok_def)
  have "uses_at_most 1 demo_rt demo_foo"
    using demo_foo_step(2) by (simp add: sym_step_def)
  then show "plenty 7 demo_foo"
    by (intro plenty_uses [of 1 7 demo_rt])
      (simp_all add: plenty_def answers_def demo_rt_same two_classes_at two_classes_spare demo_rt_spare demo_tape_def)
  show ss: "interned demo_foo [''foo'']"
    using demo_foo_step(2) by (simp add: sym_step_def intern_def)
  show "room_for_symbols demo_foo"
    unfolding room_for_symbols_def
  proof (intro allI impI)
    fix ts
    assume "interned demo_foo ts"
    from interned_unique [OF ss this] have "ts = [''foo'']" by simp
    then show "length ts < 2 ^ 31 - 2" by simp
  qed
  from ss obtain xs where "sym_table_is (sym_tab demo_foo) xs [''foo'']"
    by (auto simp: interned_def)
  from pup_sym_to_str_spec [OF this, of 1] show "pup_env_sym_to_str 1 demo_foo = Ret (Some ''foo'') demo_foo"
    by (simp add: pup_env_sym_to_str_def)
qed

lemma demo_foo_lookup:
  "mro demo_foo 1048681 [1048681, 1048585]" "own_method demo_foo c k = None"
  "objects demo_foo 1048585 =
     Some \<lparr>otype = 1048681, attr_list_head = 0, gc_mark = 0, body = ClassBody demo_object_class\<rparr>"
  "pup_object_type_name 1048585 demo_foo = Ret ''Class'' demo_foo"
proof -
  note fr = sym_step_frame [OF demo_foo_step(2)]
  have c: "class_at demo_foo = class_at two_classes" "methods demo_foo = Map.empty"
    using fr demo_rt_same by (simp_all add: two_classes_at)
  show "mro demo_foo 1048681 [1048681, 1048585]"
    using two_classes_ok(4) c by (simp add: mro_def)
  show "own_method demo_foo c k = None"
    by (simp add: own_method_def c(1)) (simp add: class_at_def two_classes_at the_class_def
        find_method_in_list_def demo_object_class_def demo_class_class_def search.simps)
  show ob: "objects demo_foo 1048585 =
     Some \<lparr>otype = 1048681, attr_list_head = 0, gc_mark = 0, body = ClassBody demo_object_class\<rparr>"
    using fr by (simp add: demo_rt_def)
  show "pup_object_type_name 1048585 demo_foo = Ret ''Class'' demo_foo"
    using ob by (simp add: pup_object_type_name_def pup_type_name_def c(1))
      (simp add: class_at_def two_classes_at the_class_def demo_class_class_def)
qed




text \<open>C40: Fixnum addition.  For two objects of one type that hold ints, called with one argument:
  when the mathematical sum is an int, the result (an abort if there is no memory for it) is a fresh
  Fixnum that holds exactly the sum, every older object being as it was; when it is not, the C addition
  overflows, which is undefined behaviour.\<close>

theorem fixnum_plus_adds:
  assumes "memory_ok s" and "fixnum_at s a = Some x" and "fixnum_at s b = Some y"
    and "map_option otype (objects s a) = map_option otype (objects s b)"
  shows "if - (2 ^ 31) \<le> sint x + sint y \<and> sint x + sint y < 2 ^ 31 then
      pup_fixnum_plus a 1 (Some [b]) s = Aborted \<and> \<not> plenty 1 s \<or>
      (\<exists>p s' v. pup_fixnum_plus a 1 (Some [b]) s = Ret p s' \<and> memory_ok s' \<and>
        p \<notin> dom (objects s) \<and> (\<forall>q \<in> dom (objects s). objects s' q = objects s q) \<and>
        map_option otype (objects s' p) = Some (class_fixnum (env s)) \<and>
        fixnum_at s' p = Some v \<and> sint v = sint x + sint y)
    else pup_fixnum_plus a 1 (Some [b]) s = Undef"
proof -
  have one: "ucast (1 :: i64) = (1 :: i32)"
    by simp
  note run = fixnum_operands(1) [OF assms(2,3) one assms(4)]
  show ?thesis
  proof (cases "int_add x y")
    case None
    with run show ?thesis by (simp add: int_add_def split: if_splits)
  next
    case (Some v)
    then have range: "- (2 ^ 31) \<le> sint x + sint y \<and> sint x + sint y < 2 ^ 31"
      by (simp add: int_add_def split: if_splits)
    from fixnum_create_step [OF assms(1), of v] show ?thesis
    proof (elim disjE exE conjE)
      assume "pup_fixnum_create v s = Aborted" "\<not> plenty 1 s"
      with run Some range show ?thesis by simp
    next
      fix p s'
      assume c: "pup_fixnum_create v s = Ret p s'" "obj_step s p (class_fixnum (env s)) (FixnumBody v) s'"
      have "memory_ok s'" "p \<notin> dom (objects s)" "\<forall>q \<in> dom (objects s). objects s' q = objects s q"
          "map_option otype (objects s' p) = Some (class_fixnum (env s))"
        using c(2) by (auto simp: obj_step_def new_object_def)
      with run Some range c obj_step_fixnum_at [OF c(2), of p] int_add_exact [OF Some] show ?thesis
        by auto
    qed
  qed
qed

definition demo_fixnums :: rt where
  "demo_fixnums =
     (case pup_fixnum_create 2000000000 demo_rt of
        Ret a s \<Rightarrow> (case pup_fixnum_create 5 s of Ret b s \<Rightarrow> s | _ \<Rightarrow> s) | _ \<Rightarrow> demo_rt)"

lemma demo_fixnums_ok:
  "memory_ok demo_fixnums" "fixnum_at demo_fixnums 1048777 = Some 2000000000"
  "fixnum_at demo_fixnums 1048825 = Some 5"
  "map_option otype (objects demo_fixnums 1048777) = map_option otype (objects demo_fixnums 1048825)"
  "plenty 1 demo_fixnums"
proof -
  have mem: "memory_ok demo_rt"
    using demo_rt_ok(1) by (simp add: rt_ok_def)
  obtain s1 where s1: "pup_fixnum_create 2000000000 demo_rt = Ret 1048777 s1"
    and s2: "pup_fixnum_create 5 s1 = Ret 1048825 demo_fixnums"
    by (simp add: demo_fixnums_def demo_rt_def pup_fixnum_create_def pup_alloc_obj_def obj_init_def
        sizeof_PupFixnum_def two_classes_def class_eval boot_eval zero_object_def)
  have st1: "obj_step demo_rt 1048777 (class_fixnum (env demo_rt)) (FixnumBody 2000000000) s1"
    using fixnum_create_step [OF mem, of 2000000000] s1 by auto
  then have "memory_ok s1"
    by (simp add: obj_step_def)
  from fixnum_create_step [OF this, of 5] s2
  have st2: "obj_step s1 1048825 (class_fixnum (env s1)) (FixnumBody 5) demo_fixnums"
    by auto
  then show "memory_ok demo_fixnums"
    by (simp add: obj_step_def)
  have "plenty 2 s1"
    by (rule obj_step_plenty [OF st1]) (rule plenty_less [OF demo_rt_ok(3)], simp)
  then show "plenty 1 demo_fixnums"
    by (intro obj_step_plenty [OF st2]) (simp add: numeral_2_eq_2)
  show "fixnum_at demo_fixnums 1048777 = Some 2000000000" "fixnum_at demo_fixnums 1048825 = Some 5"
    by (simp_all add: obj_step_fixnum_at [OF st2] obj_step_fixnum_at [OF st1])
  show "map_option otype (objects demo_fixnums 1048777) = map_option otype (objects demo_fixnums 1048825)"
    using st1 st2 by (simp add: obj_step_def new_object_def)
qed

lemma fixnum_plus_adds_witness:
  "(\<exists>p s' v. pup_fixnum_plus 1048777 1 (Some [1048825]) demo_fixnums = Ret p s' \<and>
      fixnum_at s' p = Some v \<and> sint v = 2000000005) \<and>
   pup_fixnum_plus 1048777 1 (Some [1048777]) demo_fixnums = Undef"
  using fixnum_plus_adds [OF demo_fixnums_ok(1-4)]
    fixnum_plus_adds [OF demo_fixnums_ok(1,2,2) refl] demo_fixnums_ok(5)
  by auto

text \<open>Fixnum comparison.  Of two objects of one type that hold ints, \<open>==\<close> and \<open><\<close> give the true or
  the false object as the signed ints compare; an argument of another type compares false; nothing
  changes.\<close>

lemma fixnum_comparisons:
  assumes "fixnum_at s a = Some x" and "objects s b = Some ob"
    and "map_option otype (objects s a) = Some (otype ob) \<longrightarrow> fixnum_at s b = Some y"
  shows "pup_fixnum_op_equals a 1 (Some [b]) s =
      Ret (truth (map_option otype (objects s a) = Some (otype ob) \<and> sint x = sint y) s) s \<and>
    pup_fixnum_op_lessthan a 1 (Some [b]) s =
      Ret (truth (map_option otype (objects s a) = Some (otype ob) \<and> sint x < sint y) s) s"
proof (cases "map_option otype (objects s a) = Some (otype ob)")
  case True
  have one: "ucast (1 :: i64) = (1 :: i32)"
    by simp
  have "map_option otype (objects s a) = map_option otype (objects s b)"
    using True assms(2) by simp
  from fixnum_operands(2) [OF assms(1) _ one this] True assms(3) show ?thesis
    by (simp add: pup_fixnum_op_equals_def pup_fixnum_op_lessthan_def word_sless_alt sint_word_ariths
        signed_word_eqI flip: word_eq_iff_signed)
next
  case False
  then show ?thesis
    using assms(1,2) by (auto simp: pup_fixnum_op_equals_def pup_fixnum_op_lessthan_def fixnum_compare_def
        with_one_arg_pass truth_def fixnum_at_Some)
qed

lemma fixnum_comparisons_example:
  "pup_fixnum_op_lessthan 1048825 1 (Some [1048777]) demo_fixnums =
     Ret (object_true (env demo_fixnums)) demo_fixnums \<and>
   pup_fixnum_op_equals 1048825 1 (Some [1048777]) demo_fixnums =
     Ret (object_false (env demo_fixnums)) demo_fixnums"
proof -
  obtain ob ob2 where ob: "objects demo_fixnums 1048777 = Some ob"
    and ob2: "objects demo_fixnums 1048825 = Some ob2"
    using demo_fixnums_ok(2,3) by (auto simp: fixnum_at_Some)
  with demo_fixnums_ok(4) have "otype ob2 = otype ob" by simp
  with fixnum_comparisons [OF demo_fixnums_ok(3) ob, of 2000000000] demo_fixnums_ok(2) ob2
  show ?thesis by (simp add: truth_def)
qed

end
