(* ===== verification/Typing.thy ===== *)
theory Typing
  imports Dispatch
begin

text \<open>
  The types of objects: what the header of an object says of the struct behind it.  A state is
  typed when every object has a class whose hook makes objects of its shape, and every reference is
  \<open>NULL\<close> or to an object.  Every method that \<open>pup_invoke\<close> can run keeps a typed state typed and
  keeps the class, the value and the methods of every object there is.
\<close>

section \<open>Typed states\<close>

text \<open>The struct a hook allocates.\<close>

definition fits :: "alloc_fn option \<Rightarrow> body \<Rightarrow> bool" where
  "fits h b \<longleftrightarrow>
     (case h of
        None \<Rightarrow> False
      | Some Alloc_object \<Rightarrow> b = PlainBody
      | Some Alloc_class \<Rightarrow> (\<exists>c. b = ClassBody c)
      | Some Alloc_string \<Rightarrow> (\<exists>v. b = StringBody v)
      | Some Alloc_fixnum \<Rightarrow> (\<exists>v. b = FixnumBody v))"

definition hook_of :: "rt \<Rightarrow> ptr \<Rightarrow> alloc_fn option" where
  "hook_of s c = (case class_at s c of None \<Rightarrow> None | Some b \<Rightarrow> allocate_instance b)"

definition value_ok :: "rt \<Rightarrow> ptr \<Rightarrow> bool" where
  "value_ok s v \<longleftrightarrow> v = NULL \<or> v \<in> dom (objects s)"

definition heap_typed :: "rt \<Rightarrow> bool" where
  "heap_typed s \<longleftrightarrow>
     (\<forall>p ob. objects s p = Some ob \<longrightarrow> fits (hook_of s (otype ob)) (body ob)) \<and>
     (\<forall>p \<in> dom (objects s). \<forall>k. value_ok s (attr_of s p k)) \<and>
     (\<forall>u \<in> ran (unwinds s). value_ok s (pup_exception u))"

text \<open>The classes and objects that the runtime itself names.\<close>

definition env_typed :: "rt \<Rightarrow> bool" where
  "env_typed s \<longleftrightarrow>
     hook_of s (class_string (env s)) = Some Alloc_string \<and>
     hook_of s (class_fixnum (env s)) = Some Alloc_fixnum \<and>
     hook_of s (class_runtimeerror (env s)) = Some Alloc_object \<and>
     value_ok s (object_true (env s)) \<and> value_ok s (object_false (env s))"

definition typed :: "rt \<Rightarrow> bool" where
  "typed s \<longleftrightarrow> rt_ok s \<and> heap_typed s \<and> env_typed s"

text \<open>
  What time does to the objects of a process: each keeps its class and its value, which for a
  class is its struct without the method list; a class keeps the methods it has, a symbol its string.
\<close>

definition same_kinds :: "rt \<Rightarrow> rt \<Rightarrow> bool" where
  "same_kinds s s' \<longleftrightarrow>
     (\<forall>p ob. objects s p = Some ob \<longrightarrow>
        (\<exists>ob'. objects s' p = Some ob' \<and> otype ob' = otype ob \<and> body (tableless ob') = body (tableless ob)))"

definition grows :: "rt \<Rightarrow> rt \<Rightarrow> bool" where
  "grows s s' \<longleftrightarrow>
     same_kinds s s' \<and> env s' = env s \<and>
     (\<forall>c k f. own_method s c k = Some f \<longrightarrow> own_method s' c k = Some f) \<and>
     (\<forall>ss. interned s ss \<longrightarrow> (\<exists>ts. interned s' (ss @ ts)))"

lemma same_kinds_refl: "same_kinds s s"
  by (simp add: same_kinds_def)

lemma same_kinds_trans: "same_kinds s s' \<Longrightarrow> same_kinds s' s'' \<Longrightarrow> same_kinds s s''"
  unfolding same_kinds_def by metis

lemma grows_refl: "grows s s"
  by (auto simp: grows_def same_kinds_refl intro: exI [of _ "[]"])

lemma grows_trans:
  assumes "grows s s'" and "grows s' s''"
  shows "grows s s''"
  unfolding grows_def
proof (intro conjI allI impI)
  show "same_kinds s s''" "env s'' = env s"
    using assms same_kinds_trans by (auto simp: grows_def)
  show "own_method s'' c k = Some f" if "own_method s c k = Some f" for c k f
    using assms that by (simp add: grows_def)
  show "\<exists>ts. interned s'' (ss @ ts)" if i: "interned s ss" for ss
  proof -
    obtain ts where "interned s' (ss @ ts)"
      using assms(1) i by (auto simp: grows_def)
    then obtain us where "interned s'' ((ss @ ts) @ us)"
      using assms(2) by (auto simp: grows_def)
    then show ?thesis
      by (intro exI [of _ "ts @ us"]) simp
  qed
qed

lemma value_ok_NULL [simp]: "value_ok s NULL"
  by (simp add: value_ok_def)

lemma same_kinds_dom: "same_kinds s s' \<Longrightarrow> dom (objects s) \<subseteq> dom (objects s')"
  unfolding same_kinds_def by blast

lemma value_ok_grows: "same_kinds s s' \<Longrightarrow> value_ok s v \<Longrightarrow> value_ok s' v"
  using same_kinds_dom unfolding value_ok_def by blast

lemma heap_typedD:
  assumes "heap_typed s"
  shows "objects s p = Some ob \<Longrightarrow> fits (hook_of s (otype ob)) (body ob)"
    and "p \<in> dom (objects s) \<Longrightarrow> value_ok s (attr_of s p k)"
    and "u \<in> ran (unwinds s) \<Longrightarrow> value_ok s (pup_exception u)"
  using assms unfolding heap_typed_def by blast+

lemma tableless_body: "body (tableless ob') = body (tableless ob) \<Longrightarrow>
    (case body ob of
       ClassBody c \<Rightarrow> \<exists>c'. body ob' = ClassBody c' \<and> c'\<lparr>method_list_head := NULL\<rparr> = c\<lparr>method_list_head := NULL\<rparr>
     | b \<Rightarrow> body ob' = b)"
  by (cases "body ob"; cases "body ob'") (simp_all add: tableless_def)

lemma fits_tableless: "body (tableless ob') = body (tableless ob) \<Longrightarrow> fits h (body ob') = fits h (body ob)"
  by (cases "body ob"; cases "body ob'"; cases h)
    (auto simp: tableless_def fits_def split: option.split alloc_fn.split)

lemma hook_grows:
  assumes "same_kinds s s'" and "hook_of s c = Some a"
  shows "hook_of s' c = Some a"
proof -
  obtain cb ob where cb: "objects s c = Some ob" "body ob = ClassBody cb" "allocate_instance cb = Some a"
    using assms(2) by (auto simp: hook_of_def class_at_Some split: option.splits)
  then obtain ob' where ob': "objects s' c = Some ob'" "body (tableless ob') = body (tableless ob)"
    using assms(1) unfolding same_kinds_def by blast
  from tableless_body [OF ob'(2)] cb(2) obtain cb' where
    "body ob' = ClassBody cb'" and eq: "cb'\<lparr>method_list_head := NULL\<rparr> = cb\<lparr>method_list_head := NULL\<rparr>"
    by auto
  moreover have "allocate_instance cb' = allocate_instance cb"
    using arg_cong [OF eq, of allocate_instance] by simp
  ultimately show ?thesis
    using ob'(1) cb(3) by (simp add: hook_of_def class_at_def the_class_def)
qed

lemma env_typed_grows: "same_kinds s s' \<Longrightarrow> env s' = env s \<Longrightarrow> env_typed s \<Longrightarrow> env_typed s'"
  by (simp add: env_typed_def hook_grows value_ok_grows)

text \<open>After a step only what is new has to be looked at.\<close>

lemma heap_typed_step:
  assumes ht: "heap_typed s" and k: "same_kinds s s'"
    and new: "\<And>p ob. objects s p = None \<Longrightarrow> objects s' p = Some ob \<Longrightarrow> fits (hook_of s' (otype ob)) (body ob)"
    and attr: "\<And>p k. p \<in> dom (objects s') \<Longrightarrow>
      attr_of s' p k = NULL \<or> p \<in> dom (objects s) \<and> attr_of s' p k = attr_of s p k \<or> value_ok s' (attr_of s' p k)"
    and unw: "\<And>u. u \<in> ran (unwinds s') \<Longrightarrow> u \<in> ran (unwinds s) \<or> value_ok s' (pup_exception u)"
  shows "heap_typed s'"
  unfolding heap_typed_def
proof (intro conjI allI impI ballI)
  fix p ob'
  assume ob': "objects s' p = Some ob'"
  show "fits (hook_of s' (otype ob')) (body ob')"
  proof (cases "objects s p")
    case None
    with new ob' show ?thesis by blast
  next
    case (Some ob)
    with k ob' have same: "otype ob' = otype ob" "body (tableless ob') = body (tableless ob)"
      unfolding same_kinds_def by fastforce+
    have f: "fits (hook_of s (otype ob)) (body ob)"
      using ht Some unfolding heap_typed_def by blast
    then obtain a where "hook_of s (otype ob) = Some a"
      by (auto simp: fits_def split: option.splits)
    with f hook_grows [OF k this] same fits_tableless [OF same(2)] show ?thesis
      by simp
  qed
next
  fix p k'
  assume p: "p \<in> dom (objects s')"
  from attr [OF p, of k'] show "value_ok s' (attr_of s' p k')"
  proof (elim disjE conjE)
    assume "p \<in> dom (objects s)" "attr_of s' p k' = attr_of s p k'"
    with value_ok_grows [OF k heap_typedD(2) [OF ht]] show ?thesis by metis
  qed simp_all
next
  fix u
  assume "u \<in> ran (unwinds s')"
  with unw [OF this] heap_typedD(3) [OF ht] value_ok_grows [OF k] show "value_ok s' (pup_exception u)"
    by blast
qed

lemma heap_typed_cong:
  assumes "heap_typed s" and "objects s' = objects s" and "attrs s' = attrs s" and "unwinds s' = unwinds s"
  shows "heap_typed s'"
proof -
  have "attr_of s' = attr_of s"
    using assms by (intro ext) (simp add: attr_of_def pup_iv_get_def find_attr_def searched_def deref_def
      split: option.splits found.splits)
  then show ?thesis
    using assms by (intro heap_typed_step [OF assms(1)]) (simp_all add: same_kinds_def)
qed

section \<open>The steps of the runtime\<close>

lemma typed_step: "typed s \<Longrightarrow> rt_ok s' \<Longrightarrow> heap_typed s' \<Longrightarrow> grows s s' \<Longrightarrow> typed s'"
  using env_typed_grows [of s s'] by (simp add: typed_def grows_def)

lemma grows_intro:
  assumes "same_kinds s s'" and "env s' = env s" and "sym_tab s' = sym_tab s"
    and "\<And>c k f. own_method s c k = Some f \<Longrightarrow> own_method s' c k = Some f"
  shows "grows s s'"
proof -
  have "interned s' (ss @ [])" if "interned s ss" for ss
    using that assms(3) by (simp add: interned_def)
  then show ?thesis
    using assms unfolding grows_def by blast
qed

lemma grows_same:
  assumes "same_kinds s s'" and "env s' = env s" and "sym_tab s' = sym_tab s"
    and "class_at s' = class_at s" and "methods s' = methods s"
  shows "grows s s'"
  using classes_wf_cong(3) [OF assms(4,5)] by (intro grows_intro [OF assms(1-3)]) simp

text \<open>All of the objects as before.\<close>

lemma same_objects_typed:
  assumes "heap_typed s" and "objects s' = objects s" and "attrs s' = attrs s" and "methods s' = methods s"
    and "unwinds s' = unwinds s" and "env s' = env s" and "sym_tab s' = sym_tab s"
  shows "heap_typed s'" "grows s s'"
proof -
  show "heap_typed s'"
    by (rule heap_typed_cong [OF assms(1,2,3,5)])
  show "grows s s'"
    by (rule grows_same) (use assms in \<open>simp_all add: same_kinds_def class_at_def fun_eq_iff\<close>)
qed

lemma sym_step_typed:
  assumes step: "sym_step s ss x s'" and ss: "interned s ss" and ht: "heap_typed s"
  shows "heap_typed s'" "grows s s'"
proof -
  note fr = sym_step_frame [OF step]
  show "heap_typed s'"
    by (rule heap_typed_cong [OF ht fr(1,2,9)])
  have "interned s' (snd (intern x ss))"
    using step by (simp add: sym_step_def)
  moreover have "\<exists>ts. snd (intern x ss) = ss @ ts"
    by (cases "index_of x ss") (simp_all add: intern_def)
  ultimately have "\<exists>ts. interned s' (us @ ts)" if "interned s us" for us
    using interned_unique [OF ss that] by auto
  then show "grows s s'"
    using classes_wf_cong(3) [OF fr(4,3)] fr by (auto simp: grows_def same_kinds_def)
qed

lemma own_method_class: "own_method s c k = Some f \<Longrightarrow> c \<in> dom (class_at s)"
  by (auto simp: own_method_def split: option.splits)

lemma method_step_typed:
  assumes step: "method_step s p k f s'" and ok: "memory_ok s" and ht: "heap_typed s"
  shows "heap_typed s'" "grows s s'"
proof -
  have st: "same_but_tables s s'"
    and own: "\<And>q j. q \<in> dom (class_at s) \<Longrightarrow> own_method s' q j =
        (case own_method s q j of Some g \<Rightarrow> Some g | None \<Rightarrow> if q = p \<and> j = k then Some f else None)"
    using step by (simp_all add: method_step_def)
  have dom: "dom (objects s') = dom (objects s)"
    by (rule same_but_tables_dom [OF st])
  have kinds: "same_kinds s s'"
    unfolding same_kinds_def
  proof (intro allI impI)
    fix q ob
    assume "objects s q = Some ob"
    then have "map_option tableless (objects s' q) = Some (tableless ob)"
      using st by (simp add: same_but_tables_def)
    then obtain ob' where "objects s' q = Some ob'" and t: "tableless ob' = tableless ob"
      by auto
    then show "\<exists>ob'. objects s' q = Some ob' \<and> otype ob' = otype ob \<and> body (tableless ob') = body (tableless ob)"
      using tableless_eq [OF t] by simp
  qed
  have "attr_of s' q j = attr_of s q j" if "q \<in> dom (objects s)" for q j
    by (rule same_but_tables_attr_of [OF st _ that]) (use ok in \<open>simp add: memory_ok_def\<close>)
  with dom st show "heap_typed s'"
    by (intro heap_typed_step [OF ht kinds]) (auto simp: same_but_tables_def)
  have "own_method s' c j = Some g" if "own_method s c j = Some g" for c j g
    using own [OF own_method_class [OF that]] that by simp
  then show "grows s s'"
    by (intro grows_intro [OF kinds]) (use st in \<open>simp_all add: same_but_tables_def\<close>)
qed

lemma attr_step_typed:
  assumes step: "attr_step s p k v s'" and v: "value_ok s v" and ht: "heap_typed s"
  shows "heap_typed s'" "grows s s'"
proof -
  have sa: "same_but_attrs s s'"
    and attr: "\<And>q j. q \<in> dom (objects s) \<Longrightarrow> attr_of s' q j = (if q = p \<and> j = k then v else attr_of s q j)"
    using step by (simp_all add: attr_step_def)
  have "body (tableless (ob\<lparr>attr_list_head := h\<rparr>)) = body (tableless ob)" for ob :: object and h
    by (cases "body ob") (simp_all add: tableless_def)
  then have kinds: "same_kinds s s'"
    using same_but_attrs_body [OF sa] unfolding same_kinds_def by fastforce
  note dom = same_but_attrs_dom [OF sa]
  show "heap_typed s'"
  proof (rule heap_typed_step [OF ht kinds])
    fix q j
    assume "q \<in> dom (objects s')"
    with attr [of q j] dom value_ok_grows [OF kinds v]
    show "attr_of s' q j = NULL \<or> q \<in> dom (objects s) \<and> attr_of s' q j = attr_of s q j \<or> value_ok s' (attr_of s' q j)"
      by auto
  qed (use dom sa in \<open>auto simp: same_but_attrs_def\<close>)
  show "grows s s'"
    by (rule grows_same [OF kinds _ _ same_but_attrs_class [OF sa]])
      (use sa in \<open>simp_all add: same_but_attrs_def\<close>)
qed

text \<open>A new object, of a class with a hook that makes its shape.\<close>

lemma new_object_typed:
  assumes ht: "heap_typed s" and p: "p \<notin> dom (objects s)" and new: "objects s' = (objects s)(p \<mapsto> ob)"
    and f: "fits (hook_of s (otype ob)) (body ob)"
    and attr: "\<And>q k. attr_of s' q k = (if q = p then NULL else attr_of s q k)" and unw: "unwinds s' = unwinds s"
  shows "heap_typed s'" "same_kinds s s'"
proof -
  have "objects s' q = Some ob'" if "objects s q = Some ob'" for q ob'
    using new p that by auto
  then show kinds: "same_kinds s s'"
    unfolding same_kinds_def by blast
  obtain a where "hook_of s (otype ob) = Some a"
    using f by (auto simp: fits_def split: option.splits)
  with hook_grows [OF kinds this] f have fs: "fits (hook_of s' (otype ob)) (body ob)"
    by simp
  show "heap_typed s'"
  proof (rule heap_typed_step [OF ht kinds])
    fix q ob'
    assume "objects s q = None" "objects s' q = Some ob'"
    with new fs show "fits (hook_of s' (otype ob')) (body ob')"
      by (simp split: if_splits)
  next
    fix q k
    assume "q \<in> dom (objects s')"
    with new attr [of q k]
    show "attr_of s' q k = NULL \<or> q \<in> dom (objects s) \<and> attr_of s' q k = attr_of s q k \<or> value_ok s' (attr_of s' q k)"
      by auto
  qed (simp add: unw)
qed

lemma own_method_kept:
  assumes "methods s' = methods s" and "class_at s' = (class_at s)(p := x)" and "p \<notin> dom (class_at s)"
    and "own_method s c k = Some f"
  shows "own_method s' c k = Some f"
proof -
  have "c \<noteq> p"
    using own_method_class [OF assms(4)] assms(3) by blast
  then have "own_method s' c k = own_method s c k"
    using assms(1,2) by (cases "class_at s c")
      (simp_all add: own_method_def find_method_in_list_def searched_def deref_def split: option.split found.split)
  with assms(4) show ?thesis by simp
qed

lemma new_object_grows:
  assumes p: "p \<notin> dom (objects s)" and new: "objects s' = (objects s)(p \<mapsto> ob)"
    and k: "same_kinds s s'" and rest: "methods s' = methods s" "env s' = env s" "sym_tab s' = sym_tab s"
  shows "grows s s'"
proof (rule grows_intro [OF k rest(2,3)])
  fix c j f
  assume own: "own_method s c j = Some f"
  have "class_at s' = (class_at s)(p := the_class ob)"
    using new by (auto simp: fun_eq_iff class_at_def)
  moreover have "p \<notin> dom (class_at s)"
    using p by (auto simp: class_at_Some)
  ultimately show "own_method s' c j = Some f"
    using own_method_kept [OF rest(1) _ _ own] by blast
qed

lemma zero_class_wf:
  assumes wf: "classes_wf s" and p: "p \<noteq> NULL" "p \<notin> dom (class_at s)"
    and cls: "class_at s' = (class_at s)(p \<mapsto> zero_class)" and meths: "methods s' = methods s"
  shows "classes_wf s'"
proof -
  have out: "p \<notin> set ds" if "mro s q ds" for q ds
    using mro_in [OF that] p(2) by blast
  have "mro s (superclass zero_class) []"
    by (simp add: zero_class_def)
  with classes_wf_new_class [OF wf cls meths p(1), of "[]"] out show ?thesis
    by (simp add: zero_class_def)
qed

lemma obj_step_typed:
  assumes ok: "rt_ok s" and ht: "heap_typed s" and step: "obj_step s p cl b s'" and f: "fits (hook_of s cl) b"
    and zero: "\<And>c. b = ClassBody c \<Longrightarrow> c = zero_class"
  shows "rt_ok s'" "heap_typed s'" "grows s s'"
proof -
  have st: "memory_ok s'" "p \<noteq> NULL" "p \<notin> dom (objects s)"
      "objects s' = (objects s)(p \<mapsto> new_object cl (my_mark s) b)" "methods s' = methods s"
      "unwinds s' = unwinds s" "env s' = env s" "sym_tab s' = sym_tab s"
    using step by (simp_all add: obj_step_def)
  have mem: "memory_ok s"
    using ok by (simp add: rt_ok_def)
  have "fits (hook_of s (otype (new_object cl (my_mark s) b))) (body (new_object cl (my_mark s) b))"
    using f by (simp add: new_object_def)
  note new = new_object_typed [OF ht st(3,4) this obj_step_attr_of [OF step mem] st(6)]
  show "heap_typed s'"
    by (rule new(1))
  show "grows s s'"
    by (rule new_object_grows [OF st(3,4) new(2) st(5,7,8)])
  show "rt_ok s'"
  proof (cases b)
    case (ClassBody c)
    have "class_at s' = (class_at s)(p \<mapsto> zero_class)"
      using class_at_new_object [OF st(4)] ClassBody zero by simp
    moreover have "p \<notin> dom (class_at s)"
      using st(3) by (auto simp: class_at_Some)
    moreover have "classes_wf s"
      using ok by (simp add: rt_ok_def)
    ultimately have "classes_wf s'"
      by (intro zero_class_wf [OF _ st(2) _ _ st(5)])
    with ok st(1,8) show ?thesis
      by (simp add: rt_ok_def interned_def)
  qed (rule obj_step_rt_ok(1) [OF step ok], simp)+
qed

lemma class_added_typed:
  assumes ok: "rt_ok s" and ht: "heap_typed s" and add: "class_added s p c cs s'"
    and hook: "hook_of s (class_class (env s)) = Some Alloc_class"
  shows "heap_typed s'" "grows s s'"
proof -
  obtain ob where ob: "objects s' = (objects s)(p \<mapsto> ob)" "otype ob = class_class (env s)"
    using add by (auto simp: class_added_def)
  have st: "p \<notin> dom (objects s)" "methods s' = methods s" "unwinds s' = unwinds s" "env s' = env s"
      "sym_tab s' = sym_tab s" "class_at s' p = Some c"
      "\<And>q k. attr_of s' q k = (if q = p then NULL else attr_of s q k)"
    using add by (simp_all add: class_added_def)
  have "objects s' p = Some ob"
    by (simp add: ob(1))
  with st(6) have "body ob = ClassBody c"
    by (simp add: class_at_Some)
  then have "fits (hook_of s (otype ob)) (body ob)"
    unfolding ob(2) hook by (simp add: fits_def)
  note new = new_object_typed [OF ht st(1) ob(1) this st(7,3)]
  show "heap_typed s'"
    by (rule new(1))
  show "grows s s'"
    by (rule new_object_grows [OF st(1) ob(1) new(2) st(2,4,5)])
qed

section \<open>Sound operations\<close>

text \<open>
  \<open>sound P s m\<close>: when the operation \<open>m\<close>, run in \<open>s\<close>, returns or raises, the state is typed and has
  grown from \<open>s\<close>; a result satisfies \<open>P\<close>.
\<close>

definition sound :: "('a \<Rightarrow> rt \<Rightarrow> bool) \<Rightarrow> rt \<Rightarrow> ('a, rt) outcome \<Rightarrow> bool" where
  "sound P s m \<longleftrightarrow>
     (case m of
        Ret x s' \<Rightarrow> typed s' \<and> grows s s' \<and> P x s'
      | Raised e s' \<Rightarrow> typed s' \<and> grows s s'
      | _ \<Rightarrow> True)"

named_theorems sound_rules \<open>sound operations\<close>

lemma sound_ends [simp]: "sound P s Aborted" "sound P s Exited" "sound P s Undef" "sound P s Diverged"
  by (simp_all add: sound_def)

lemma sound_Ret: "typed s' \<Longrightarrow> grows s s' \<Longrightarrow> P x s' \<Longrightarrow> sound P s (Ret x s')"
  by (simp add: sound_def)

lemma sound_here: "typed s \<Longrightarrow> P x s \<Longrightarrow> sound P s (Ret x s)"
  by (simp add: sound_Ret grows_refl)

lemma sound_Raised: "typed s' \<Longrightarrow> grows s s' \<Longrightarrow> sound P s (Raised e s')"
  by (simp add: sound_def)

lemma sound_weaken: "sound P s m \<Longrightarrow> (\<And>x s'. P x s' \<Longrightarrow> Q x s') \<Longrightarrow> sound Q s m"
  by (simp add: sound_def split: outcome.splits)

lemma sound_later: "sound P s' m \<Longrightarrow> grows s s' \<Longrightarrow> sound P s m"
  by (auto simp: sound_def intro: grows_trans split: outcome.splits)

lemma sound_andthen:
  assumes "sound P s m"
    and "\<And>x s'. typed s' \<Longrightarrow> grows s s' \<Longrightarrow> P x s' \<Longrightarrow> sound Q s' (f x s')"
  shows "sound Q s (andthen m f)"
proof (cases m)
  case (Ret x s')
  with assms(1) have "typed s'" "grows s s'" "P x s'"
    by (simp_all add: sound_def)
  with Ret sound_later [OF assms(2)] show ?thesis
    by simp
next
  case (Raised e s')
  with assms(1) show ?thesis
    by (simp add: sound_def)
qed simp_all

lemma sound_deref: "(\<And>x. m = Some x \<Longrightarrow> sound P s (f x)) \<Longrightarrow> sound P s (deref m f)"
  by (cases m) simp_all

lemma sound_abort_on: "(\<not> c \<Longrightarrow> sound P s m) \<Longrightarrow> sound P s (abort_on c m)"
  by (cases c) simp_all

lemma sound_if: "(c \<Longrightarrow> sound P s m) \<Longrightarrow> (\<not> c \<Longrightarrow> sound P s n) \<Longrightarrow> sound P s (if c then m else n)"
  by simp

text \<open>An operation that only reads.\<close>

definition reads :: "('a \<Rightarrow> bool) \<Rightarrow> 's \<Rightarrow> ('a, 's) outcome \<Rightarrow> bool" where
  "reads P s m \<longleftrightarrow> (case m of Ret x s' \<Rightarrow> s' = s \<and> P x | Raised e s' \<Rightarrow> False | _ \<Rightarrow> True)"

lemma sound_reads: "reads (\<lambda>x. P x s) s m \<Longrightarrow> typed s \<Longrightarrow> sound P s m"
  by (auto simp: reads_def sound_def grows_refl split: outcome.splits)

lemma reads_andthen: "reads P s m \<Longrightarrow> (\<And>x. P x \<Longrightarrow> reads Q s (f x s)) \<Longrightarrow> reads Q s (andthen m f)"
  by (cases m) (simp_all add: reads_def)

lemma typedD:
  assumes "typed s"
  shows "rt_ok s" "memory_ok s" "attrs_wf s" "classes_wf s" "heap_typed s" "env_typed s"
  using assms by (simp_all add: typed_def rt_ok_def memory_ok_def)

abbreviation any :: "'a \<Rightarrow> rt \<Rightarrow> bool" where
  "any x s \<equiv> True"

abbreviation val :: "ptr \<Rightarrow> rt \<Rightarrow> bool" where
  "val v s \<equiv> value_ok s v"

lemma typed_same_objects:
  assumes ok: "typed s" and same: "objects s' = objects s" "attrs s' = attrs s" "methods s' = methods s"
      "unwinds s' = unwinds s" "env s' = env s" "sym_tab s' = sym_tab s" and mem: "memory_ok s'"
  shows "typed s'" "grows s s'"
proof -
  note t = typedD [OF ok]
  note st = same_objects_typed [OF t(5) same]
  show "grows s s'"
    by (rule st(2))
  have "class_at s' = class_at s"
    using same(1) by (simp add: class_at_def fun_eq_iff)
  from classes_wf_cong(1) [OF this same(3)] t(1) mem same(6) have "rt_ok s'"
    by (simp add: rt_ok_def interned_def)
  then show "typed s'"
    by (rule typed_step [OF ok _ st])
qed

lemma typed_mallocs:
  assumes "typed s" and "malloc (mallocs s) = (p, junk, t)"
  shows "typed (s\<lparr>mallocs := t\<rparr>)" "grows s (s\<lparr>mallocs := t\<rparr>)"
  using typed_same_objects [OF assms(1), of "s\<lparr>mallocs := t\<rparr>"] memory_ok_mallocs [OF typedD(2) [OF assms(1)] assms(2)]
  by simp_all

subsection \<open>Symbols, attributes and methods\<close>

lemma str_to_sym_fails:
  assumes "interned s ss" and "x \<notin> set ss"
    and "fst (malloc (mallocs s)) = NULL \<or> \<not> length ss < 2 ^ 31 - 2"
  shows "pup_env_str_to_sym x s = Undef"
proof -
  obtain xs where st: "sym_table_is (sym_tab s) xs ss"
    using assms(1) by (auto simp: interned_def)
  obtain p junk t where m: "malloc (mallocs s) = (p, junk, t)"
    by (cases "malloc (mallocs s)")
  show ?thesis
  proof (cases "length ss < 2 ^ 31 - 2")
    case True
    have "find_entry x (sym_tab s) = Some (At (last_slot Head xs) NULL)"
      by (rule find_entry_new [OF st]) (use assms(2) in \<open>simp add: index_of_None\<close>)
    with True m assms(3) show ?thesis
      by (simp add: pup_env_str_to_sym_def pup_str_to_sym_def entry_create_def)
  next
    case False
    with sym_table_full [OF st assms(2)] show ?thesis
      by (simp add: pup_env_str_to_sym_def)
  qed
qed

lemma str_to_sym_sound [sound_rules]:
  assumes "typed s"
  shows "sound any s (pup_env_str_to_sym x s)"
proof -
  note t = typedD [OF assms]
  obtain ss where ss: "interned s ss"
    using t(1) by (auto simp: rt_ok_def)
  show ?thesis
  proof (cases "x \<in> set ss \<or> fst (malloc (mallocs s)) \<noteq> NULL \<and> length ss < 2 ^ 31 - 2")
    case True
    from str_to_sym_step [OF t(2) ss True] obtain s'
      where s': "pup_env_str_to_sym x s = Ret (symbol_in ss x) s'" "sym_step s ss x s'"
      by blast
    note st = sym_step_typed [OF s'(2) ss t(5)]
    show ?thesis
      unfolding s'(1)
      by (rule sound_Ret [OF typed_step [OF assms sym_step_rt_ok [OF s'(2) t(1)] st] st(2)]) simp
  next
    case False
    with str_to_sym_fails [OF ss, of x] show ?thesis by auto
  qed
qed

lemma iv_get_reads:
  assumes "typed s"
  shows "reads (value_ok s) s (pup_iv_get p k s)"
proof (cases "p \<in> dom (objects s)")
  case True
  with iv_get_attr_of [OF typedD(3) [OF assms] True] heap_typedD(2) [OF typedD(5) [OF assms] True] show ?thesis
    by (simp add: reads_def)
next
  case False
  then have "objects s p = None"
    by auto
  then have "pup_iv_get p k s = Undef"
    by (simp add: pup_iv_get_def find_attr_def)
  then show ?thesis
    by (simp add: reads_def)
qed

lemma iv_get_sound [sound_rules]: "typed s \<Longrightarrow> sound val s (pup_iv_get p k s)"
  by (rule sound_reads [OF iv_get_reads])

lemma iv_set_sound [sound_rules]:
  assumes ok: "typed s" and v: "value_ok s v"
  shows "sound any s (pup_iv_set p k v s)"
proof (cases "p \<in> dom (objects s)")
  case True
  note t = typedD [OF ok]
  from iv_set_step [OF t(2) True, of k v] show ?thesis
  proof (elim disjE exE conjE)
    fix s'
    assume s': "pup_iv_set p k v s = Ret () s'" "attr_step s p k v s'"
    note st = attr_step_typed [OF s'(2) v t(5)]
    show ?thesis
      unfolding s'(1)
      by (rule sound_Ret [OF typed_step [OF ok attr_step_rt_ok [OF s'(2) t(1)] st] st(2)]) simp
  qed simp
next
  case False
  then have "objects s p = None"
    by auto
  then have "pup_iv_set p k v s = Undef"
    by (simp add: pup_iv_set_def find_attr_def)
  then show ?thesis by simp
qed

lemma define_method_sound [sound_rules]:
  assumes ok: "typed s"
  shows "sound any s (pup_define_method p k f s)"
proof (cases "p \<in> dom (class_at s)")
  case True
  note t = typedD [OF ok]
  from define_method_step [OF t(2,4) True, of k f] show ?thesis
  proof (cases "fst (malloc (mallocs s)) = NULL")
    case False
    with define_method_step [OF t(2,4) True, of k f] obtain s' where
      s': "pup_define_method p k f s = Ret () s'" "method_step s p k f s'"
      by auto
    note st = method_step_typed [OF s'(2) t(2,5)]
    have "rt_ok s'"
      using s'(2) t(1) by (auto simp: method_step_def rt_ok_def interned_def same_but_tables_def)
    then show ?thesis
      unfolding s'(1) by (intro sound_Ret [OF typed_step [OF ok _ st] st(2)]) simp_all
  qed simp
next
  case False
  then have "class_at s p = None"
    by auto
  then show ?thesis
    by (cases "p = NULL") (simp_all add: pup_define_method_def)
qed

subsection \<open>New strings and objects\<close>

lemma string_new_sound [sound_rules]:
  assumes ok: "typed s"
  shows "sound val s (pup_string_new_cstr x s)"
proof -
  obtain p junk t where m: "malloc (mallocs s) = (p, junk, t)"
    by (cases "malloc (mallocs s)")
  obtain q junk' t' where m': "malloc t = (q, junk', t')"
    by (cases "malloc t")
  show ?thesis
  proof (cases "p = NULL \<or> x = None")
    case True
    with m typed_mallocs [OF ok m] show ?thesis
      by (auto simp: pup_string_new_cstr_def intro!: sound_Ret split: option.split)
  next
    case False
    then obtain v where x: "x = Some v" and p: "p \<noteq> NULL"
      by auto
    note T = typedD [OF ok]
    let ?ob = "\<lparr>otype = class_string (env s), attr_list_head = NULL, gc_mark = ucast junk,
        body = StringBody (if q = NULL then None else Some v)\<rparr>"
    let ?s' = "s\<lparr>mallocs := t', objects := (objects s)(p \<mapsto> ?ob)\<rparr>"
    have "attr_list_head ?ob = NULL"
      by simp
    note new = string_object_ok [OF T(2) m p m' this]
    have o': "objects ?s' = (objects s)(p \<mapsto> ?ob)"
      by simp
    have c: "the_class ?ob = None"
      by (simp add: the_class_def)
    note fr = added_object_frame [OF o' _ _ new(2) c]
    have "hook_of s (otype ?ob) = Some Alloc_string"
      using T(6) by (simp add: env_typed_def)
    then have f: "fits (hook_of s (otype ?ob)) (body ?ob)"
      by (simp add: fits_def)
    have attr: "attr_of ?s' r k = (if r = p then NULL else attr_of s r k)" for r k
    proof (cases "r = p")
      case True
      then show ?thesis
        by (simp add: attr_of_def pup_iv_get_def find_attr_def search.simps)
    qed (use fr(5) [of r] in simp)
    note ht = new_object_typed [OF T(5) new(2) o' f attr, simplified]
    have g: "grows s ?s'"
      by (rule new_object_grows [OF new(2) o' ht(2)]) simp_all
    have "rt_ok ?s'"
      using new(1) fr(2) T(1) by (simp add: rt_ok_def interned_def)
    then have "typed ?s'"
      by (rule typed_step [OF ok _ ht(1) g])
    moreover have "pup_string_new_cstr x s = Ret p ?s'"
      using m m' p x by (simp add: pup_string_new_cstr_def strdup_def)
    ultimately show ?thesis
      using g by (simp add: sound_def value_ok_def)
  qed
qed

lemma object_sound:
  assumes ok: "typed s" and f: "fits (hook_of s cl) b" and zero: "\<And>c. b = ClassBody c \<Longrightarrow> c = zero_class"
    and m: "m = Aborted \<and> X \<or> (\<exists>p s'. m = Ret p s' \<and> obj_step s p cl b s')"
  shows "sound val s m"
  using m
proof (elim disjE exE conjE)
  fix p s'
  assume s': "m = Ret p s'" "obj_step s p cl b s'"
  note st = obj_step_typed [OF typedD(1,5) [OF ok] s'(2) f zero]
  have "value_ok s' p"
    using s'(2) by (simp add: obj_step_def value_ok_def)
  with s'(1) typed_step [OF ok st] st(3) show ?thesis
    by (simp add: sound_def)
qed simp

lemma string_allocate_step:
  assumes ok: "memory_ok s"
  shows "string_allocate_instance cl s = Aborted \<and> \<not> plenty 1 s \<or>
    (\<exists>p s'. string_allocate_instance cl s = Ret p s' \<and> obj_step s p cl (StringBody None) s')"
proof -
  have sz: "sizeof_PupString \<le> MAX_REGION_ALLOCATION"
    by (simp add: sizeof_PupString_def MAX_REGION_ALLOCATION_def)
  from obj_alloc_step [OF ok sz] show ?thesis
  proof (elim disjE exE conjE)
    fix p s1
    assume a: "pup_alloc_obj sizeof_PupString s = Ret p s1" "alloc_step s PUP_KIND_OBJ p s1"
      "objects s1 p = Some (marked_object (my_mark s))"
    have "string_allocate_instance cl s =
        Ret p (s1\<lparr>objects := (objects s1)(p \<mapsto> new_object cl (my_mark s) (StringBody None))\<rparr>)"
      using a(1,3) by (simp add: string_allocate_instance_def obj_init_def with_object_def
          marked_object_def zero_object_def new_object_def)
    with obj_step_alloc [OF ok a(2)] show ?thesis by blast
  qed (simp add: string_allocate_instance_def)
qed

subsection \<open>Errors and the hooks of classes\<close>

lemma value_grows: "grows s s' \<Longrightarrow> value_ok s v \<Longrightarrow> value_ok s' v"
  using value_ok_grows [of s s' v] by (simp add: grows_def)

lemma raise_sound [sound_rules]:
  assumes ok: "typed s" and x: "value_ok s x"
  shows "sound P s (pup_raise x s)"
proof -
  obtain p junk t where m: "malloc (mallocs s) = (p, junk, t)"
    by (cases "malloc (mallocs s)")
  show ?thesis
  proof (cases "p = NULL")
    case True
    with m show ?thesis
      by (simp add: pup_raise_def create_unwind_exception_def)
  next
    case False
    note T = typedD [OF ok]
    let ?s' = "s\<lparr>unwinds := (unwinds s)(p \<mapsto> \<lparr>pup_exception = x, exception_class = pup_unwindclass\<rparr>),
        mallocs := t\<rparr>"
    note run = raise_run [OF T(1) m False]
    have kinds: "same_kinds s ?s'"
      by (simp add: same_kinds_def)
    have attr: "attr_of ?s' = attr_of s"
      by (intro ext) (simp add: attr_of_def pup_iv_get_def find_attr_def searched_def deref_def
        split: option.splits found.splits)
    have "heap_typed ?s'"
    proof (rule heap_typed_step [OF T(5) kinds])
      fix u
      assume "u \<in> ran (unwinds ?s')"
      then have "u \<in> ran (unwinds s) \<or> pup_exception u = x"
        by (auto simp: ran_def split: if_splits)
      with x show "u \<in> ran (unwinds s) \<or> value_ok ?s' (pup_exception u)"
        by (auto simp: value_ok_def)
    qed (use attr in simp_all)
    moreover have "grows s ?s'"
      by (rule grows_same [OF kinds]) (simp_all add: class_at_def fun_eq_iff)
    ultimately show ?thesis
      unfolding run(1) by (intro sound_Raised typed_step [OF ok run(2)])
  qed
qed

lemma allocate_via_sound:
  assumes ok: "typed s" and hk: "hook_of s cl = Some Alloc_fixnum \<Longrightarrow> sound val s (hk cl s)"
  shows "sound val s (allocate_via hk cl s)"
  unfolding allocate_via_def
proof (intro sound_abort_on sound_deref)
  fix c
  assume c: "class_at s cl = Some c"
  have mem: "memory_ok s"
    by (rule typedD [OF ok])
  show "sound val s (case allocate_instance c of None \<Rightarrow> Aborted | Some a \<Rightarrow> run_alloc_fn hk a cl s)"
  proof (cases "allocate_instance c")
    case (Some a)
    with c have h: "hook_of s cl = Some a"
      by (simp add: hook_of_def)
    have "sound val s (run_alloc_fn hk a cl s)"
    proof (cases a)
      case Alloc_object
      with h show ?thesis
        by (auto simp: run_alloc_fn_def fits_def intro!: object_sound [OF ok _ _ object_allocate_step [OF mem]])
    next
      case Alloc_class
      with h show ?thesis
        by (auto simp: run_alloc_fn_def fits_def intro!: object_sound [OF ok _ _ class_allocate_step [OF mem]])
    next
      case Alloc_string
      with h show ?thesis
        by (auto simp: run_alloc_fn_def fits_def intro!: object_sound [OF ok _ _ string_allocate_step [OF mem]])
    next
      case Alloc_fixnum
      with hk h show ?thesis
        by (simp add: run_alloc_fn_def)
    qed
    with Some show ?thesis by simp
  qed simp
qed

lemma create_via_sound:
  assumes "typed s" and "hook_of s cl = Some Alloc_fixnum \<Longrightarrow> sound val s (hk cl s)"
  shows "sound val s (create_via hk cl s)"
  unfolding create_via_def by (intro sound_abort_on allocate_via_sound assms)

lemma message_set_sound [sound_rules]:
  assumes "typed s" and "value_ok s v"
  shows "sound any s (pup_exception_message_set p v s)"
  unfolding pup_exception_message_set_def
  by (rule sound_andthen [OF str_to_sym_sound [OF assms(1)]]) (rule iv_set_sound, assumption, rule value_grows [OF _ assms(2)])

lemma error_text_sound:
  assumes e: "sound val s m" and ok: "typed s"
  shows "sound val s (andthen m (\<lambda>e s.
    andthen (pup_string_new_cstr txt s) (\<lambda>strg s.
    andthen (pup_exception_message_set e strg s) (\<lambda>_ s. Ret e s))))"
proof (rule sound_andthen [OF e])
  fix x s1
  assume s1: "typed s1" "value_ok s1 x"
  show "sound val s1 (andthen (pup_string_new_cstr txt s1) (\<lambda>strg s.
    andthen (pup_exception_message_set x strg s) (\<lambda>_ s. Ret x s)))"
  proof (rule sound_andthen [OF string_new_sound [OF s1(1)]])
    fix strg s2
    assume s2: "typed s2" "grows s1 s2" "value_ok s2 strg"
    show "sound val s2 (andthen (pup_exception_message_set x strg s2) (\<lambda>_ s. Ret x s))"
    proof (rule sound_andthen [OF message_set_sound [OF s2(1,3)]])
      fix u s3
      assume "typed s3" "grows s2 s3"
      then show "sound val s3 (Ret x s3)"
        using value_grows [OF grows_trans [OF s2(2)] s1(2)] by (intro sound_here)
    qed
  qed
qed

lemma runtimeerror_hook: "typed s \<Longrightarrow> hook_of s (class_runtimeerror (env s)) = Some Alloc_object"
  using typedD(6) [of s] by (simp add: env_typed_def)

lemma runtimeerror_via_sound:
  assumes ok: "typed s"
  shows "sound val s (runtimeerror_via hk m s)"
  unfolding runtimeerror_via_def
  by (rule sound_abort_on, rule error_text_sound [OF create_via_sound [OF ok] ok])
    (simp add: runtimeerror_hook [OF ok])

lemma fixnum_hook_sound [sound_rules]: "typed s \<Longrightarrow> sound P s (fixnum_allocate_instance cl s)"
  unfolding fixnum_allocate_instance_def
  by (rule sound_andthen [OF runtimeerror_via_sound]) (assumption, rule raise_sound)

lemma class_allocate_sound [sound_rules]: "typed s \<Longrightarrow> sound val s (pup_class_allocate_instance cl s)"
  unfolding pup_class_allocate_instance_def by (rule allocate_via_sound) (assumption, rule fixnum_hook_sound)

lemma create_object_sound [sound_rules]: "typed s \<Longrightarrow> sound val s (pup_create_object cl s)"
  unfolding pup_create_object_def by (rule create_via_sound) (assumption, rule fixnum_hook_sound)

lemma raise_runtimeerror_sound [sound_rules]:
  assumes "typed s"
  shows "sound P s (pup_raise_runtimeerror m s)" "sound P s (raise_runtimeerrorf txt s)"
  unfolding pup_raise_runtimeerror_def raise_runtimeerrorf_def pup_new_runtimeerror_def pup_new_runtimeerrorf_def
  using sound_andthen [OF runtimeerror_via_sound [OF assms], of P]
    sound_andthen [OF error_text_sound [OF create_object_sound [OF assms] assms], of P] raise_sound
  by blast+

lemma arity_check_sound [sound_rules]: "typed s \<Longrightarrow> sound any s (pup_arity_check n m s)"
  unfolding pup_arity_check_def by (rule sound_if) (simp_all add: raise_runtimeerror_sound sound_here)

subsection \<open>Reading\<close>

lemma type_name_reads: "reads (\<lambda>_. True) s (pup_type_name c s)" "reads (\<lambda>_. True) s (pup_object_type_name p s)"
  by (auto simp: reads_def pup_object_type_name_def pup_type_name_def deref_def split: option.split)

lemma type_name_sound [sound_rules]:
  "typed s \<Longrightarrow> sound any s (pup_type_name c s)" "typed s \<Longrightarrow> sound any s (pup_object_type_name p s)"
  by (rule sound_reads; simp add: type_name_reads)+

lemma instance_sound [sound_rules]:
  "typed s \<Longrightarrow> sound any s (pup_is_string p s)" "typed s \<Longrightarrow> sound any s (pup_instanceof_exception p s)"
  "typed s \<Longrightarrow> sound any s (pup_string_value_unsafe p s)"
  by (rule sound_reads; simp add: reads_def pup_is_string_def pup_instanceof_exception_def
      pup_object_instanceof_def pup_string_value_unsafe_def deref_def split: option.split body.split)+

lemma class_of_object:
  assumes "typed s" and "objects s p = Some ob"
  shows "\<exists>cs. mro s (otype ob) cs \<and> cs \<noteq> []"
proof -
  have "fits (hook_of s (otype ob)) (body ob)"
    by (rule heap_typedD(1) [OF typedD(5) [OF assms(1)] assms(2)])
  then have c: "otype ob \<in> dom (class_at s)"
    by (auto simp: fits_def hook_of_def split: option.splits)
  then obtain cs where cs: "mro s (otype ob) cs"
    using typedD(4) [OF assms(1)] unfolding classes_wf_def by blast
  obtain b where "objects s (otype ob) = Some b"
    using c by (auto simp: class_at_Some)
  then have "otype ob \<noteq> NULL"
    using heap_wf_tapes(4) [of s] typedD(2) [OF assms(1)] by (auto simp: memory_ok_def)
  then have "cs \<noteq> []"
    using cs by (auto simp: mro_def)
  with cs show ?thesis
    by blast
qed

lemma kindof_sound [sound_rules]:
  assumes "typed s"
  shows "sound any s (pup_object_kindof p c s)"
  unfolding pup_object_kindof_def
proof (rule sound_deref)
  fix ob
  assume "objects s p = Some ob"
  then obtain cs where "mro s (otype ob) cs"
    using class_of_object [OF assms] by blast
  from ancestor_walk_mro [OF this, of c] assms show "sound any s (pup_is_descendant_or_same c (otype ob) s)"
    unfolding pup_is_descendant_or_same_def by (intro sound_abort_on) (simp add: sound_here)
qed

lemma sym_to_str_sound [sound_rules]: "typed s \<Longrightarrow> sound any s (pup_env_sym_to_str y s)"
  by (rule sound_reads)
    (auto simp: reads_def pup_env_sym_to_str_def pup_sym_to_str_def searched_def deref_def
      split: option.split found.split)

lemma strdup_sound [sound_rules]:
  assumes "typed s"
  shows "sound any s (strdup_ret x s)"
proof -
  obtain p junk t where m: "malloc (mallocs s) = (p, junk, t)"
    by (cases "malloc (mallocs s)")
  from typed_mallocs [OF assms m] m show ?thesis
    by (cases x) (simp_all add: strdup_ret_def strdup_def sound_Ret)
qed

lemma message_get_sound [sound_rules]: "typed s \<Longrightarrow> sound val s (pup_exception_message_get p s)"
  unfolding pup_exception_message_get_def
  by (rule sound_andthen [OF str_to_sym_sound]) (assumption, rule iv_get_sound)

lemma string_value_sound [sound_rules]: "typed s \<Longrightarrow> sound any s (pup_string_value p s)"
  unfolding pup_string_value_def
  by (rule sound_andthen [OF instance_sound(1)], assumption, rule sound_if, erule instance_sound(3),
      rule sound_andthen [OF type_name_sound(2)], assumption, erule raise_runtimeerror_sound(2))

lemma exception_text_sound [sound_rules]: "typed s \<Longrightarrow> sound any s (exception_text p s)"
  unfolding exception_text_def
  by (rule sound_andthen [OF message_get_sound], assumption, rule sound_if, erule string_value_sound,
      rule sound_andthen [OF type_name_sound(2)], assumption, rule sound_here) simp_all

lemma default_cstr_sound [sound_rules]: "typed s \<Longrightarrow> sound any s (pup_default_obj_cstr p s)"
  unfolding pup_default_obj_cstr_def
  by (rule sound_andthen [OF type_name_sound(2)], assumption, rule sound_here) simp_all

lemma stringify_sound [sound_rules]: "typed s \<Longrightarrow> sound any s (pup_stringify p s)"
  unfolding pup_stringify_def
proof (rule sound_andthen [OF instance_sound(1)], assumption, rule sound_if, goal_cases)
  case (1 is_str s')
  show ?case
    by (rule sound_andthen [OF instance_sound(3) [OF 1(2)]]) (rule strdup_sound)
next
  case (2 is_str s')
  show ?case
  proof (rule sound_andthen [OF instance_sound(2) [OF 2(2)]], goal_cases)
    case (1 is_exc s1)
    have "sound any s1 (if is_exc then exception_text p s1 else Ret None s1)"
      using 1 by (simp add: exception_text_sound sound_here)
    then show ?case
    proof (rule sound_andthen [where P = any], goal_cases)
      case (1 msg s2)
      then show ?case
        by (intro sound_if strdup_sound sound_andthen [OF default_cstr_sound])
    qed
  qed
qed

section \<open>Methods\<close>

definition args_ok :: "rt \<Rightarrow> argv \<Rightarrow> bool" where
  "args_ok s argv \<longleftrightarrow> (\<forall>xs. argv = Some xs \<longrightarrow> (\<forall>a \<in> set xs. value_ok s a))"

lemma args_grows: "grows s s' \<Longrightarrow> args_ok s argv \<Longrightarrow> args_ok s' argv"
  using value_grows by (auto simp: args_ok_def)

lemma args_None [simp]: "args_ok s None"
  by (simp add: args_ok_def)

lemma nth_arg_ok: "args_ok s argv \<Longrightarrow> nth_arg argv n = Some a \<Longrightarrow> value_ok s a"
  by (auto simp: args_ok_def nth_arg_def split: option.splits if_splits)

lemma truth_ok: "typed s \<Longrightarrow> value_ok s (truth b s)"
  using typedD(6) [of s] by (simp add: truth_def env_typed_def)

lemma one_arg_sound:
  assumes "typed s" and "args_ok s argv"
    and "\<And>a s'. typed s' \<Longrightarrow> value_ok s' a \<Longrightarrow> sound val s' (k a s')"
  shows "sound val s (with_one_arg argc argv k s)"
  unfolding with_one_arg_def
proof (rule sound_andthen [OF arity_check_sound [OF assms(1)]], rule sound_deref)
  fix u s' a
  assume "typed s'" "grows s s'" "nth_arg argv 0 = Some a"
  then show "sound val s' (k a s')"
    using nth_arg_ok [OF args_grows [OF _ assms(2)]] by (intro assms(3))
qed

lemma object_raise_sound: "typed s \<Longrightarrow> args_ok s argv \<Longrightarrow> sound val s (pup_object_raise p n argv s)"
  unfolding pup_object_raise_def
proof (erule (1) one_arg_sound)
  fix a s'
  assume s': "typed s'" "value_ok s' a"
  show "sound val s' (andthen (pup_object_kindof a (class_exception (env s')) s') (\<lambda>is_exc s.
      if is_exc then pup_raise a s
      else andthen (pup_is_string a s) (\<lambda>is_str s.
        if is_str then andthen (pup_string_value_unsafe a s) (\<lambda>v s. pup_raise_runtimeerror v s)
        else pup_raise_runtimeerror (Some ''exception class/object expected'') s)))"
  proof (rule sound_andthen [OF kindof_sound [OF s'(1)]], rule sound_if, goal_cases)
    case (1 x t)
    then show ?case
      using value_grows [OF _ s'(2)] by (intro raise_sound)
  next
    case (2 x t)
    show ?case
      by (rule sound_andthen [OF instance_sound(1) [OF 2(1)]], rule sound_if,
          rule sound_andthen [OF instance_sound(3)], assumption, (rule raise_runtimeerror_sound, assumption)+)
  qed
qed

lemma printed_sound:
  assumes "typed s"
  shows "sound val s (Ret NULL (s\<lparr>stdout := out\<rparr>))"
proof -
  have "attr_chain (s\<lparr>stdout := out\<rparr>) q xs = attr_chain s q xs" for q xs
    by (simp add: attr_chain_def split: option.split)
  moreover have "heap_wf (s\<lparr>stdout := out\<rparr>)"
    by (rule heap_wf_cong [of s]) (use typedD(2) [OF assms] in \<open>simp_all add: memory_ok_def\<close>)
  ultimately have "memory_ok (s\<lparr>stdout := out\<rparr>)"
    using typedD(2) [OF assms] by (simp add: memory_ok_def thread_ready_def attrs_wf_def)
  with typed_same_objects [OF assms] show ?thesis
    by (auto intro!: sound_Ret)
qed

lemma puts_sound:
  assumes "typed s"
  shows "sound val s (pup_puts p n argv s)"
  unfolding pup_puts_def
  by (rule sound_andthen [OF arity_check_sound [OF assms]], intro sound_abort_on sound_deref,
      rule sound_andthen [OF stringify_sound], assumption)
    (simp add: printed_sound split: option.split)

lemma object_to_s_sound: "typed s \<Longrightarrow> sound val s (pup_object_to_s p n argv s)"
  unfolding pup_object_to_s_def by (rule sound_andthen [OF default_cstr_sound]) (assumption, rule string_new_sound)

lemma class_to_s_sound: "typed s \<Longrightarrow> sound val s (pup_class_to_s p n argv s)"
  unfolding pup_class_to_s_def by (intro sound_deref string_new_sound)

lemma exception_to_s_sound:
  assumes "typed s"
  shows "sound val s (pup_exception_to_s p n argv s)"
  unfolding pup_exception_to_s_def
proof (rule sound_andthen [OF type_name_sound(2) [OF assms]], goal_cases)
  case (1 x s1)
  then show ?case
    by (intro sound_andthen [OF exception_text_sound]) (auto simp: string_new_sound split: option.split)
qed

lemma exception_initialize_sound:
  assumes ok: "typed s" and args: "args_ok s argv"
  shows "sound val s (pup_exception_initialize p n argv s)"
  unfolding pup_exception_initialize_def
proof (intro sound_if sound_deref, goal_cases)
  case (1 a)
  show ?case
    by (rule sound_andthen [OF message_set_sound [OF ok nth_arg_ok [OF args 1(2)]]]) (simp add: sound_here)
next
  case 2
  show ?case
    by (rule sound_andthen [OF arity_check_sound [OF ok]]) (simp add: sound_here)
next
  case 3
  show ?case
    by (simp add: sound_here ok)
qed

lemma object_op_equals_sound:
  "typed s \<Longrightarrow> args_ok s argv \<Longrightarrow> sound val s (pup_object_op_equals p n argv s)"
  unfolding pup_object_op_equals_def by (erule (1) one_arg_sound) (simp add: sound_here truth_ok)

lemma fixnum_create_sound [sound_rules]:
  assumes ok: "typed s"
  shows "sound val s (pup_fixnum_create v s)"
proof (rule object_sound [OF ok _ _ fixnum_create_step [OF typedD(2) [OF ok]]])
  show "fits (hook_of s (class_fixnum (env s))) (FixnumBody v)"
    using typedD(6) [OF ok] by (simp add: env_typed_def fits_def)
qed simp

lemma fixnum_plus_sound:
  "typed s \<Longrightarrow> args_ok s argv \<Longrightarrow> sound val s (pup_fixnum_plus p n argv s)"
  unfolding pup_fixnum_plus_def
  by (erule (1) one_arg_sound, intro sound_deref sound_if fixnum_create_sound
      sound_andthen [OF type_name_sound(1)] raise_runtimeerror_sound(2))

lemma fixnum_compare_sound:
  "typed s \<Longrightarrow> args_ok s argv \<Longrightarrow> sound val s (fixnum_compare cmp p n argv s)"
  unfolding fixnum_compare_def
  by (erule (1) one_arg_sound, intro sound_deref sound_if sound_here truth_ok)
    (use truth_ok [of _ False] in \<open>simp_all add: truth_def\<close>)

subsection \<open>Dispatch\<close>

text \<open>
  A dispatcher, or the compiled code of a method, that keeps the types when it is given a receiver
  and arguments that are references.
\<close>

definition keeps_types :: "(ptr \<Rightarrow> 'a \<Rightarrow> argv \<Rightarrow> rt \<Rightarrow> (ptr, rt) outcome) \<Rightarrow> bool" where
  "keeps_types m \<longleftrightarrow>
     (\<forall>p x argv s. typed s \<longrightarrow> value_ok s p \<longrightarrow> args_ok s argv \<longrightarrow> sound val s (m p x argv s))"

definition dispatches_typed :: "dispatcher \<Rightarrow> bool" where
  "dispatches_typed g \<longleftrightarrow> (\<forall>k. keeps_types (\<lambda>p. g p k))"

definition code_typed :: "compiled \<Rightarrow> bool" where
  "code_typed code \<longleftrightarrow> (\<forall>n g. dispatches_typed g \<longrightarrow> keeps_types (code n g))"

lemma keeps_typesD:
  "keeps_types m \<Longrightarrow> typed s \<Longrightarrow> value_ok s p \<Longrightarrow> args_ok s argv \<Longrightarrow> sound val s (m p x argv s)"
  by (simp add: keeps_types_def)

lemma invoke_named_sound:
  assumes g: "dispatches_typed g" and ok: "typed s" "value_ok s p" "args_ok s argv"
  shows "sound val s (invoke_named g p nm n argv s)"
  unfolding invoke_named_def
proof (rule sound_andthen [OF str_to_sym_sound [OF ok(1)]])
  fix sy s'
  assume s': "typed s'" "grows s s'"
  have "keeps_types (\<lambda>p. g p (scast sy))"
    using g by (simp add: dispatches_typed_def)
  from keeps_typesD [OF this s'(1) value_grows [OF s'(2) ok(2)] args_grows [OF s'(2) ok(3)]]
  show "sound val s' (g p (scast sy) n argv s')" .
qed

lemma class_new_sound:
  assumes g: "dispatches_typed g" and ok: "typed s" "value_ok s p" "args_ok s argv"
  shows "sound val s (pup_class_new g p n argv s)"
  unfolding pup_class_new_def
proof (rule sound_andthen [OF invoke_named_sound [OF g ok(1,2) args_None]])
  fix x s1
  assume s1: "typed s1" "grows s s1" "value_ok s1 x"
  show "sound val s1 (andthen (invoke_named g x ''initialize'' n argv s1) (\<lambda>_ s. Ret x s))"
    by (rule sound_andthen [OF invoke_named_sound [OF g s1(1,3) args_grows [OF s1(2) ok(3)]]])
      (simp add: sound_here value_grows [OF _ s1(3)])
qed

lemma sym_name_sound: "typed s \<Longrightarrow> sound any s (sym_name y s)"
  unfolding sym_name_def
  by (rule sound_andthen [OF sym_to_str_sound]) (auto simp: strdup_sound split: option.split)

lemma undefined_method_sound:
  assumes "typed s"
  shows "sound val s (undefined_method p k s)"
  unfolding undefined_method_def
proof (rule sound_andthen [OF sym_name_sound [OF assms]], goal_cases)
  case (1 x s1)
  then show ?case
    by (intro sound_andthen [OF type_name_sound(2)]) (auto simp: raise_runtimeerror_sound split: option.split)
qed

lemma call_method_sound:
  assumes code: "code_typed code" and g: "dispatches_typed g"
  shows "keeps_types (call_method code g f)"
  unfolding keeps_types_def
proof (intro allI impI)
  fix p n argv s
  assume ok: "typed s" "value_ok s p" "args_ok s argv"
  show "sound val s (call_method code g f p n argv s)"
  proof (cases f)
    case (Compiled m)
    have "keeps_types (code m g)"
      using code g by (simp add: code_typed_def)
    with Compiled ok show ?thesis
      by (simp add: call_method_def keeps_typesD)
  qed (simp_all add: call_method_def pup_object_initialize_def sound_here pup_object_allocate_def
      pup_exception_message_def pup_fixnum_op_equals_def pup_fixnum_op_lessthan_def ok
      object_raise_sound puts_sound object_op_equals_sound class_new_sound [OF g] class_allocate_sound
      class_to_s_sound exception_initialize_sound message_get_sound fixnum_plus_sound fixnum_compare_sound)
qed

lemma invoke_sound:
  assumes code: "code_typed code"
  shows "dispatches_typed (pup_invoke code d)"
proof (induction d)
  case 0
  show ?case
    by (simp add: dispatches_typed_def keeps_types_def pup_invoke.simps)
next
  case (Suc d)
  show ?case
    unfolding dispatches_typed_def keeps_types_def
  proof (intro allI impI)
    fix k p n argv s
    assume ok: "typed s" "value_ok s p" "args_ok s argv"
    show "sound val s (pup_invoke code (Suc d) p k n argv s)"
    proof (cases "p = NULL")
      case True
      then show ?thesis by (simp add: pup_invoke.simps)
    next
      case False
      with ok(2) obtain ob where ob: "objects s p = Some ob"
        by (auto simp: value_ok_def)
      obtain cs where cs: "mro s (otype ob) cs" "cs \<noteq> []"
        using class_of_object [OF ok(1) ob] by blast
      note run = invoke_found [OF typedD(4) [OF ok(1)] ob False cs, of code d k n argv]
      show ?thesis
        unfolding run
        using undefined_method_sound [OF ok(1)] keeps_typesD [OF call_method_sound [OF code Suc.IH] ok]
        by (simp split: option.split)
    qed
  qed
qed

end
