(* ===== verification/RefQueue.thy ===== *)
theory RefQueue
  imports Objects "HOL-Library.Multiset"
begin

text \<open>
  The queue of references to mark: the segments of gc/refqueue.c and the functions of gc.c that add
  to it and take from it.  A segment holds up to 200 references; the full ones are in a list whose
  head is in the collector's state, and the one being filled is a variable of the caller.  The
  functions are the calls of one thread; how the compare-and-swaps of several interleave is the
  subject of another theory.
\<close>

section \<open>Segments\<close>

definition REF_QUEUE_SEGMENT_SIZE :: nat where
  "REF_QUEUE_SEGMENT_SIZE = 200"

definition with_segment ::
    "ptr \<Rightarrow> (ref_queue_segment \<Rightarrow> ref_queue_segment) \<Rightarrow> rt \<Rightarrow> (unit, rt) outcome" where
  "with_segment p f s =
     deref (segments s p) (\<lambda>g. Ret () (s\<lparr>segments := (segments s)(p \<mapsto> f g)\<rparr>))"

definition pup_refqueuesegment_set_next :: "ptr \<Rightarrow> ptr \<Rightarrow> rt \<Rightarrow> (unit, rt) outcome" where
  "pup_refqueuesegment_set_next seg nx s = with_segment seg (next_segment_update (\<lambda>_. nx)) s"

definition pup_refqueuesegment_get_next :: "ptr \<Rightarrow> rt \<Rightarrow> (ptr, rt) outcome" where
  "pup_refqueuesegment_get_next seg s = deref (segments s seg) (\<lambda>g. Ret (next_segment g) s)"

text \<open>The members of the new block are what malloc left there until they are set.\<close>

definition pup_refqueuesegment_create :: "rt \<Rightarrow> (ptr, rt) outcome" where
  "pup_refqueuesegment_create s =
     (case malloc (mallocs s) of (seg, junk, t) \<Rightarrow>
        if seg = NULL then Ret NULL (s\<lparr>mallocs := t\<rparr>)
        else
          andthen (pup_refqueuesegment_set_next seg NULL
            (s\<lparr>mallocs := t, segments := (segments s)(seg \<mapsto>
               \<lparr>next_segment = junk, in_use = unat junk,
                refs = replicate REF_QUEUE_SEGMENT_SIZE junk\<rparr>)\<rparr>)) (\<lambda>_ s.
          andthen (with_segment seg (in_use_update (\<lambda>_. 0)) s) (\<lambda>_ s. Ret seg s)))"

definition pup_refqueuesegment_destroy :: "ptr \<Rightarrow> rt \<Rightarrow> (unit, rt) outcome" where
  "pup_refqueuesegment_destroy seg s = Ret () (s\<lparr>segments := (segments s)(seg := None)\<rparr>)"

definition pup_refqueueseqment_has_free_space :: "ptr \<Rightarrow> rt \<Rightarrow> (bool, rt) outcome" where
  "pup_refqueueseqment_has_free_space seg s =
     deref (segments s seg) (\<lambda>g. Ret (in_use g < REF_QUEUE_SEGMENT_SIZE) s)"

text \<open>A store past the array is undefined.\<close>

definition add_unchecked :: "ptr \<Rightarrow> ptr \<Rightarrow> rt \<Rightarrow> (unit, rt) outcome" where
  "add_unchecked seg ref s =
     deref (segments s seg) (\<lambda>g.
       if in_use g < length (refs g) then
         with_segment seg (\<lambda>g. g\<lparr>refs := (refs g)[in_use g := ref], in_use := Suc (in_use g)\<rparr>) s
       else Undef)"

definition pup_refqueuesegment_add :: "ptr \<Rightarrow> ptr \<Rightarrow> rt \<Rightarrow> (unit, rt) outcome" where
  "pup_refqueuesegment_add seg ref s =
     andthen (pup_refqueueseqment_has_free_space seg s) (\<lambda>room s.
       abort_on (\<not> room) (add_unchecked seg ref s))"

section \<open>The global queue\<close>

definition with_gc :: "(gc_state \<Rightarrow> gc_state) \<Rightarrow> rt \<Rightarrow> (unit, rt) outcome" where
  "with_gc f s = deref (gc s) (\<lambda>g. Ret () (s\<lparr>gc := Some (f g)\<rparr>))"

definition get_ref_queue_head :: "rt \<Rightarrow> (ptr, rt) outcome" where
  "get_ref_queue_head s = deref (gc s) (\<lambda>g. Ret (reference_queue_head g) s)"

definition set_ref_queue_head :: "ptr \<Rightarrow> rt \<Rightarrow> (unit, rt) outcome" where
  "set_ref_queue_head seg s = with_gc (reference_queue_head_update (\<lambda>_. seg)) s"

definition compare_and_swap_ref_queue_head :: "ptr \<Rightarrow> ptr \<Rightarrow> rt \<Rightarrow> (bool, rt) outcome" where
  "compare_and_swap_ref_queue_head old_head new_head s =
     deref (gc s) (\<lambda>g.
       if reference_queue_head g = old_head
       then Ret True (s\<lparr>gc := Some (g\<lparr>reference_queue_head := new_head\<rparr>)\<rparr>)
       else Ret False s)"

definition add_segment_to_global_queue :: "ptr \<Rightarrow> rt \<Rightarrow> (unit, rt) outcome" where
  "add_segment_to_global_queue segment s =
     of_loop (retry (\<lambda>s.
       andthen (get_ref_queue_head s) (\<lambda>head s.
       andthen (pup_refqueuesegment_set_next segment head s) (\<lambda>_ s.
       andthen (compare_and_swap_ref_queue_head head segment s) (\<lambda>swapped s.
         Ret (if swapped then Some () else None) s)))) s)"

definition steal_segment_from_global_queue :: "rt \<Rightarrow> (ptr, rt) outcome" where
  "steal_segment_from_global_queue s =
     of_loop (retry (\<lambda>s.
       andthen (get_ref_queue_head s) (\<lambda>head s.
         if head = NULL then Ret (Some NULL) s
         else
           andthen (pup_refqueuesegment_get_next head s) (\<lambda>nx s.
           andthen (compare_and_swap_ref_queue_head head nx s) (\<lambda>swapped s.
             Ret (if swapped then Some head else None) s)))) s)"

text \<open>
  \<open>ref_queue_segment\<close> points to the caller's variable: the function takes its value and returns the
  new one.  \<open>ref\<close> points to a reference, which is read at the end.
\<close>

definition queue_for_marking ::
    "(rt \<Rightarrow> ptr option) \<Rightarrow> ptr \<Rightarrow> rt \<Rightarrow> (ptr, rt) outcome" where
  "queue_for_marking ref segment s =
     andthen
       (if segment = NULL then pup_refqueuesegment_create s
        else
          andthen (pup_refqueueseqment_has_free_space segment s) (\<lambda>room s.
            if \<not> room then
              andthen (add_segment_to_global_queue segment s) (\<lambda>_ s. pup_refqueuesegment_create s)
            else Ret segment s))
       (\<lambda>segment s.
         abort_on (segment = NULL)
           (deref (ref s) (\<lambda>r.
            andthen (pup_refqueuesegment_add segment r s) (\<lambda>_ s. Ret segment s))))"

definition pup_gc_queue_for_marking :: "(rt \<Rightarrow> ptr option) \<Rightarrow> rt \<Rightarrow> (unit, rt) outcome" where
  "pup_gc_queue_for_marking ref s =
     deref (gc s) (\<lambda>g.
     andthen (queue_for_marking ref (current_segment g) s) (\<lambda>segment s.
       with_gc (current_segment_update (\<lambda>_. segment)) s))"

section \<open>The invariant of the queue\<close>

definition segment_ok :: "ref_queue_segment \<Rightarrow> bool" where
  "segment_ok g \<longleftrightarrow> length (refs g) = REF_QUEUE_SEGMENT_SIZE \<and> in_use g \<le> REF_QUEUE_SEGMENT_SIZE"

definition contents :: "ref_queue_segment \<Rightarrow> ptr list" where
  "contents g = take (in_use g) (refs g)"

definition refs_at :: "rt \<Rightarrow> ptr \<Rightarrow> ptr list" where
  "refs_at s p = (case segments s p of None \<Rightarrow> [] | Some g \<Rightarrow> contents g)"

text \<open>
  The queue: its segments are a list that ends, apart from the one being filled; every segment is
  within its bounds, and malloc has not given any of them away.
\<close>

definition queue_segments :: "rt \<Rightarrow> ptr list \<Rightarrow> bool" where
  "queue_segments s qs \<longleftrightarrow>
     (\<exists>g. gc s = Some g \<and> chain (segments s) next_segment (reference_queue_head g) qs)"

definition queue_ok :: "rt \<Rightarrow> ptr \<Rightarrow> ptr list \<Rightarrow> bool" where
  "queue_ok s cur qs \<longleftrightarrow>
     heap_wf s \<and> queue_segments s qs \<and> cur \<notin> set qs \<and> (cur \<noteq> NULL \<longrightarrow> cur \<in> dom (segments s)) \<and>
     NULL \<notin> dom (segments s) \<and> (\<forall>p g. segments s p = Some g \<longrightarrow> segment_ok g)"

text \<open>Everything waiting to be marked.\<close>

definition queued :: "rt \<Rightarrow> ptr \<Rightarrow> ptr list \<Rightarrow> ptr multiset" where
  "queued s cur qs = mset (refs_at s cur) + mset (concat (map (refs_at s) qs))"

text \<open>What the functions of the queue leave alone.\<close>

definition gc_key :: "gc_state \<Rightarrow> u64 \<times> i32 \<times> i32 \<times> ptr" where
  "gc_key g = (live_mark_value g, garbage_count g, live_count g, copy_target g)"

definition queue_frame :: "rt \<Rightarrow> rt \<Rightarrow> bool" where
  "queue_frame s s' \<longleftrightarrow>
     objects s' = objects s \<and> attrs s' = attrs s \<and> methods s' = methods s \<and> heap s' = heap s \<and>
     unwinds s' = unwinds s \<and> sym_tab s' = sym_tab s \<and> env s' = env s \<and> self s' = self s \<and>
     mmaps s' = mmaps s \<and> stdout s' = stdout s \<and>
     map_option gc_key (gc s') = map_option gc_key (gc s)"

lemma queue_frame_refl [simp]: "queue_frame s s"
  by (simp add: queue_frame_def)

lemma queue_frame_trans: "queue_frame s s' \<Longrightarrow> queue_frame s' s'' \<Longrightarrow> queue_frame s s''"
  by (simp add: queue_frame_def)

lemma contents_length: "segment_ok g \<Longrightarrow> length (contents g) = in_use g"
  by (simp add: contents_def segment_ok_def)

lemma contents_snoc:
  assumes "in_use g < length (refs g)"
  shows "contents (g\<lparr>refs := (refs g)[in_use g := r], in_use := Suc (in_use g)\<rparr>) = contents g @ [r]"
  using assms by (simp add: contents_def take_Suc_conv_app_nth)

lemma queue_segments_unique: "queue_segments s qs \<Longrightarrow> queue_segments s ps \<Longrightarrow> qs = ps"
  by (auto simp: queue_segments_def intro: chain_unique)

lemma queue_segments_in: "queue_segments s qs \<Longrightarrow> q \<in> set qs \<Longrightarrow> q \<noteq> NULL \<and> q \<in> dom (segments s)"
  by (auto simp: queue_segments_def dest: chain_in_dom)

text \<open>A segment that has been taken off the queue stays as it is, and out of use.\<close>

definition idle_kept :: "rt \<Rightarrow> ptr list \<Rightarrow> ptr list \<Rightarrow> rt \<Rightarrow> bool" where
  "idle_kept s used used' s' \<longleftrightarrow>
     (\<forall>q \<in> dom (segments s) - set used. segments s' q = segments s q \<and> q \<notin> set used')"

lemma idle_kept_refl [simp]: "idle_kept s used used s"
  by (simp add: idle_kept_def)

lemma idle_kept_trans:
  assumes "idle_kept s used used1 s1" and "idle_kept s1 used1 used2 s2"
  shows "idle_kept s used used2 s2"
  unfolding idle_kept_def
proof
  fix q
  assume q: "q \<in> dom (segments s) - set used"
  then have 1: "segments s1 q = segments s q" "q \<notin> set used1"
    using assms(1) by (auto simp: idle_kept_def)
  with q have "q \<in> dom (segments s1) - set used1"
    by auto
  then have "segments s2 q = segments s1 q \<and> q \<notin> set used2"
    using assms(2) by (simp add: idle_kept_def)
  with 1 show "segments s2 q = segments s q \<and> q \<notin> set used2"
    by simp
qed

section \<open>The operations\<close>

lemma add_segment_once:
  assumes "gc s = Some g" and "segments s seg = Some sg"
  shows "add_segment_to_global_queue seg s = Ret ()
    (s\<lparr>segments := (segments s)(seg \<mapsto> sg\<lparr>next_segment := reference_queue_head g\<rparr>),
       gc := Some (g\<lparr>reference_queue_head := seg\<rparr>)\<rparr>)"
  unfolding add_segment_to_global_queue_def
  by (rule retry_once)
    (use assms in \<open>simp add: get_ref_queue_head_def pup_refqueuesegment_set_next_def with_segment_def
      compare_and_swap_ref_queue_head_def\<close>)

lemma steal_segment_once:
  assumes "gc s = Some g"
  shows "steal_segment_from_global_queue s =
    (if reference_queue_head g = NULL then Ret NULL s
     else deref (segments s (reference_queue_head g)) (\<lambda>sg.
       Ret (reference_queue_head g) (s\<lparr>gc := Some (g\<lparr>reference_queue_head := next_segment sg\<rparr>)\<rparr>)))"
  unfolding steal_segment_from_global_queue_def
  by (cases "segments s (reference_queue_head g)")
    (use assms in \<open>simp_all add: retry.simps get_ref_queue_head_def pup_refqueuesegment_get_next_def
      compare_and_swap_ref_queue_head_def\<close>)

lemma segment_create_run:
  assumes "malloc (mallocs s) = (p, junk, t)"
  shows "pup_refqueuesegment_create s =
    (if p = NULL then Ret NULL (s\<lparr>mallocs := t\<rparr>)
     else Ret p (s\<lparr>mallocs := t, segments := (segments s)(p \<mapsto>
       \<lparr>next_segment = 0, in_use = 0, refs = replicate REF_QUEUE_SEGMENT_SIZE junk\<rparr>)\<rparr>))"
  using assms by (simp add: pup_refqueuesegment_create_def pup_refqueuesegment_set_next_def with_segment_def)

text \<open>A full segment goes to the front of the list.\<close>

lemma add_segment_step:
  assumes ok: "queue_ok s cur qs" and cur: "cur \<noteq> NULL"
  shows "\<exists>s'. add_segment_to_global_queue cur s = Ret () s' \<and> queue_ok s' NULL (cur # qs) \<and>
    queued s' NULL (cur # qs) = queued s cur qs \<and> queue_frame s s' \<and> mallocs s' = mallocs s \<and>
    refs_at s' = refs_at s \<and> map_option current_segment (gc s') = map_option current_segment (gc s) \<and>
    idle_kept s (cur # qs) (NULL # cur # qs) s'"
proof -
  obtain g where g: "gc s = Some g" "chain (segments s) next_segment (reference_queue_head g) qs"
    using ok by (auto simp: queue_ok_def queue_segments_def)
  obtain sg where sg: "segments s cur = Some sg"
    using ok cur by (auto simp: queue_ok_def)
  let ?s = "s\<lparr>segments := (segments s)(cur \<mapsto> sg\<lparr>next_segment := reference_queue_head g\<rparr>),
       gc := Some (g\<lparr>reference_queue_head := cur\<rparr>)\<rparr>"
  have notin: "cur \<notin> set qs"
    using ok by (simp add: queue_ok_def)
  have refs: "refs_at ?s = refs_at s"
    using sg by (auto simp: refs_at_def contents_def fun_eq_iff)
  have null: "segments s NULL = None"
    using ok by (auto simp: queue_ok_def)
  have "heap_wf ?s"
    by (rule heap_wf_cong [of s]) (use ok sg in \<open>auto simp: queue_ok_def\<close>)
  then have "queue_ok ?s NULL (cur # qs)"
    using ok g sg notin cur chain_in_dom [OF g(2)]
    by (auto simp: queue_ok_def queue_segments_def segment_ok_def)
  moreover have "queued ?s NULL (cur # qs) = queued s cur qs"
    using null cur by (simp add: queued_def refs, simp add: refs_at_def)
  moreover have "queue_frame s ?s"
    using g by (simp add: queue_frame_def gc_key_def)
  moreover have "idle_kept s (cur # qs) (NULL # cur # qs) ?s"
    using null by (auto simp: idle_kept_def)
  ultimately show ?thesis
    using add_segment_once [OF g(1) sg] g(1) refs by (intro exI [of _ ?s]) simp
qed

text \<open>A new segment is empty.\<close>

lemma segment_create_step:
  assumes ok: "queue_ok s NULL qs"
  shows "if fst (malloc (mallocs s)) = NULL
    then \<exists>s'. pup_refqueuesegment_create s = Ret NULL s'
    else \<exists>p s'. pup_refqueuesegment_create s = Ret p s' \<and> p \<noteq> NULL \<and> queue_ok s' p qs \<and>
      queued s' p qs = queued s NULL qs \<and> refs_at s' p = [] \<and> queue_frame s s' \<and> gc s' = gc s \<and>
      idle_kept s (NULL # qs) (p # qs) s'"
proof -
  obtain p junk t where m: "malloc (mallocs s) = (p, junk, t)"
    by (cases "malloc (mallocs s)")
  show ?thesis
  proof (cases "p = NULL")
    case True
    with segment_create_run [OF m] m show ?thesis by simp
  next
    case False
    let ?g = "\<lparr>next_segment = 0, in_use = 0, refs = replicate REF_QUEUE_SEGMENT_SIZE junk\<rparr>"
    let ?s = "s\<lparr>mallocs := t, segments := (segments s)(p \<mapsto> ?g)\<rparr>"
    have wf: "heap_wf s" and null: "segments s NULL = None"
      using ok by (auto simp: queue_ok_def)
    have "p \<notin> malloced s"
      using fresh_tape_head [OF heap_wf_tapes(2) [OF wf] m False] by simp
    then have new: "p \<notin> dom (segments s)"
      by (simp add: malloced_def)
    obtain g where g: "gc s = Some g" "chain (segments s) next_segment (reference_queue_head g) qs"
      using ok by (auto simp: queue_ok_def queue_segments_def)
    have notin: "p \<notin> set qs"
      using chain_in_dom [OF g(2)] new by blast
    have refs: "refs_at ?s q = (if q = p then [] else refs_at s q)" for q
      by (simp add: refs_at_def contents_def)
    have map: "map (refs_at ?s) qs = map (refs_at s) qs"
      using notin by (intro map_cong) (auto simp: refs)
    have "heap_wf ?s"
      by (rule heap_wf_malloc [OF wf m False]) (auto simp: malloced_def)
    then have "queue_ok ?s p qs"
      using ok g notin False by (auto simp: queue_ok_def queue_segments_def segment_ok_def)
    moreover have "queued ?s p qs = queued s NULL qs"
      using null by (simp add: queued_def map, simp add: refs, simp add: refs_at_def)
    moreover have "queue_frame s ?s"
      by (simp add: queue_frame_def)
    moreover have "idle_kept s (NULL # qs) (p # qs) ?s"
      using new by (auto simp: idle_kept_def)
    ultimately show ?thesis
      using segment_create_run [OF m] False m refs by (auto simp del: fun_upd_apply)
  qed
qed

text \<open>Adding to a segment with a free place.\<close>

lemma segment_add_step:
  assumes ok: "queue_ok s cur qs" and cur: "cur \<noteq> NULL"
    and room: "length (refs_at s cur) < REF_QUEUE_SEGMENT_SIZE"
  shows "\<exists>s'. pup_refqueuesegment_add cur r s = Ret () s' \<and> queue_ok s' cur qs \<and>
    queued s' cur qs = add_mset r (queued s cur qs) \<and> queue_frame s s' \<and> gc s' = gc s \<and>
    idle_kept s (cur # qs) (cur # qs) s' \<and> refs_at s' cur \<noteq> []"
proof -
  obtain sg where sg: "segments s cur = Some sg" "segment_ok sg"
    using ok cur by (auto simp: queue_ok_def)
  have use: "in_use sg < REF_QUEUE_SEGMENT_SIZE" "in_use sg < length (refs sg)"
    using room sg contents_length [OF sg(2)] by (auto simp: refs_at_def segment_ok_def)
  let ?g = "sg\<lparr>refs := (refs sg)[in_use sg := r], in_use := Suc (in_use sg)\<rparr>"
  let ?s = "s\<lparr>segments := (segments s)(cur \<mapsto> ?g)\<rparr>"
  obtain g where g: "gc s = Some g" "chain (segments s) next_segment (reference_queue_head g) qs"
    using ok by (auto simp: queue_ok_def queue_segments_def)
  have notin: "cur \<notin> set qs"
    using ok by (simp add: queue_ok_def)
  have run: "pup_refqueuesegment_add cur r s = Ret () ?s"
    using sg use by (simp add: pup_refqueuesegment_add_def pup_refqueueseqment_has_free_space_def
        add_unchecked_def with_segment_def)
  have refs: "refs_at ?s q = (if q = cur then refs_at s cur @ [r] else refs_at s q)" for q
    using contents_snoc [OF use(2)] sg by (simp add: refs_at_def)
  have map: "map (refs_at ?s) qs = map (refs_at s) qs"
    using notin by (intro map_cong) (auto simp: refs)
  have "heap_wf ?s"
    by (rule heap_wf_cong [of s]) (use ok sg in \<open>auto simp: queue_ok_def\<close>)
  then have "queue_ok ?s cur qs"
    using ok g sg use notin cur by (auto simp: queue_ok_def queue_segments_def segment_ok_def)
  moreover have "queued ?s cur qs = add_mset r (queued s cur qs)"
    by (simp add: queued_def map, simp add: refs)
  moreover have "queue_frame s ?s"
    by (simp add: queue_frame_def)
  moreover have "idle_kept s (cur # qs) (cur # qs) ?s"
    by (auto simp: idle_kept_def)
  ultimately show ?thesis
    using run refs [of cur] by (intro exI [of _ ?s]) simp
qed

text \<open>No place left in the segment being filled, or no such segment.\<close>

definition needs_segment :: "rt \<Rightarrow> ptr \<Rightarrow> bool" where
  "needs_segment s cur \<longleftrightarrow> cur = NULL \<or> length (refs_at s cur) = REF_QUEUE_SEGMENT_SIZE"

lemma refs_at_bound: "queue_ok s cur qs \<Longrightarrow> length (refs_at s p) \<le> REF_QUEUE_SEGMENT_SIZE"
  by (cases "segments s p") (auto simp: queue_ok_def refs_at_def contents_length segment_ok_def)

lemma free_space_iff:
  assumes "queue_ok s cur qs" and "cur \<noteq> NULL"
  shows "pup_refqueueseqment_has_free_space cur s = Ret (\<not> needs_segment s cur) s"
proof -
  obtain sg where sg: "segments s cur = Some sg" "segment_ok sg"
    using assms by (auto simp: queue_ok_def)
  have "in_use sg < REF_QUEUE_SEGMENT_SIZE \<longleftrightarrow> \<not> needs_segment s cur"
    using sg assms(2) contents_length [OF sg(2)] by (auto simp: needs_segment_def refs_at_def segment_ok_def)
  with sg show ?thesis
    by (simp add: pup_refqueueseqment_has_free_space_def)
qed

definition queue_step :: "rt \<Rightarrow> ptr \<Rightarrow> ptr list \<Rightarrow> ptr \<Rightarrow> ptr \<Rightarrow> ptr list \<Rightarrow> rt \<Rightarrow> bool" where
  "queue_step s cur qs r cur' qs' s' \<longleftrightarrow>
     cur' \<noteq> NULL \<and> queue_ok s' cur' qs' \<and> queued s' cur' qs' = add_mset r (queued s cur qs) \<and>
     queue_frame s s' \<and> map_option current_segment (gc s') = map_option current_segment (gc s) \<and>
     idle_kept s (cur # qs) (cur' # qs') s' \<and> refs_at s' cur' \<noteq> []"

text \<open>The same references, with another segment to fill.\<close>

definition queue_moved :: "rt \<Rightarrow> ptr \<Rightarrow> ptr list \<Rightarrow> ptr \<Rightarrow> ptr list \<Rightarrow> rt \<Rightarrow> bool" where
  "queue_moved s cur qs cur' qs' s' \<longleftrightarrow>
     queue_ok s' cur' qs' \<and> queued s' cur' qs' = queued s cur qs \<and> queue_frame s s' \<and>
     map_option current_segment (gc s') = map_option current_segment (gc s) \<and>
     idle_kept s (cur # qs) (cur' # qs') s'"

lemma queue_moved_refl: "queue_ok s cur qs \<Longrightarrow> queue_moved s cur qs cur qs s"
  by (auto simp: queue_moved_def queue_frame_def idle_kept_def)

lemma fill_step:
  assumes moved: "queue_moved s cur qs c ps s1" and c: "c \<noteq> NULL" "length (refs_at s1 c) < REF_QUEUE_SEGMENT_SIZE"
    and ref: "\<And>s'. queue_frame s s' \<Longrightarrow> ref s' = Some r"
  shows "\<exists>s2. deref (ref s1) (\<lambda>r. andthen (pup_refqueuesegment_add c r s1) (\<lambda>_ s. Ret c s)) = Ret c s2 \<and>
    queue_step s cur qs r c ps s2"
proof -
  have m: "queue_ok s1 c ps" "queued s1 c ps = queued s cur qs" "queue_frame s s1"
      "map_option current_segment (gc s1) = map_option current_segment (gc s)" "idle_kept s (cur # qs) (c # ps) s1"
    using moved by (simp_all add: queue_moved_def)
  obtain s2 where s2: "pup_refqueuesegment_add c r s1 = Ret () s2" "queue_ok s2 c ps"
      "queued s2 c ps = add_mset r (queued s1 c ps)" "queue_frame s1 s2" "gc s2 = gc s1"
      "idle_kept s1 (c # ps) (c # ps) s2" "refs_at s2 c \<noteq> []"
    using segment_add_step [OF m(1) c] by blast
  have "queue_step s cur qs r c ps s2"
    using c(1) m(2,4) s2 queue_frame_trans [OF m(3) s2(4)] idle_kept_trans [OF m(5) s2(6)]
    by (simp add: queue_step_def)
  with s2(1) ref [OF m(3)] show ?thesis by simp
qed

lemma new_segment_step:
  assumes moved: "queue_moved s cur qs NULL ps s1" and mallocs: "mallocs s1 = mallocs s"
    and ref: "\<And>s'. queue_frame s s' \<Longrightarrow> ref s' = Some r"
  defines "run \<equiv> andthen (pup_refqueuesegment_create s1) (\<lambda>c s.
    abort_on (c = NULL) (deref (ref s) (\<lambda>r. andthen (pup_refqueuesegment_add c r s) (\<lambda>_ s. Ret c s))))"
  shows "if fst (malloc (mallocs s)) = NULL then run = Aborted
    else \<exists>cur' s' qs'. run = Ret cur' s' \<and> queue_step s cur qs r cur' qs' s'"
proof -
  have m: "queue_ok s1 NULL ps" "queued s1 NULL ps = queued s cur qs" "queue_frame s s1"
      "map_option current_segment (gc s1) = map_option current_segment (gc s)" "idle_kept s (cur # qs) (NULL # ps) s1"
    using moved by (simp_all add: queue_moved_def)
  show ?thesis
  proof (cases "fst (malloc (mallocs s)) = NULL")
    case True
    with segment_create_step [OF m(1)] mallocs show ?thesis
      by (auto simp: run_def)
  next
    case False
    then obtain c s2 where s2: "pup_refqueuesegment_create s1 = Ret c s2" "c \<noteq> NULL" "queue_ok s2 c ps"
        "queued s2 c ps = queued s1 NULL ps" "refs_at s2 c = []" "queue_frame s1 s2" "gc s2 = gc s1"
        "idle_kept s1 (NULL # ps) (c # ps) s2"
      using segment_create_step [OF m(1)] mallocs by auto
    have "queue_moved s cur qs c ps s2"
      using s2 m(2,4) queue_frame_trans [OF m(3) s2(6)] idle_kept_trans [OF m(5) s2(8)]
      by (simp add: queue_moved_def)
    moreover have "length (refs_at s2 c) < REF_QUEUE_SEGMENT_SIZE"
      using s2(5) by (simp add: REF_QUEUE_SEGMENT_SIZE_def)
    ultimately show ?thesis
      using fill_step [OF _ s2(2) _ ref] s2(1,2) False unfolding run_def by fastforce
  qed
qed

lemma queue_for_marking_step:
  assumes ok: "queue_ok s cur qs" and ref: "\<And>s'. queue_frame s s' \<Longrightarrow> ref s' = Some r"
  shows "if needs_segment s cur \<and> fst (malloc (mallocs s)) = NULL
    then queue_for_marking ref cur s = Aborted
    else \<exists>cur' s' qs'. queue_for_marking ref cur s = Ret cur' s' \<and> queue_step s cur qs r cur' qs' s'"
proof (cases "cur = NULL")
  case True
  with queue_moved_refl [OF ok] have "queue_moved s cur qs NULL qs s"
    by simp
  from new_segment_step [where ref = ref, OF this refl ref] show ?thesis
    unfolding True by (auto simp: needs_segment_def queue_for_marking_def)
next
  case False
  note free = free_space_iff [OF ok False]
  show ?thesis
  proof (cases "needs_segment s cur")
    case True
    obtain s1 where s1: "add_segment_to_global_queue cur s = Ret () s1" "queue_ok s1 NULL (cur # qs)"
        "queued s1 NULL (cur # qs) = queued s cur qs" "queue_frame s s1" "mallocs s1 = mallocs s"
        "map_option current_segment (gc s1) = map_option current_segment (gc s)"
        "idle_kept s (cur # qs) (NULL # cur # qs) s1"
      using add_segment_step [OF ok False] by blast
    then have "queue_moved s cur qs NULL (cur # qs) s1"
      by (simp add: queue_moved_def)
    from new_segment_step [where ref = ref, OF this s1(5) ref] s1(1) free True False show ?thesis
      by (auto simp: queue_for_marking_def)
  next
    case room: False
    have "length (refs_at s cur) < REF_QUEUE_SEGMENT_SIZE"
      using room False refs_at_bound [OF ok, of cur] by (simp add: needs_segment_def)
    from fill_step [where ref = ref, OF queue_moved_refl [OF ok] False this ref] free room False show ?thesis
      by (auto simp: queue_for_marking_def)
  qed
qed

text \<open>
  Whatever the state, queueing a reference leaves the objects alone and takes at most one answer of
  malloc.
\<close>

lemma add_segment_objects:
  "add_segment_to_global_queue seg s = Ret u s' \<Longrightarrow>
     objects s' = objects s \<and> attrs s' = attrs s \<and> mallocs s' = mallocs s"
proof -
  assume r: "add_segment_to_global_queue seg s = Ret u s'"
  have "add_segment_to_global_queue seg s = Undef" if "gc s = None \<or> segments s seg = None"
    unfolding add_segment_to_global_queue_def
    by (rule retry_Undef) (use that in \<open>auto simp: get_ref_queue_head_def deref_def
      pup_refqueuesegment_set_next_def with_segment_def split: option.splits\<close>)
  with r obtain g sg where "gc s = Some g" "segments s seg = Some sg"
    by (cases "gc s"; cases "segments s seg") auto
  from add_segment_once [OF this] r show ?thesis by auto
qed

lemma segment_create_objects:
  "pup_refqueuesegment_create s = Ret p s' \<Longrightarrow>
     objects s' = objects s \<and> attrs s' = attrs s \<and> (\<exists>k \<le> 1. mallocs s' = drop k (mallocs s))"
  by (cases "mallocs s"; cases "hd (mallocs s)")
    (auto simp: segment_create_run intro: exI [of _ 0] exI [of _ 1] split: if_splits)

lemma segment_choice_objects:
  assumes "(if c = NULL then pup_refqueuesegment_create s
     else andthen (pup_refqueueseqment_has_free_space c s) (\<lambda>room s.
       if \<not> room then andthen (add_segment_to_global_queue c s) (\<lambda>_ s. pup_refqueuesegment_create s)
       else Ret c s)) = Ret c1 s1"
  shows "objects s1 = objects s \<and> attrs s1 = attrs s \<and> (\<exists>k \<le> 1. mallocs s1 = drop k (mallocs s))"
  using assms
  by (auto simp: outcome_simps pup_refqueueseqment_has_free_space_def
      dest!: add_segment_objects segment_create_objects split: if_splits)

lemma segment_add_objects:
  "pup_refqueuesegment_add c r s = Ret u s' \<Longrightarrow>
     objects s' = objects s \<and> attrs s' = attrs s \<and> mallocs s' = mallocs s"
  by (auto simp: pup_refqueueseqment_has_free_space_def pup_refqueuesegment_add_def
      add_unchecked_def with_segment_def outcome_simps split: if_splits)

lemma andthen_via:
  "andthen m f = Ret y t \<Longrightarrow> (\<And>x s. m = Ret x s \<Longrightarrow> P s) \<Longrightarrow> (\<And>x s. P s \<Longrightarrow> f x s = Ret y t \<Longrightarrow> Q) \<Longrightarrow> Q"
  by (cases m) auto

lemma queue_objects:
  assumes "queue_for_marking ref c s = Ret c' s'"
  shows "objects s' = objects s \<and> attrs s' = attrs s \<and> (\<exists>k \<le> 1. mallocs s' = drop k (mallocs s))"
proof (rule andthen_via [OF assms [unfolded queue_for_marking_def],
    where P = "\<lambda>s1. objects s1 = objects s \<and> attrs s1 = attrs s \<and> (\<exists>k \<le> 1. mallocs s1 = drop k (mallocs s))"])
qed (erule segment_choice_objects, auto simp: outcome_simps dest!: segment_add_objects)

lemma gc_queue_objects:
  assumes "pup_gc_queue_for_marking ref s = Ret u s'"
  shows "objects s' = objects s \<and> attrs s' = attrs s \<and> (\<exists>k \<le> 1. mallocs s' = drop k (mallocs s))"
proof -
  obtain g :: gc_state and c s1 where q: "queue_for_marking ref (current_segment g) s = Ret c s1"
    and w: "with_gc (current_segment_update (\<lambda>_. c)) s1 = Ret u s'"
    using assms by (auto simp: pup_gc_queue_for_marking_def outcome_simps)
  have "objects s' = objects s1 \<and> attrs s' = attrs s1 \<and> mallocs s' = mallocs s1"
    using w by (auto simp: with_gc_def outcome_simps)
  then show ?thesis
    using queue_objects [OF q] by simp
qed

section \<open>The interface of a work list\<close>

text \<open>
  What the marker relies on: an added item is one more item to do, the rest of the state is kept,
  the only failure is to abort, and there is none when there is room.
\<close>

fun add_all :: "('r \<Rightarrow> 's \<Rightarrow> (unit, 's) outcome) \<Rightarrow> 'r list \<Rightarrow> 's \<Rightarrow> (unit, 's) outcome" where
  "add_all add [] s = Ret () s"
| "add_all add (r # rs) s = andthen (add r s) (\<lambda>_ s. add_all add rs s)"

locale work_list =
  fixes add :: "'r \<Rightarrow> 's \<Rightarrow> (unit, 's) outcome"
    and items :: "'s \<Rightarrow> 'r multiset"
    and good :: "'s \<Rightarrow> bool"
    and kept :: "'s \<Rightarrow> 's \<Rightarrow> bool"
    and room :: "nat \<Rightarrow> 's \<Rightarrow> bool"
  assumes add_step: "good s \<Longrightarrow> add r s = Aborted \<and> \<not> room 1 s \<or>
      (\<exists>s'. add r s = Ret () s' \<and> good s' \<and> items s' = add_mset r (items s) \<and> kept s s')"
    and add_room: "add r s = Ret () s' \<Longrightarrow> room (Suc n) s \<Longrightarrow> room n s'"
    and room_less: "room n s \<Longrightarrow> m \<le> n \<Longrightarrow> room m s"
    and kept_refl: "kept s s"
    and kept_trans: "kept s s' \<Longrightarrow> kept s' s'' \<Longrightarrow> kept s s''"
begin

lemma add_all_step:
  "good s \<Longrightarrow> add_all add rs s = Aborted \<and> \<not> room (length rs) s \<or>
     (\<exists>s'. add_all add rs s = Ret () s' \<and> good s' \<and> items s' = mset rs + items s \<and> kept s s')"
proof (induction rs arbitrary: s)
  case Nil
  then show ?case by (simp add: kept_refl)
next
  case (Cons r rs)
  from add_step [OF Cons.prems, of r] show ?case
  proof (elim disjE exE conjE)
    fix s1
    assume s1: "add r s = Ret () s1" "good s1" "items s1 = add_mset r (items s)" "kept s s1"
    from Cons.IH [OF s1(2)] show ?thesis
      using s1 kept_trans [OF s1(4)] add_room [OF s1(1), of "length rs"] by auto
  next
    assume "add r s = Aborted" "\<not> room 1 s"
    then show ?thesis
      using room_less [of "length (r # rs)" s 1] by auto
  qed
qed

lemma add_all_room: "add_all add rs s = Ret () s' \<Longrightarrow> room (length rs + n) s \<Longrightarrow> room n s'"
proof (induction rs arbitrary: s)
  case Nil
  then show ?case by simp
next
  case (Cons r rs)
  then obtain s1 where "add r s = Ret () s1" "add_all add rs s1 = Ret () s'"
    by (auto simp: outcome_simps)
  with Cons.IH [of s1] Cons.prems(2) add_room [of r s s1 "length rs + n"] show ?case
    by simp
qed

end

text \<open>The queue of the collector, with the segment \<open>current_segment\<close> being filled.\<close>

definition marking_ok :: "rt \<Rightarrow> bool" where
  "marking_ok s \<longleftrightarrow> (\<exists>g qs. gc s = Some g \<and> queue_ok s (current_segment g) qs)"

definition waiting :: "rt \<Rightarrow> ptr multiset" where
  "waiting s = (THE m. \<exists>g qs. gc s = Some g \<and> queue_segments s qs \<and> m = queued s (current_segment g) qs)"

lemma waiting_eq:
  assumes "gc s = Some g" and "queue_segments s qs"
  shows "waiting s = queued s (current_segment g) qs"
  unfolding waiting_def
  by (rule the_equality) (use assms queue_segments_unique in auto)

text \<open>
  What the marker sees unchanged: all but the queue, and the segments that are not in use.  Once
  there is something in the segment being filled, there always is.
\<close>

definition idle :: "rt \<Rightarrow> ptr \<Rightarrow> bool" where
  "idle s q \<longleftrightarrow> q \<in> dom (segments s) \<and>
     (\<exists>g qs. gc s = Some g \<and> queue_segments s qs \<and> q \<notin> set (current_segment g # qs))"

definition filling :: "rt \<Rightarrow> bool" where
  "filling s \<longleftrightarrow> (\<exists>g. gc s = Some g \<and> refs_at s (current_segment g) \<noteq> [])"

definition mark_frame :: "rt \<Rightarrow> rt \<Rightarrow> bool" where
  "mark_frame s s' \<longleftrightarrow>
     queue_frame s s' \<and> (\<forall>q. idle s q \<longrightarrow> idle s' q \<and> segments s' q = segments s q) \<and>
     (filling s \<or> waiting s' \<noteq> waiting s \<longrightarrow> filling s')"

lemma mark_frame_refl [simp]: "mark_frame s s"
  by (simp add: mark_frame_def)

lemma mark_frame_trans:
  assumes "mark_frame s s'" and "mark_frame s' s''"
  shows "mark_frame s s''"
  unfolding mark_frame_def
proof (intro conjI allI impI)
  show "queue_frame s s''"
    using assms queue_frame_trans [of s s' s''] by (simp add: mark_frame_def)
  show "idle s'' q" "segments s'' q = segments s q" if "idle s q" for q
    using assms that by (simp_all add: mark_frame_def)
  show "filling s''" if "filling s \<or> waiting s'' \<noteq> waiting s"
    using assms that unfolding mark_frame_def by metis
qed

text \<open>The segment being filled is put down in the state of the collector.\<close>

lemma current_segment_set:
  assumes g: "gc s = Some g" and step: "queue_step s (current_segment g) qs r cur ps s1"
    and ok: "queue_ok s (current_segment g) qs" and g1: "gc s1 = Some g1"
  defines "s' \<equiv> s1\<lparr>gc := Some (g1\<lparr>current_segment := cur\<rparr>)\<rparr>"
  shows "marking_ok s'" "waiting s' = add_mset r (waiting s)" "mark_frame s s'"
proof -
  have q: "queue_ok s1 cur ps" "queued s1 cur ps = add_mset r (queued s (current_segment g) qs)"
      "queue_frame s s1" "idle_kept s (current_segment g # qs) (cur # ps) s1" "refs_at s1 cur \<noteq> []"
    using step by (simp_all add: queue_step_def)
  have segs: "queue_segments s' ps"
    using q(1) g1 by (auto simp: s'_def queue_ok_def queue_segments_def)
  have "heap_wf s'"
    by (rule heap_wf_cong [of s1]) (use q(1) in \<open>auto simp: s'_def queue_ok_def\<close>)
  then have "queue_ok s' cur ps"
    using q(1) segs by (simp add: s'_def queue_ok_def)
  then show "marking_ok s'"
    by (auto simp: marking_ok_def s'_def)
  have same: "refs_at s' = refs_at s1"
    by (auto simp: s'_def refs_at_def fun_eq_iff)
  have "waiting s' = queued s1 cur ps"
    using waiting_eq [OF _ segs, of "g1\<lparr>current_segment := cur\<rparr>"] by (simp add: queued_def same) (simp add: s'_def)
  also have "\<dots> = add_mset r (waiting s)"
    using q(2) waiting_eq [OF g, of qs] ok by (simp add: queue_ok_def)
  finally show "waiting s' = add_mset r (waiting s)" .
  have "queue_frame s s'"
    using q(3) g1 by (simp add: s'_def queue_frame_def gc_key_def)
  moreover have "idle s' q \<and> segments s' q = segments s q" if "idle s q" for q
  proof -
    have "queue_segments s qs"
      using ok by (simp add: queue_ok_def)
    with that g have "q \<in> dom (segments s) - set (current_segment g # qs)"
      using queue_segments_unique by (auto simp: idle_def)
    then have "segments s1 q = segments s q \<and> q \<notin> set (cur # ps)"
      using q(4) unfolding idle_kept_def by blast
    with that segs show ?thesis
      by (auto simp: idle_def s'_def)
  qed
  moreover have "filling s'"
    using q(5) by (simp add: filling_def same) (simp add: s'_def)
  ultimately show "mark_frame s s'"
    unfolding mark_frame_def by blast
qed

lemma gc_queue_step:
  assumes g: "gc s = Some g" and ok: "queue_ok s (current_segment g) qs"
    and ref: "\<And>s'. queue_frame s s' \<Longrightarrow> ref s' = Some r"
  shows "if needs_segment s (current_segment g) \<and> fst (malloc (mallocs s)) = NULL
    then pup_gc_queue_for_marking ref s = Aborted
    else \<exists>s'. pup_gc_queue_for_marking ref s = Ret () s' \<and> marking_ok s' \<and>
      waiting s' = add_mset r (waiting s) \<and> mark_frame s s'"
proof (cases "needs_segment s (current_segment g) \<and> fst (malloc (mallocs s)) = NULL")
  case True
  with queue_for_marking_step [where ref = ref, OF ok ref] g show ?thesis
    by (simp add: pup_gc_queue_for_marking_def)
next
  case False
  with queue_for_marking_step [where ref = ref, OF ok ref] obtain cur s1 ps where
    s1: "queue_for_marking ref (current_segment g) s = Ret cur s1"
    and step: "queue_step s (current_segment g) qs r cur ps s1"
    by auto
  then obtain g1 where g1: "gc s1 = Some g1"
    by (auto simp: queue_step_def queue_ok_def queue_segments_def)
  have "pup_gc_queue_for_marking ref s = Ret () (s1\<lparr>gc := Some (g1\<lparr>current_segment := cur\<rparr>)\<rparr>)"
    using g s1 g1 by (simp add: pup_gc_queue_for_marking_def with_gc_def)
  with current_segment_set [OF g step ok g1] show ?thesis
    unfolding if_not_P [OF False] by (intro exI conjI)
qed

interpretation mark_queue: work_list "\<lambda>r. pup_gc_queue_for_marking (\<lambda>_. Some r)" waiting marking_ok
  mark_frame answers
proof
  fix s r
  assume "marking_ok s"
  then obtain g qs where g: "gc s = Some g" "queue_ok s (current_segment g) qs"
    by (auto simp: marking_ok_def)
  show "pup_gc_queue_for_marking (\<lambda>_. Some r) s = Aborted \<and> \<not> answers 1 s \<or>
    (\<exists>s'. pup_gc_queue_for_marking (\<lambda>_. Some r) s = Ret () s' \<and> marking_ok s' \<and>
      waiting s' = add_mset r (waiting s) \<and> mark_frame s s')"
    using gc_queue_step [OF g, of "\<lambda>_. Some r" r] answers_malloc [of 0 s] by (auto split: if_splits)
next
  fix r s s' n
  assume "pup_gc_queue_for_marking (\<lambda>_. Some r) s = Ret () s'" "answers (Suc n) s"
  then show "answers n s'"
    using gc_queue_objects [of "\<lambda>_. Some r" s "()" s'] answers_drop [of 1 n s s'] by auto
qed (erule (1) answers_less, simp, erule (1) mark_frame_trans)

section \<open>Properties\<close>


text \<open>A heap whose collector has just been made, with no segment yet.\<close>

definition demo_gc :: rt where
  "demo_gc = boot\<lparr>gc := Some \<lparr>reference_queue_head = 0, live_mark_value = 0, garbage_count = 0,
     live_count = 0, copy_target = 0, current_segment = 0\<rparr>\<rparr>"

lemma demo_gc_ok: "queue_ok demo_gc NULL []" "needs_segment demo_gc NULL"
    "fst (malloc (mallocs demo_gc)) = 12288" "queued demo_gc NULL [] = {#}"
proof -
  have "heap_wf demo_gc"
    unfolding demo_gc_def by (rule heap_wf_cong [OF boot_ready(1)]) simp_all
  moreover have seg: "segments demo_gc = Map.empty" "mallocs demo_gc = drop 2 demo_tape"
    by (simp_all add: demo_gc_def boot_def pup_heap_thread_init_def pup_heap_region_allocate_def blank_def
        demo_tape_def MAP_FAILED_def attach_thread_def set_thread_info_def attach_thread_to_heap_once
        set_local_region_def get_thread_info_def with_thread_def)
  ultimately show ok: "queue_ok demo_gc NULL []"
    by (simp add: queue_ok_def queue_segments_def demo_gc_def)
  show "needs_segment demo_gc NULL" "fst (malloc (mallocs demo_gc)) = 12288"
    by (simp_all add: needs_segment_def seg demo_tape_def)
  show "queued demo_gc NULL [] = {#}"
    using seg by (simp add: queued_def refs_at_def)
qed


end
