(* ===== verification/GcMap.thy ===== *)
theory GcMap
  imports RefQueue Leb128
begin

text \<open>
  Stack maps: what the compiler plugin emits for each function (gclib/lib/pupgcplugin/pupgcprinter.cpp)
  and how gc.c reads it while it scans the stack of a mutator.  The unwinder and \<open>dlsym\<close> are
  parameters: the frames a walk visits, each with the answers libunwind gives for it, and the
  address of a symbol.  The memory of maps and stacks is a partial map of bytes.
\<close>

section \<open>What the plugin emits\<close>

text \<open>
  What the code generator knows about a function: its frame size and its safe points, each the
  address of a label and the stack offsets of the roots that are live there.
\<close>

record gc_function_info =
  fn_name :: string
  frame_size :: i32
  safe_points :: "(u64 \<times> i32 list) list"

text \<open>The operations of the assembly printer of LLVM that the plugin calls, on its output.\<close>

record 'o asm_printer =
  EmitAlignment :: "nat \<Rightarrow> 'o \<Rightarrow> 'o"
  EmitLabel :: "string \<Rightarrow> 'o \<Rightarrow> 'o"
  EmitInt32 :: "i32 \<Rightarrow> 'o \<Rightarrow> 'o"
  EmitSymbolValue :: "u64 \<Rightarrow> nat \<Rightarrow> 'o \<Rightarrow> 'o"

definition AddressAlignLog :: "nat \<Rightarrow> nat" where
  "AddressAlignLog IntPtrSize = (if IntPtrSize = 4 then 2 else 3)"

fun print_point :: "'o asm_printer \<Rightarrow> nat \<Rightarrow> i32 \<Rightarrow> u64 \<times> i32 list \<Rightarrow> 'o \<Rightarrow> 'o" where
  "print_point AP IntPtrSize fsize (label, live) out =
     fold (EmitInt32 AP) live
       (EmitInt32 AP (of_nat (length live))
         (EmitInt32 AP fsize
           (EmitSymbolValue AP label IntPtrSize
             (EmitAlignment AP (AddressAlignLog IntPtrSize) out))))"

definition print_function :: "'o asm_printer \<Rightarrow> nat \<Rightarrow> gc_function_info \<Rightarrow> 'o \<Rightarrow> 'o" where
  "print_function AP IntPtrSize MD out =
     fold (print_point AP IntPtrSize (frame_size MD)) (safe_points MD)
       (EmitInt32 AP (of_nat (length (safe_points MD)))
         (EmitLabel AP (''__gcmap_'' @ fn_name MD)
           (EmitAlignment AP (AddressAlignLog IntPtrSize) out)))"

definition finishAssembly :: "'o asm_printer \<Rightarrow> nat \<Rightarrow> gc_function_info list \<Rightarrow> 'o \<Rightarrow> 'o" where
  "finishAssembly AP IntPtrSize fns out = fold (print_function AP IntPtrSize) fns out"

section \<open>What the collector reads\<close>

definition load_i32 :: "mem \<Rightarrow> ptr \<Rightarrow> i32 option" where
  "load_i32 m p = map_option of_int (load_le m p 4)"

definition load_u64 :: "mem \<Rightarrow> ptr \<Rightarrow> u64 option" where
  "load_u64 m p = map_option of_int (load_le m p 8)"

text \<open>
  A frame as libunwind reports it: the name of its procedure and the offset in it, the address the
  procedure starts at, and the stack pointer; \<open>None\<close> where the call fails.
\<close>

record unw_frame =
  proc_name :: "(string \<times> u64) option"
  start_ip :: "u64 option"
  reg_rsp :: "u64 option"

definition get_stack_frame_roots ::
    "(string \<Rightarrow> ptr option) \<Rightarrow> unw_frame \<Rightarrow> 's \<Rightarrow> (ptr, 's) outcome" where
  "get_stack_frame_roots dlsym cursor s =
     (case proc_name cursor of
        None \<Rightarrow> Ret NULL s
      | Some (nm, off) \<Rightarrow>
          (let sym_name = ''__gcmap_'' @ nm in
           if length sym_name \<ge> 1024 then Ret NULL s
           else case dlsym sym_name of None \<Rightarrow> Ret NULL s | Some a \<Rightarrow> Ret a s))"

text \<open>
  The layout of the structs: \<open>points\<close> is at offset 8 of the map; in a safepoint the address is at
  0, \<open>frame_size\<close> at 8, \<open>live_count\<close> at 12 and \<open>live_offsets\<close> at 16.
\<close>

definition points_offset :: u64 where "points_offset = 8"
definition sizeof_PupGCSafepoint :: u64 where "sizeof_PupGCSafepoint = 16"
definition live_count_offset :: u64 where "live_count_offset = 12"

text \<open>The loop, with the number of turns left; after the last one no safepoint has been found.\<close>

fun find_point :: "mem \<Rightarrow> u64 \<Rightarrow> nat \<Rightarrow> ptr \<Rightarrow> 's \<Rightarrow> (ptr, 's) outcome" where
  "find_point m pc 0 addr s = Aborted"
| "find_point m pc (Suc n) addr s =
     deref (load_u64 m addr) (\<lambda>safepoint_addr.
       if safepoint_addr = pc then Ret addr s
       else
         deref (load_i32 m (addr + live_count_offset)) (\<lambda>count.
           find_point m pc n (addr + sizeof_PupGCSafepoint + 4 * scast count + 4) s))"

definition find_safepoint :: "mem \<Rightarrow> unw_frame \<Rightarrow> ptr \<Rightarrow> 's \<Rightarrow> (ptr, 's) outcome" where
  "find_safepoint m cursor gc_map s =
     (case proc_name cursor of
        None \<Rightarrow> Ret NULL s
      | Some (nm, off) \<Rightarrow>
          (case start_ip cursor of
             None \<Rightarrow> Ret NULL s
           | Some base \<Rightarrow>
               if base = 0 then Ret NULL s
               else
                 deref (load_i32 m gc_map) (\<lambda>point_count.
                   find_point m (base + off) (nat (sint point_count)) (gc_map + points_offset) s)))"

definition get_frame_pointer :: "unw_frame \<Rightarrow> u64" where
  "get_frame_pointer cursor = (case reg_rsp cursor of None \<Rightarrow> 0 | Some sp \<Rightarrow> sp)"

text \<open>The loop over the live offsets, the next one at \<open>a\<close>, with the turns left.\<close>

fun collect_roots :: "mem \<Rightarrow> u64 \<Rightarrow> ptr \<Rightarrow> nat \<Rightarrow> ptr \<Rightarrow> rt \<Rightarrow> (ptr, rt) outcome" where
  "collect_roots m fp a 0 cur s = Ret cur s"
| "collect_roots m fp a (Suc n) cur s =
     deref (load_i32 m a) (\<lambda>fp_offset.
     andthen (queue_for_marking (\<lambda>_. load_u64 m (fp + scast fp_offset)) cur s) (\<lambda>cur s.
       collect_roots m fp (a + 4) n cur s))"

definition collect_stack_root_pointers :: "mem \<Rightarrow> unw_frame \<Rightarrow> ptr \<Rightarrow> rt \<Rightarrow> (unit, rt) outcome" where
  "collect_stack_root_pointers m cursor safepoint s =
     (let fp = get_frame_pointer cursor in
      if fp = 0 then Ret () s
      else
        deref (load_i32 m (safepoint + live_count_offset)) (\<lambda>count.
        andthen (collect_roots m fp (safepoint + sizeof_PupGCSafepoint) (nat (sint count)) NULL s) (\<lambda>cur s.
          if cur \<noteq> NULL then add_segment_to_global_queue cur s else Ret () s)))"

text \<open>The number of safe points is read for a message before the search.\<close>

definition scan_stack_frame ::
    "mem \<Rightarrow> (string \<Rightarrow> ptr option) \<Rightarrow> unw_frame \<Rightarrow> rt \<Rightarrow> (unit, rt) outcome" where
  "scan_stack_frame m dlsym cursor s =
     andthen (get_stack_frame_roots dlsym cursor s) (\<lambda>gc_map s.
       if gc_map = NULL then Ret () s
       else
         deref (load_i32 m gc_map) (\<lambda>_.
         andthen (find_safepoint m cursor gc_map s) (\<lambda>safepoint s.
           if safepoint = NULL then Ret () s
           else collect_stack_root_pointers m cursor safepoint s)))"

text \<open>\<open>None\<close>: libunwind cannot start; otherwise the frames from the innermost one out.\<close>

definition pup_gc_scan_stack ::
    "mem \<Rightarrow> (string \<Rightarrow> ptr option) \<Rightarrow> unw_frame list option \<Rightarrow> rt \<Rightarrow> (unit, rt) outcome" where
  "pup_gc_scan_stack m dlsym frames s =
     (case frames of
        None \<Rightarrow> Ret () s
      | Some frs \<Rightarrow> add_all (scan_stack_frame m dlsym) frs s)"

section \<open>The bytes of a map\<close>

text \<open>
  The documented effect of the operations on the data section, for a target with little-endian
  numbers: the symbols defined in it, each at an offset, and its bytes, zero where it is filled up.
\<close>

definition emit_alignment :: "nat \<Rightarrow> u8 list \<Rightarrow> u8 list" where
  "emit_alignment al out = out @ replicate ((al - length out mod al) mod al) 0"

definition emit_int32 :: "i32 \<Rightarrow> u8 list \<Rightarrow> u8 list" where
  "emit_int32 v out = out @ le_bytes 4 (uint v)"

definition emit_symbol_value :: "u64 \<Rightarrow> nat \<Rightarrow> u8 list \<Rightarrow> u8 list" where
  "emit_symbol_value v sz out = out @ le_bytes sz (uint v)"

type_synonym data_section = "(string \<times> nat) list \<times> u8 list"

definition assembles :: "'o asm_printer \<Rightarrow> ('o \<Rightarrow> data_section) \<Rightarrow> bool" where
  "assembles AP sect \<longleftrightarrow>
     (\<forall>al out. sect (EmitAlignment AP al out) = apsnd (emit_alignment (2 ^ al)) (sect out)) \<and>
     (\<forall>nm out. sect (EmitLabel AP nm out) = apfst (\<lambda>syms. syms @ [(nm, length (snd (sect out)))]) (sect out)) \<and>
     (\<forall>v out. sect (EmitInt32 AP v out) = apsnd (emit_int32 v) (sect out)) \<and>
     (\<forall>v sz out. sect (EmitSymbolValue AP v sz out) = apsnd (emit_symbol_value v sz) (sect out))"

definition address_align :: "nat \<Rightarrow> nat" where
  "address_align sz = 2 ^ AddressAlignLog sz"

fun emit_point :: "nat \<Rightarrow> i32 \<Rightarrow> u64 \<times> i32 list \<Rightarrow> u8 list \<Rightarrow> u8 list" where
  "emit_point sz fsize (label, live) out =
     fold emit_int32 live
       (emit_int32 (of_nat (length live))
         (emit_int32 fsize
           (emit_symbol_value label sz
             (emit_alignment (address_align sz) out))))"

definition emit_map :: "nat \<Rightarrow> gc_function_info \<Rightarrow> u8 list \<Rightarrow> u8 list" where
  "emit_map sz MD out =
     fold (emit_point sz (frame_size MD)) (safe_points MD) (emit_int32 (of_nat (length (safe_points MD))) out)"

lemma section_fold:
  assumes "\<And>x out. sect (f x out) = apsnd (g x) (sect out)"
  shows "sect (fold f xs out) = apsnd (fold g xs) (sect out)"
  by (induction xs arbitrary: out) (simp_all add: assms apsnd_def map_prod_def split_beta)

lemma section_point:
  assumes "assembles AP sect"
  shows "sect (print_point AP sz fsize pt out) = apsnd (emit_point sz fsize pt) (sect out)"
proof -
  have "sect (fold (EmitInt32 AP) vs out) = apsnd (fold emit_int32 vs) (sect out)" for vs out
    by (rule section_fold) (use assms in \<open>simp add: assembles_def\<close>)
  with assms show ?thesis
    by (cases pt) (simp add: assembles_def address_align_def apsnd_def map_prod_def split_beta)
qed

lemma section_function:
  assumes "assembles AP sect" and "sect out = (syms, bs)"
  shows "sect (print_function AP sz MD out) =
    (let bs = emit_alignment (address_align sz) bs
     in (syms @ [(''__gcmap_'' @ fn_name MD, length bs)], emit_map sz MD bs))"
proof -
  have "sect (fold (print_point AP sz (frame_size MD)) pts out) =
      apsnd (fold (emit_point sz (frame_size MD)) pts) (sect out)" for pts out
    by (rule section_fold) (rule section_point [OF assms(1)])
  with assms show ?thesis
    by (simp add: print_function_def emit_map_def assembles_def address_align_def Let_def)
qed

section \<open>Reading back an emitted map\<close>

lemma load_i32_bytes: "bytes_at m p (le_bytes 4 (uint (w :: i32))) \<Longrightarrow> load_i32 m p = Some w"
  using uint_bounded [of w] by (simp add: load_i32_def load_le_bytes del: le_bytes_numeral)

lemma load_u64_bytes: "bytes_at m p (le_bytes 8 (uint (w :: u64))) \<Longrightarrow> load_u64 m p = Some w"
  using uint_bounded [of w] by (simp add: load_u64_def load_le_bytes del: le_bytes_numeral)

lemma load_mapped:
  "load_u64 m p = Some v \<Longrightarrow> m p \<noteq> None"
  "load_i32 m p = Some w \<Longrightarrow> m p \<noteq> None"
proof -
  have le: "load_le m p (Suc n) = Some z \<Longrightarrow> m p \<noteq> None" for n z
    by (auto split: option.splits)
  have n: "(8 :: nat) = Suc 7" "(4 :: nat) = Suc 3"
    by simp_all
  show "load_u64 m p = Some v \<Longrightarrow> m p \<noteq> None" "load_i32 m p = Some w \<Longrightarrow> m p \<noteq> None"
    unfolding load_u64_def load_i32_def n using le by blast+
qed

lemma sint_of_nat_32:
  assumes "n < 2 ^ 31"
  shows "sint (of_nat n :: i32) = int n" and "(scast (of_nat n :: i32) :: u64) = of_nat n"
proof -
  show s: "sint (of_nat n :: i32) = int n"
    using assms by (simp add: signed_of_nat signed_take_bit_int_eq_self)
  show "(scast (of_nat n :: i32) :: u64) = of_nat n"
    by (simp add: scast_eq s)
qed

lemma fold_emit_int32: "fold emit_int32 vs out = out @ concat (map (\<lambda>v. le_bytes 4 (uint v)) vs)"
  by (induction vs arbitrary: out) (simp_all add: emit_int32_def del: le_bytes_numeral)

text \<open>A safe point as bytes, at an address that is a multiple of 8.\<close>

definition point_bytes :: "i32 \<Rightarrow> u64 \<times> i32 list \<Rightarrow> u8 list" where
  "point_bytes fsize pt =
     le_bytes 8 (uint (fst pt)) @ le_bytes 4 (uint fsize) @
     le_bytes 4 (uint (of_nat (length (snd pt)) :: i32)) @
     concat (map (\<lambda>v. le_bytes 4 (uint v)) (snd pt))"

lemma length_le_concat: "length (concat (map (\<lambda>v. le_bytes 4 (uint v)) (vs :: i32 list))) = 4 * length vs"
  by (induction vs) (simp_all del: le_bytes_numeral)

lemma length_point_bytes: "length (point_bytes fsize pt) = 16 + 4 * length (snd pt)"
  by (simp add: point_bytes_def length_le_concat del: le_bytes_numeral)

lemma emit_point_bytes:
  "emit_point 8 fsize pt out =
     out @ replicate ((8 - length out mod 8) mod 8) 0 @ point_bytes fsize pt"
  by (cases pt) (simp add: fold_emit_int32 emit_int32_def emit_symbol_value_def emit_alignment_def
      address_align_def AddressAlignLog_def point_bytes_def del: le_bytes_numeral)

declare emit_point.simps [simp del]

lemma fold_emit_prefix: "\<exists>z. fold (emit_point 8 fsize) pts out = out @ z"
proof (induction pts arbitrary: out)
  case (Cons pt pts)
  from Cons.IH [of "emit_point 8 fsize pt out"] show ?case
    by (auto simp: emit_point_bytes)
qed simp

lemma bytes_at_point:
  assumes "bytes_at m p (fold (emit_point 8 fsize) pts (emit_point 8 fsize pt out))"
    and "length out mod 8 = 4"
  shows "bytes_at m (p + of_nat (length out) + 4) (point_bytes fsize pt)"
proof -
  obtain z where "fold (emit_point 8 fsize) pts (emit_point 8 fsize pt out) = emit_point 8 fsize pt out @ z"
    using fold_emit_prefix by blast
  with assms have "bytes_at m p ((out @ replicate 4 0) @ point_bytes fsize pt @ z)"
    by (simp add: emit_point_bytes)
  then show ?thesis
    unfolding bytes_at_append by (simp add: add.assoc)
qed

text \<open>The fields of a safe point in memory.\<close>

lemma point_loads:
  assumes "bytes_at m a (point_bytes fsize pt)"
  shows "load_u64 m a = Some (fst pt)"
    and "load_i32 m (a + live_count_offset) = Some (of_nat (length (snd pt)))"
    and "bytes_at m (a + sizeof_PupGCSafepoint) (concat (map (\<lambda>v. le_bytes 4 (uint v)) (snd pt)))"
  using assms unfolding point_bytes_def bytes_at_append live_count_offset_def sizeof_PupGCSafepoint_def
  by (auto simp: add.assoc intro: load_u64_bytes load_i32_bytes simp del: le_bytes_numeral)

text \<open>
  The reader steps over a safe point by 20 bytes and 4 for each root: to the next one when the
  number of roots is odd, and the alignment has added 4 bytes.
\<close>

lemma find_point_emitted:
  assumes "bytes_at m p (fold (emit_point 8 fsize) (pre @ (pc, live) # post) out)"
    and "length out mod 8 = 4" and "length pre < n"
    and "\<forall>(lab, rs) \<in> set pre. lab \<noteq> pc \<and> odd (length rs) \<and> length rs < 2 ^ 31"
  shows "\<exists>a. find_point m pc n (p + of_nat (length out) + 4) s = Ret a s \<and>
    bytes_at m a (point_bytes fsize (pc, live))"
  using assms
proof (induction pre arbitrary: out n)
  case Nil
  obtain k where n: "n = Suc k"
    using Nil.prems(3) by (cases n) auto
  have "bytes_at m (p + of_nat (length out) + 4) (point_bytes fsize (pc, live))"
    by (rule bytes_at_point [of m p fsize post]) (use Nil.prems(1,2) in simp_all)
  with point_loads(1) [OF this] show ?case
    by (auto simp: n)
next
  case (Cons pt pre)
  obtain lab rs where pt: "pt = (lab, rs)"
    by (cases pt)
  obtain k where n: "n = Suc k"
    using Cons.prems(3) by (cases n) auto
  have rs: "lab \<noteq> pc" "odd (length rs)" "length rs < 2 ^ 31"
    using Cons.prems(4) by (auto simp: pt)
  let ?out = "emit_point 8 fsize pt out" and ?a = "p + of_nat (length out) + 4"
  have "bytes_at m ?a (point_bytes fsize pt)"
    by (rule bytes_at_point [of m p fsize "pre @ (pc, live) # post"]) (use Cons.prems(1,2) in simp_all)
  note loads = point_loads [OF this]
  have len: "length ?out = length out + 20 + 4 * length rs"
    using Cons.prems(2) by (simp add: emit_point_bytes length_point_bytes pt)
  have "length ?out mod 8 = 4"
  proof -
    obtain i where "length rs = 2 * i + 1"
      using rs(2) by (rule oddE)
    then have "length ?out = length out + 8 * (i + 3)"
      using len by simp
    then show ?thesis
      using Cons.prems(2) by (metis mod_mult_self2)
  qed
  then have "\<exists>a. find_point m pc k (p + of_nat (length ?out) + 4) s = Ret a s \<and>
      bytes_at m a (point_bytes fsize (pc, live))"
    by (intro Cons.IH) (use Cons.prems n in auto)
  moreover have step: "?a + sizeof_PupGCSafepoint + 4 * scast (of_nat (length rs) :: i32) + 4 =
      p + of_nat (length ?out) + 4"
    by (simp only: sint_of_nat_32(2) [OF rs(3)] len)
      (simp add: sizeof_PupGCSafepoint_def algebra_simps)
  moreover have "find_point m pc n ?a s = find_point m pc k (p + of_nat (length ?out) + 4) s"
    unfolding n find_point.simps loads(1,2) deref_Some pt fst_conv snd_conv step [unfolded pt]
    using rs(1) by (simp only: if_False)
  ultimately show ?case
    by (simp only: )
qed

text \<open>The roots of a frame, read at the live offsets, are queued.\<close>

lemma collect_roots_step:
  fixes live :: "i32 list"
  assumes "queue_ok s cur qs" and "bytes_at m a (concat (map (\<lambda>v. le_bytes 4 (uint v)) live))"
    and "map (\<lambda>v. load_u64 m (fp + scast v)) live = map Some roots"
  shows "collect_roots m fp a (length live) cur s = Aborted \<and> \<not> answers (length live) s \<or>
    (\<exists>cur' s' qs'. collect_roots m fp a (length live) cur s = Ret cur' s' \<and> queue_ok s' cur' qs' \<and>
       queued s' cur' qs' = mset roots + queued s cur qs \<and> queue_frame s s')"
  using assms
proof (induction live arbitrary: a cur s qs roots)
  case Nil
  then show ?case by auto
next
  case (Cons v live)
  obtain r rs where roots: "roots = r # rs" "load_u64 m (fp + scast v) = Some r"
      "map (\<lambda>v. load_u64 m (fp + scast v)) live = map Some rs"
    using Cons.prems(3) by (cases roots) auto
  have bytes: "bytes_at m a (le_bytes 4 (uint v))"
      "bytes_at m (a + 4) (concat (map (\<lambda>v. le_bytes 4 (uint v)) live))"
    using Cons.prems(2) by (auto simp: bytes_at_append simp del: le_bytes_numeral)
  note v = load_i32_bytes [OF bytes(1)]
  note q = queue_for_marking_step [OF Cons.prems(1), of "\<lambda>_. Some r" r]
  show ?case
  proof (cases "needs_segment s cur \<and> fst (malloc (mallocs s)) = NULL")
    case True
    with q v roots(2) answers_malloc [of "length live" s] show ?thesis by auto
  next
    case False
    with q obtain cur1 s1 qs1 where s1: "queue_for_marking (\<lambda>_. Some r) cur s = Ret cur1 s1"
        "queue_step s cur qs r cur1 qs1 s1"
      by auto
    then have ok1: "queue_ok s1 cur1 qs1" "queued s1 cur1 qs1 = add_mset r (queued s cur qs)" "queue_frame s s1"
      by (simp_all add: queue_step_def)
    have "collect_roots m fp a (length (v # live)) cur s = collect_roots m fp (a + 4) (length live) cur1 s1"
      using v s1(1) roots(2) by simp
    moreover have "answers (length live) s1" if "answers (length (v # live)) s"
      using that queue_objects [OF s1(1)] answers_drop [of 1 "length live" s s1] by auto
    ultimately show ?thesis
      using Cons.IH [OF ok1(1) bytes(2) roots(3)] ok1(2) queue_frame_trans [OF ok1(3)] roots(1) by auto
  qed
qed

lemma collect_stack_root_pointers_step:
  assumes ok: "queue_ok s NULL qs" and a: "bytes_at m a (point_bytes fsize (pc, live))"
    and n: "length live < 2 ^ 31"
    and sp: "reg_rsp fr = Some sp" "sp \<noteq> 0"
    and roots: "map (\<lambda>v. load_u64 m (sp + scast v)) live = map Some roots"
  shows "collect_stack_root_pointers m fr a s = Aborted \<and> \<not> answers (length live) s \<or>
    (\<exists>s' qs'. collect_stack_root_pointers m fr a s = Ret () s' \<and> queue_ok s' NULL qs' \<and>
       queued s' NULL qs' = mset roots + queued s NULL qs \<and> queue_frame s s')"
proof -
  note loads = point_loads [OF a, simplified]
  have run: "collect_stack_root_pointers m fr a s =
      andthen (collect_roots m sp (a + sizeof_PupGCSafepoint) (length live) NULL s) (\<lambda>cur s.
        if cur \<noteq> NULL then add_segment_to_global_queue cur s else Ret () s)"
    using loads(2) sp sint_of_nat_32(1) [OF n] by (simp add: collect_stack_root_pointers_def get_frame_pointer_def)
  from collect_roots_step [OF ok point_loads(3) [OF a, simplified snd_conv] roots] show ?thesis
  proof (elim disjE exE conjE)
    fix cur s1 qs1
    assume s1: "collect_roots m sp (a + sizeof_PupGCSafepoint) (length live) NULL s = Ret cur s1"
      "queue_ok s1 cur qs1" "queued s1 cur qs1 = mset roots + queued s NULL qs" "queue_frame s s1"
    show ?thesis
    proof (cases "cur = NULL")
      case True
      with s1 run show ?thesis by auto
    next
      case False
      obtain s2 where "add_segment_to_global_queue cur s1 = Ret () s2" "queue_ok s2 NULL (cur # qs1)"
          "queued s2 NULL (cur # qs1) = queued s1 cur qs1" "queue_frame s1 s2"
        using add_segment_step [OF s1(2) False] by blast
      with s1 run False queue_frame_trans [OF s1(4)] show ?thesis
        by auto
    qed
  qed (use run in simp)
qed

text \<open>A frame of a compiled function, stopped at a safe point.\<close>

definition frame_stopped_at :: "unw_frame \<Rightarrow> gc_function_info \<Rightarrow> u64 \<Rightarrow> u64 \<Rightarrow> bool" where
  "frame_stopped_at fr MD pc sp \<longleftrightarrow>
     (\<exists>off base. proc_name fr = Some (fn_name MD, off) \<and> start_ip fr = Some base \<and> base \<noteq> 0 \<and>
        pc = base + off) \<and>
     length (fn_name MD) < 1016 \<and> reg_rsp fr = Some sp \<and> sp \<noteq> 0"

lemma emitted_count:
  assumes "bytes_at m p (emit_map 8 MD [])"
  shows "load_i32 m p = Some (of_nat (length (safe_points MD)))"
    and "bytes_at m p (fold (emit_point 8 (frame_size MD)) (safe_points MD)
      (le_bytes 4 (uint (of_nat (length (safe_points MD)) :: i32))))"
proof -
  show b: "bytes_at m p (fold (emit_point 8 (frame_size MD)) (safe_points MD)
      (le_bytes 4 (uint (of_nat (length (safe_points MD)) :: i32))))"
    using assms by (simp add: emit_map_def emit_int32_def del: le_bytes_numeral)
  obtain z where "fold (emit_point 8 (frame_size MD)) (safe_points MD)
      (le_bytes 4 (uint (of_nat (length (safe_points MD)) :: i32))) =
      le_bytes 4 (uint (of_nat (length (safe_points MD)) :: i32)) @ z"
    using fold_emit_prefix by blast
  with b show "load_i32 m p = Some (of_nat (length (safe_points MD)))"
    by (auto simp: bytes_at_append intro: load_i32_bytes simp del: le_bytes_numeral)
qed

lemma find_safepoint_run:
  assumes "frame_stopped_at fr MD pc sp" and "bytes_at m p (emit_map 8 MD [])"
    and "length (safe_points MD) < 2 ^ 31"
  shows "find_safepoint m fr p s = find_point m pc (length (safe_points MD)) (p + points_offset) s"
  using assms emitted_count(1) [OF assms(2)] sint_of_nat_32(1) [OF assms(3)]
  by (auto simp: frame_stopped_at_def find_safepoint_def)

section \<open>A safe point after an even number of roots\<close>

lemma le_bytes_high_zero: "0 \<le> v \<Longrightarrow> v < 2 ^ 32 \<Longrightarrow> le_bytes 8 v = le_bytes 4 v @ [0, 0, 0, 0]"
  by (simp add: div_mult2_eq flip: zdiv_zmult2_eq)

lemma load_shifted:
  assumes "bytes_at m q ([0, 0, 0, 0] @ le_bytes 4 (uint (w :: i32)))"
  shows "load_u64 m q = Some (2 ^ 32 * ucast w)"
proof -
  have z: "m q = Some 0" "m (q + 1) = Some 0" "m (q + 1 + 1) = Some 0" "m (q + 1 + 1 + 1) = Some 0"
    and w: "bytes_at m (q + 1 + 1 + 1 + 1) (le_bytes 4 (uint w))"
    using assms by (simp_all del: le_bytes_numeral)
  have four: "(8 :: nat) = Suc (Suc (Suc (Suc 4)))"
    by simp
  have "load_le m (q + 1 + 1 + 1 + 1) 4 = Some (uint w)"
    using load_le_bytes [OF w] uint_bounded [of w] by simp
  with z have "load_le m q 8 = Some (256 * (256 * (256 * (256 * uint w))))"
    unfolding four by (simp only: load_le.simps option.case option.map unsigned_0 add_0)
  moreover have "(of_int (256 * (256 * (256 * (256 * uint w)))) :: u64) = 2 ^ 32 * ucast w"
    by (simp add: unsigned_ucast_eq)
  ultimately show ?thesis
    by (simp add: load_u64_def)
qed

text \<open>A frame at a safe point of a function whose map is at \<open>p\<close>.\<close>

lemma scan_emitted_frame:
  assumes "queue_ok s NULL qs" and "frame_stopped_at fr MD pc sp"
    and "dlsym (''__gcmap_'' @ fn_name MD) = Some p" and "m NULL = None"
    and "bytes_at m p (emit_map 8 MD [])"
    and "safe_points MD = pre @ (pc, live) # post" and "length (safe_points MD) < 2 ^ 31"
    and "length live < 2 ^ 31"
    and "\<forall>(lab, rs) \<in> set pre. lab \<noteq> pc \<and> odd (length rs) \<and> length rs < 2 ^ 31"
    and "map (\<lambda>v. load_u64 m (sp + scast v)) live = map Some roots"
  shows "scan_stack_frame m dlsym fr s = Aborted \<and> \<not> answers (length live) s \<or>
    (\<exists>s' qs'. scan_stack_frame m dlsym fr s = Ret () s' \<and> queue_ok s' NULL qs' \<and>
       queued s' NULL qs' = mset roots + queued s NULL qs \<and> queue_frame s s')"
proof -
  let ?head = "le_bytes 4 (uint (of_nat (length (safe_points MD)) :: i32))"
  have "\<exists>a. find_point m pc (length (safe_points MD)) (p + of_nat (length ?head) + 4) s = Ret a s \<and>
      bytes_at m a (point_bytes (frame_size MD) (pc, live))"
    by (rule find_point_emitted [OF _ _ _ assms(9)])
      (use emitted_count(2) [OF assms(5)] assms(6) in \<open>simp_all del: le_bytes_numeral\<close>)
  then obtain a where a: "find_safepoint m fr p s = Ret a s"
      "bytes_at m a (point_bytes (frame_size MD) (pc, live))"
    using find_safepoint_run [OF assms(2,5,7), of s] by (auto simp: points_offset_def add.assoc simp del: le_bytes_numeral)
  have sp: "reg_rsp fr = Some sp" "sp \<noteq> 0"
    using assms(2) by (simp_all add: frame_stopped_at_def)
  have "a \<noteq> NULL" "p \<noteq> NULL"
    using load_mapped(1) [OF point_loads(1) [OF a(2)]] load_mapped(2) [OF emitted_count(1) [OF assms(5)]] assms(4)
    by auto
  then have "scan_stack_frame m dlsym fr s = collect_stack_root_pointers m fr a s"
    using assms(2,3) a(1) emitted_count(1) [OF assms(5)]
    by (auto simp: scan_stack_frame_def get_stack_frame_roots_def frame_stopped_at_def Let_def)
  with collect_stack_root_pointers_step [OF assms(1) a(2) assms(8) sp assms(10)] show ?thesis
    by simp
qed

lemma find_after_even_roots:
  assumes "frame_stopped_at fr MD pc sp" and "bytes_at m p (emit_map 8 MD [])"
    and "safe_points MD = [(a, ra), (pc, v # rb)]" and "a \<noteq> pc"
    and "even (length ra)" and "length ra < 2 ^ 31" and "0 < pc" and "pc < 2 ^ 32"
  shows "find_safepoint m fr p s = Aborted"
proof -
  let ?head = "le_bytes 4 (uint (of_nat (length (safe_points MD)) :: i32))"
  let ?fs = "frame_size MD"
  define out where "out = emit_point 8 ?fs (a, ra) ?head"
  let ?p1 = "p + of_nat (length ?head) + 4" and ?p2 = "p + of_nat (length out)"
  have all: "bytes_at m p (emit_point 8 ?fs (pc, v # rb) out)"
    using emitted_count(2) [OF assms(2)] assms(3) by (simp add: out_def del: le_bytes_numeral)
  have len: "length out = 24 + 4 * length ra"
    by (simp add: out_def emit_point_bytes length_point_bytes del: le_bytes_numeral)
  obtain k where "length ra = 2 * k"
    using assms(5) by (rule evenE)
  then have "length out = 8 * (3 + k)"
    using len by simp
  then have m8: "length out mod 8 = 0"
    by (simp only: mod_mult_self1_is_0)
  have second: "bytes_at m ?p2 (point_bytes ?fs (pc, v # rb))"
    using all unfolding emit_point_bytes [of ?fs "(pc, v # rb)" out] bytes_at_append m8 by simp
  have first: "bytes_at m ?p1 (point_bytes ?fs (a, ra))"
    by (rule bytes_at_point [of m p ?fs "[(pc, v # rb)]"])
      (use all in \<open>simp_all add: out_def del: le_bytes_numeral\<close>)
  have step: "?p1 + sizeof_PupGCSafepoint + 4 * scast (of_nat (length (snd (a, ra))) :: i32) + 4 = ?p2 + 4"
    by (simp only: sint_of_nat_32(2) [OF assms(6)] len snd_conv length_le_bytes)
      (simp add: sizeof_PupGCSafepoint_def algebra_simps)
  have pc: "le_bytes 8 (uint pc) = le_bytes 4 (uint pc) @ [0, 0, 0, 0]"
    by (rule le_bytes_high_zero) (use assms(8) in \<open>simp_all add: word_less_def\<close>)
  have shifted: "bytes_at m (?p2 + 4) ([0, 0, 0, 0] @ le_bytes 4 (uint ?fs))"
    using second unfolding point_bytes_def fst_conv pc bytes_at_append append_assoc
    by (simp add: add.assoc del: le_bytes_numeral)
  have "uint (2 ^ 32 * ucast ?fs :: u64) = 2 ^ 32 * uint ?fs"
    using uint_bounded [of ?fs] by (simp add: uint_word_ariths unsigned_ucast_eq take_bit_int_eq_self)
  then have other: "2 ^ 32 * ucast ?fs \<noteq> pc"
    using assms(7,8) uint_bounded [of ?fs] by (auto simp: word_less_def)
  have "load_i32 m (?p2 + 4 + live_count_offset) = Some v"
    using point_loads(3) [OF second] 
    by (auto simp: bytes_at_append live_count_offset_def sizeof_PupGCSafepoint_def add.assoc
        intro!: load_i32_bytes simp del: le_bytes_numeral)
  with load_shifted [OF shifted] other have miss: "find_point m pc (Suc 0) (?p2 + 4) s = Aborted"
    by simp
  have "find_point m pc (Suc (Suc 0)) ?p1 s = Aborted"
    unfolding find_point.simps(2) [of m pc "Suc 0"] point_loads(1,2) [OF first] deref_Some step miss
    using assms(4) by simp
  moreover have "length (safe_points MD) < 2 ^ 31" and two: "length (safe_points MD) = Suc (Suc 0)"
    using assms(3) by simp_all
  ultimately show ?thesis
    using find_safepoint_run [OF assms(1,2), of s] unfolding two
    by (simp add: points_offset_def add.assoc del: find_point.simps)
qed

section \<open>The maps of a program\<close>

text \<open>Emission starts at a multiple of 8, so a map is the same bytes wherever it is in the section.\<close>

lemma fold_emit_shift:
  "length pre mod 8 = 0 \<Longrightarrow> fold (emit_point 8 fsize) pts (pre @ out) = pre @ fold (emit_point 8 fsize) pts out"
proof (induction pts arbitrary: out)
  case (Cons pt pts)
  have "length (pre @ out) mod 8 = length out mod 8"
    using Cons.prems by (metis add.commute length_append mod_add_self2 mod_add_right_eq add_0_right)
  then have "emit_point 8 fsize pt (pre @ out) = pre @ emit_point 8 fsize pt out"
    by (simp add: emit_point_bytes)
  with Cons show ?case by simp
qed simp

lemma emit_map_shift: "length pre mod 8 = 0 \<Longrightarrow> emit_map 8 MD pre = pre @ emit_map 8 MD []"
  using fold_emit_shift [of pre "frame_size MD" "safe_points MD"] by (simp add: emit_map_def emit_int32_def)

text \<open>The section in memory: its bytes from \<open>base\<close> on, where \<open>dlsym\<close> finds its symbols.\<close>

definition loaded :: "mem \<Rightarrow> ptr \<Rightarrow> (string \<Rightarrow> ptr option) \<Rightarrow> data_section \<Rightarrow> bool" where
  "loaded m base dlsym sec \<longleftrightarrow>
     bytes_at m base (snd sec) \<and> (\<forall>(nm, k) \<in> set (fst sec). dlsym nm = Some (base + of_nat k))"

lemma section_aligned:
  assumes "assembles AP sect"
  shows "\<exists>bs. length (snd (sect out) @ bs) mod 8 = 0 \<and>
    sect (print_function AP 8 MD out) =
      (fst (sect out) @ [(''__gcmap_'' @ fn_name MD, length (snd (sect out) @ bs))],
       snd (sect out) @ bs @ emit_map 8 MD [])"
proof -
  let ?b = "snd (sect out)"
  let ?bs = "replicate ((8 - length ?b mod 8) mod 8) 0 :: u8 list"
  have al: "emit_alignment (address_align 8) ?b = ?b @ ?bs"
    by (simp add: emit_alignment_def address_align_def AddressAlignLog_def)
  have m8: "length (?b @ ?bs) mod 8 = 0"
    by (simp add: mod_add_left_eq [symmetric, of "length ?b"] mod_simps) presburger
  then show ?thesis
    using section_function [OF assms, of out "fst (sect out)" ?b 8 MD] emit_map_shift [OF m8]
    by (intro exI [of _ ?bs]) (simp add: al Let_def)
qed

lemma section_extends:
  assumes "assembles AP sect"
  shows "\<exists>ys bs. sect (finishAssembly AP 8 fns out) = (fst (sect out) @ ys, snd (sect out) @ bs)"
proof (induction fns arbitrary: out)
  case Nil
  show ?case
    by (rule exI [of _ "[]"], rule exI [of _ "[]"]) (simp add: finishAssembly_def)
next
  case (Cons MD fns)
  from section_aligned [OF assms, of out MD] Cons.IH [of "print_function AP 8 MD out"] show ?case
    by (auto simp: finishAssembly_def)
qed

lemma map_loaded:
  assumes "assembles AP sect" and "MD \<in> set fns" and "loaded m base dlsym (sect (finishAssembly AP 8 fns out))"
  shows "\<exists>p. dlsym (''__gcmap_'' @ fn_name MD) = Some p \<and> bytes_at m p (emit_map 8 MD [])"
  using assms(2,3)
proof (induction fns arbitrary: out)
  case (Cons F fns)
  let ?out = "print_function AP 8 F out"
  show ?case
  proof (cases "MD = F")
    case True
    from section_aligned [OF assms(1), of out F] obtain bs where bs: "sect ?out =
        (fst (sect out) @ [(''__gcmap_'' @ fn_name F, length (snd (sect out) @ bs))],
         snd (sect out) @ bs @ emit_map 8 F [])"
      by blast
    obtain ys zs where "sect (finishAssembly AP 8 (F # fns) out) = (fst (sect ?out) @ ys, snd (sect ?out) @ zs)"
      using section_extends [OF assms(1), of fns ?out] by (auto simp: finishAssembly_def)
    with Cons.prems(2) bs have "bytes_at m base ((snd (sect out) @ bs) @ emit_map 8 F [] @ zs)"
        "dlsym (''__gcmap_'' @ fn_name F) = Some (base + of_nat (length (snd (sect out) @ bs)))"
      by (simp_all add: loaded_def)
    with True show ?thesis
      unfolding bytes_at_append by simp
  next
    case False
    with Cons.IH [of ?out] Cons.prems show ?thesis
      by (simp add: finishAssembly_def)
  qed
qed simp

section \<open>Properties\<close>

text \<open>C14: Stack roots.  For a frame that stopped at a safe point of a function whose map the plugin
  emitted, the collector finds the map, finds the safe point in it and queues exactly the words at
  the live offsets of that safe point (it may abort only when malloc has not an answer for each) -
  provided that every safe point before it has an odd number of live roots.\<close>

theorem scan_stack_frame_queues_roots:
  assumes "queue_ok s NULL qs" and "frame_stopped_at fr MD pc sp"
    and "assembles AP sect" and "loaded m base dlsym (sect (finishAssembly AP 8 fns out))"
    and "MD \<in> set fns" and "m NULL = None"
    and "safe_points MD = pre @ (pc, live) # post" and "length (safe_points MD) < 2 ^ 31"
    and "length live < 2 ^ 31"
    and "\<forall>(lab, rs) \<in> set pre. lab \<noteq> pc \<and> odd (length rs) \<and> length rs < 2 ^ 31"
    and "map (\<lambda>v. load_u64 m (sp + scast v)) live = map Some roots"
  shows "scan_stack_frame m dlsym fr s = Aborted \<and> \<not> answers (length live) s \<or>
    (\<exists>s' qs'. scan_stack_frame m dlsym fr s = Ret () s' \<and> queue_ok s' NULL qs' \<and>
       queued s' NULL qs' = mset roots + queued s NULL qs \<and> queue_frame s s')"
proof -
  obtain p where "dlsym (''__gcmap_'' @ fn_name MD) = Some p" "bytes_at m p (emit_map 8 MD [])"
    using map_loaded [OF assms(3,5,4)] by blast
  then show ?thesis
    by (intro scan_emitted_frame [OF assms(1,2) _ assms(6) _ assms(7-11)])
qed

text \<open>The section as the printer leaves it.\<close>

definition demo_printer :: "data_section asm_printer" where
  "demo_printer = \<lparr>EmitAlignment = (\<lambda>al. apsnd (emit_alignment (2 ^ al))),
     EmitLabel = (\<lambda>nm (syms, bs). (syms @ [(nm, length bs)], bs)),
     EmitInt32 = (\<lambda>v. apsnd (emit_int32 v)), EmitSymbolValue = (\<lambda>v sz. apsnd (emit_symbol_value v sz))\<rparr>"

lemma demo_printer_assembles: "assembles demo_printer id"
  by (simp add: assembles_def demo_printer_def split_beta apfst_def map_prod_def)

lemma demo_section:
  "finishAssembly demo_printer 8 [MD] ([], []) = ([(''__gcmap_'' @ fn_name MD, 0)], emit_map 8 MD [])"
  using section_function [OF demo_printer_assembles, of "([], [])" "[]" "[]" 8 MD]
  by (simp add: finishAssembly_def emit_alignment_def)

text \<open>A function \<open>f\<close> at \<open>0x400000\<close> with two safe points of one root each, its map at \<open>0x600000\<close>, and a
  frame of it stopped at the second, whose word at offset 8 of the stack holds \<open>1048585\<close>.\<close>

definition demo_function :: gc_function_info where
  "demo_function = \<lparr>fn_name = ''f'', frame_size = 24, safe_points = [(0x400010, [8]), (0x400020, [8])]\<rparr>"

definition demo_frame :: unw_frame where
  "demo_frame = \<lparr>proc_name = Some (''f'', 0x20), start_ip = Some 0x400000, reg_rsp = Some 0x600030\<rparr>"

definition memory_at :: "ptr \<Rightarrow> u8 list \<Rightarrow> mem" where
  "memory_at a bs = (\<lambda>p. if unat (p - a) < length bs then Some (bs ! unat (p - a)) else None)"

definition demo_stack :: mem where
  "demo_stack = memory_at 0x600000
     (emit_map 8 demo_function [] @ [0, 0, 0, 0] @ le_bytes 8 1048585)"

lemma bytes_at_memory:
  "length (pre @ bs) < 2 ^ 64 \<Longrightarrow> bytes_at (memory_at a (pre @ bs)) (a + of_nat (length pre)) bs"
proof (induction bs arbitrary: pre)
  case (Cons b bs)
  have u: "unat (of_nat (length pre) :: u64) = length pre"
    using Cons.prems by (simp add: unsigned_of_nat take_bit_nat_eq_self)
  from Cons.IH [of "pre @ [b]"] Cons.prems show ?case
    by (simp add: memory_at_def u algebra_simps)
qed simp

lemma scan_stack_frame_queues_roots_witness:
  "\<exists>s qs. scan_stack_frame demo_stack (\<lambda>_. Some 0x600000) demo_frame demo_gc = Ret () s \<and>
     queued s NULL qs = {#1048585#}"
proof -
  let ?map = "emit_map 8 demo_function []"
  have len: "length ?map = 52"
    by (simp add: demo_function_def emit_point_bytes length_point_bytes emit_map_def emit_int32_def
        del: le_bytes_numeral)
  have map: "bytes_at demo_stack 0x600000 ?map"
    using bytes_at_memory [where pre = "[]" and bs = "?map @ [0, 0, 0, 0] @ le_bytes 8 1048585" and a = "0x600000"] len
    by (simp add: demo_stack_def bytes_at_append del: le_bytes_numeral)
  have "bytes_at demo_stack 0x600038 (le_bytes 8 (uint (1048585 :: u64)))"
    using bytes_at_memory [where pre = "?map @ [0, 0, 0, 0]" and bs = "le_bytes 8 1048585" and a = "0x600000"] len
    by (simp add: demo_stack_def del: le_bytes_numeral)
  then have word: "load_u64 demo_stack 0x600038 = Some 1048585"
    by (rule load_u64_bytes)
  have "demo_stack NULL = None"
    by (simp add: demo_stack_def memory_at_def len)
  moreover have "answers (length [8 :: i32]) demo_gc"
    using boot_step(4) by (simp add: answers_def demo_gc_def demo_tape_def)
  moreover have "frame_stopped_at demo_frame demo_function 0x400020 0x600030"
    by (simp add: frame_stopped_at_def demo_frame_def demo_function_def)
  ultimately show ?thesis
    using scan_stack_frame_queues_roots [OF demo_gc_ok(1) _ demo_printer_assembles, where m = demo_stack
      and fns = "[demo_function]" and out = "([], [])" and base = "0x600000" and fr = demo_frame and pc = "0x400020"
      and sp = "0x600030" and dlsym = "\<lambda>_. Some 0x600000" and pre = "[(0x400010, [8])]" and live = "[8]"
      and post = "[]" and roots = "[1048585]"] word demo_gc_ok(4) map
    by (auto simp: demo_section loaded_def demo_function_def)
qed

text \<open>C26: A bug in \<open>find_safepoint\<close>: it always steps over 4 bytes of padding behind a safe point, but
  the plugin aligns the next one, so that there is no padding behind an even number of roots.  In a
  function at an address below 4 GB with two safe points, the first with an even number of live
  roots and the second with at least one, a frame stopped at the second makes the collector
  abort.\<close>

theorem even_roots_hide_next_safepoint:
  assumes "frame_stopped_at fr MD pc sp"
    and "assembles AP sect" and "loaded m base dlsym (sect (finishAssembly AP 8 fns out))" and "MD \<in> set fns"
    and "safe_points MD = [(a, ra), (pc, v # rb)]" and "a \<noteq> pc"
    and "even (length ra)" and "length ra < 2 ^ 31" and "0 < pc" and "pc < 2 ^ 32" and "m NULL = None"
  shows "scan_stack_frame m dlsym fr s = Aborted"
proof -
  obtain p where p: "dlsym (''__gcmap_'' @ fn_name MD) = Some p" "bytes_at m p (emit_map 8 MD [])"
    using map_loaded [OF assms(2,4,3)] by blast
  have "find_safepoint m fr p s = Aborted"
    by (rule find_after_even_roots [OF assms(1) p(2) assms(5-10)])
  moreover have "p \<noteq> NULL"
    using load_mapped(2) [OF emitted_count(1) [OF p(2)]] assms(11) by auto
  ultimately show ?thesis
    using assms(1) p(1) emitted_count(1) [OF p(2)]
    by (auto simp: scan_stack_frame_def get_stack_frame_roots_def frame_stopped_at_def Let_def)
qed

text \<open>The same function with two roots at its first safe point.\<close>

definition demo_function_even :: gc_function_info where
  "demo_function_even = demo_function\<lparr>safe_points := [(0x400010, [8, 16]), (0x400020, [8])]\<rparr>"

lemma even_roots_hide_next_safepoint_witness:
  "scan_stack_frame (memory_at 0x600000 (emit_map 8 demo_function_even [])) (\<lambda>_. Some 0x600000) demo_frame
     demo_gc = Aborted"
proof -
  let ?map = "emit_map 8 demo_function_even []"
  have len: "length ?map = 52"
    by (simp add: demo_function_even_def demo_function_def emit_point_bytes length_point_bytes
        emit_map_def emit_int32_def del: le_bytes_numeral)
  have map: "bytes_at (memory_at 0x600000 ?map) 0x600000 ?map"
    using bytes_at_memory [where pre = "[]" and bs = ?map and a = "0x600000"] len
    by simp
  have "frame_stopped_at demo_frame demo_function_even 0x400020 0x600030"
    by (simp add: frame_stopped_at_def demo_frame_def demo_function_even_def demo_function_def)
  moreover have "memory_at 0x600000 ?map NULL = None"
    by (simp add: memory_at_def len)
  ultimately show ?thesis
    using even_roots_hide_next_safepoint [OF _ demo_printer_assembles, where m = "memory_at 0x600000 ?map"
      and fns = "[demo_function_even]" and out = "([], [])" and base = "0x600000" and fr = demo_frame
      and MD = demo_function_even and pc = "0x400020" and sp = "0x600030" and dlsym = "\<lambda>_. Some 0x600000"
      and a = "0x400010" and ra = "[8, 16]" and v = 8 and rb = "[]"] map
    by (simp add: demo_section loaded_def) (simp add: demo_function_even_def)
qed

end
