(* ===== verification/Gc.thy ===== *)
theory Gc
  imports RefQueue Classes
begin

text \<open>
  The collector: its state and counters (gc.c), marking (gc.c, gc/refqueue.c), the verdict on an
  object (object.c) and the functions that would copy live objects (gc.c, heap.c, object.c, class.c).
\<close>

section \<open>The state of the collector\<close>

definition set_live_mark_value :: "i32 \<Rightarrow> rt \<Rightarrow> (unit, rt) outcome" where
  "set_live_mark_value mark s = with_gc (live_mark_value_update (\<lambda>_. scast mark)) s"

text \<open>
  The new state is not yet the one of the heap.  The counters and \<open>current_segment\<close> are not
  initialised: they are what malloc left there.  \<open>dlopen_ok\<close>: the answer of dlopen.
\<close>

definition pup_gc_state_create :: "bool \<Rightarrow> rt \<Rightarrow> (gc_state option, rt) outcome" where
  "pup_gc_state_create dlopen_ok s =
     (case malloc (mallocs s) of (p, junk, t) \<Rightarrow>
        if p = NULL \<or> \<not> dlopen_ok then Ret None (s\<lparr>mallocs := t\<rparr>)
        else Ret (Some \<lparr>reference_queue_head = NULL, live_mark_value = 0, garbage_count = ucast junk,
            live_count = ucast junk, copy_target = NULL, current_segment = junk\<rparr>) (s\<lparr>mallocs := t\<rparr>))"

text \<open>The state that is destroyed is the one of the heap; \<open>dlclose\<close> has no effect that is modelled.\<close>

definition pup_gc_state_destroy :: "rt \<Rightarrow> (unit, rt) outcome" where
  "pup_gc_state_destroy s = deref (gc s) (\<lambda>_. Ret () (s\<lparr>gc := None\<rparr>))"

definition pup_gc_get_current_mark :: "rt \<Rightarrow> (i32, rt) outcome" where
  "pup_gc_get_current_mark s = deref (gc s) (\<lambda>g. Ret (ucast (live_mark_value g)) s)"

definition pup_gc_is_live_mark :: "i32 \<Rightarrow> rt \<Rightarrow> (bool, rt) outcome" where
  "pup_gc_is_live_mark mark_value s =
     andthen (pup_gc_get_current_mark s) (\<lambda>current s. Ret (current = mark_value) s)"

text \<open>The increment of an int is undefined when it overflows.\<close>

definition int_inc :: "i32 \<Rightarrow> i32 option" where
  "int_inc x = (if sint x < 2 ^ 31 - 1 then Some (x + 1) else None)"

definition pup_gc_inc_garbage_count :: "rt \<Rightarrow> (unit, rt) outcome" where
  "pup_gc_inc_garbage_count s =
     deref (gc s) (\<lambda>g. deref (int_inc (garbage_count g)) (\<lambda>n.
       with_gc (garbage_count_update (\<lambda>_. n)) s))"

definition pup_gc_inc_live_count :: "rt \<Rightarrow> (unit, rt) outcome" where
  "pup_gc_inc_live_count s =
     deref (gc s) (\<lambda>g. deref (int_inc (live_count g)) (\<lambda>n.
       with_gc (live_count_update (\<lambda>_. n)) s))"

definition pup_gc_period_start :: "rt \<Rightarrow> (unit, rt) outcome" where
  "pup_gc_period_start s =
     andthen (with_gc (garbage_count_update (\<lambda>_. 0)) s) (\<lambda>_ s.
     andthen (with_gc (live_count_update (\<lambda>_. 0)) s) (\<lambda>_ s.
     deref (gc s) (\<lambda>g. set_live_mark_value (if live_mark_value g = 0 then 1 else 0) s)))"

text \<open>The counts go to the standard error.\<close>

definition pup_gc_period_end :: "rt \<Rightarrow> (unit, rt) outcome" where
  "pup_gc_period_end s = deref (gc s) (\<lambda>_. Ret () s)"

section \<open>Marking\<close>

definition pup_gc_mark_reachable :: "ptr \<Rightarrow> rt \<Rightarrow> (bool, rt) outcome" where
  "pup_gc_mark_reachable ref s =
     deref (gc s) (\<lambda>g. pup_object_gc_mark ref (ucast (live_mark_value g)) s)"

definition ref_visitor :: "ref_slot \<Rightarrow> rt \<Rightarrow> (unit, rt) outcome" where
  "ref_visitor ref s =
     andthen (pup_gc_queue_for_marking (\<lambda>s. slot_value s ref) s) (\<lambda>_ s.
       deref (slot_value s ref) (\<lambda>_. Ret () s))"

definition scan_queue_ref :: "ptr \<Rightarrow> rt \<Rightarrow> (unit, rt) outcome" where
  "scan_queue_ref ref s =
     andthen (pup_gc_mark_reachable ref s) (\<lambda>fresh s.
       if fresh then pup_object_each_ref ref ref_visitor s else Ret () s)"

text \<open>The loop over a segment from index \<open>i\<close> on; \<open>in_use\<close> is read again at each turn.\<close>

partial_function (option) scan_loop :: "ptr \<Rightarrow> nat \<Rightarrow> rt \<Rightarrow> (unit, rt) outcome option" where
  "scan_loop seg i s =
     (case segments s seg of
        None \<Rightarrow> Some Undef
      | Some g \<Rightarrow>
          if \<not> i < in_use g then Some (Ret () s)
          else if \<not> i < length (refs g) then Some Undef
          else case scan_queue_ref (refs g ! i) s of
            Ret _ s' \<Rightarrow> scan_loop seg (Suc i) s'
          | r \<Rightarrow> Some r)"

declare scan_loop.simps [code]

definition pup_refqueuesegment_scan :: "ptr \<Rightarrow> rt \<Rightarrow> (unit, rt) outcome" where
  "pup_refqueuesegment_scan seg s = of_loop (scan_loop seg 0 s)"

partial_function (option) scan_heap_loop :: "rt \<Rightarrow> (unit, rt) outcome option" where
  "scan_heap_loop s =
     (case steal_segment_from_global_queue s of
        Ret seg s' \<Rightarrow>
          if seg = NULL then Some (Ret () s')
          else (case pup_refqueuesegment_scan seg s' of
              Ret _ s'' \<Rightarrow> scan_heap_loop s''
            | r \<Rightarrow> Some r)
      | Raised e s' \<Rightarrow> Some (Raised e s')
      | Aborted \<Rightarrow> Some Aborted
      | Exited \<Rightarrow> Some Exited
      | Undef \<Rightarrow> Some Undef
      | Diverged \<Rightarrow> Some Diverged)"

declare scan_heap_loop.simps [code]

definition pup_gc_scan_heap :: "rt \<Rightarrow> (unit, rt) outcome" where
  "pup_gc_scan_heap s = of_loop (scan_heap_loop s)"

section \<open>Collecting\<close>

text \<open>The body of \<open>copy_live_object\<close> is a declaration.\<close>

definition copy_live_object :: "ptr \<Rightarrow> rt \<Rightarrow> (unit, rt) outcome" where
  "copy_live_object obj s = Ret () s"

definition pup_object_gc_collect :: "ptr \<Rightarrow> rt \<Rightarrow> (unit, rt) outcome" where
  "pup_object_gc_collect obj s =
     deref (objects s obj) (\<lambda>ob.
     andthen (pup_gc_is_live_mark (ucast (gc_mark ob)) s) (\<lambda>live s.
       if live then andthen (pup_gc_inc_live_count s) (\<lambda>_ s. copy_live_object obj s)
       else pup_gc_inc_garbage_count s))"

text \<open>Only a message.\<close>

definition pup_object_attr_gc_collect :: "ptr \<Rightarrow> rt \<Rightarrow> (unit, rt) outcome" where
  "pup_object_attr_gc_collect attr s = Ret () s"

section \<open>Copying\<close>

definition pup_gc_alloc_for_copy :: "u64 \<Rightarrow> heap_kind \<Rightarrow> rt \<Rightarrow> (ptr, rt) outcome" where
  "pup_gc_alloc_for_copy sz k s =
     deref (gc s) (\<lambda>g.
     abort_on (copy_target g = NULL)
       (andthen (pup_heap_region_have_room_for (copy_target g) sz s) (\<lambda>room s.
        andthen
          (if room then Ret (copy_target g) s
           else case pup_heap_region_allocate s of (r, s) \<Rightarrow>
             abort_on (r = NULL)
               (andthen (with_gc (copy_target_update (\<lambda>_. r)) s) (\<lambda>_ s.
                andthen (pup_heap_add_to_global_heap (copy_target g) s) (\<lambda>_ s. Ret r s))))
          (\<lambda>r s. pup_heap_region_make_room_for r sz k s))))"

definition pup_heap_alloc_for_gc_copy :: "u64 \<Rightarrow> heap_kind \<Rightarrow> rt \<Rightarrow> (ptr, rt) outcome" where
  "pup_heap_alloc_for_gc_copy sz k s = abort_on (is_large_object sz) (pup_gc_alloc_for_copy sz k s)"

definition pup_env_alloc_obj_for_gc_copy :: "u64 \<Rightarrow> rt \<Rightarrow> (ptr, rt) outcome" where
  "pup_env_alloc_obj_for_gc_copy sz s = pup_heap_alloc_for_gc_copy sz PUP_KIND_OBJ s"

definition pup_env_alloc_attr_for_gc_copy :: "u64 \<Rightarrow> rt \<Rightarrow> (ptr, rt) outcome" where
  "pup_env_alloc_attr_for_gc_copy sz s = pup_heap_alloc_for_gc_copy sz PUP_KIND_ATTR s"

text \<open>The symbol passes through an int parameter.\<close>

definition copy_attr :: "ptr \<Rightarrow> rt \<Rightarrow> (ptr, rt) outcome" where
  "copy_attr attr s =
     andthen (pup_env_alloc_attr_for_gc_copy sizeof_AttributeListEntry s) (\<lambda>new_attr s.
     deref (attrs s attr) (\<lambda>a.
     andthen (attr_init new_attr (ucast (attr_sym a)) (attr_value a) NULL s) (\<lambda>_ s. Ret new_attr s)))"

text \<open>
  \<open>memcpy\<close> of the header.  The attributes of the copy are linked one by one behind \<open>target\<close>, the slot
  that is part of the state of the loop.
\<close>

definition store_attr :: "ptr \<Rightarrow> slot \<Rightarrow> ptr \<Rightarrow> rt \<Rightarrow> (unit, rt) outcome" where
  "store_attr obj target attr s =
     (case target of
        Head \<Rightarrow> with_object obj (attr_list_head_update (\<lambda>_. attr)) s
      | Next a \<Rightarrow> deref (attrs s a) (\<lambda>e. Ret () (s\<lparr>attrs := (attrs s)(a \<mapsto> e\<lparr>attr_next := attr\<rparr>)\<rparr>)))"

definition copy_attr_turn :: "ptr \<Rightarrow> ptr \<Rightarrow> slot \<times> rt \<Rightarrow> (unit, slot \<times> rt) outcome" where
  "copy_attr_turn new_obj attr = (\<lambda>(target, s).
     andthen (on_part (Pair target) (copy_attr attr s)) (\<lambda>a (target, s).
       on_part (Pair (Next a)) (store_attr new_obj target a s)))"

definition pup_object_gc_copy_instance :: "ptr \<Rightarrow> rt \<Rightarrow> (ptr, rt) outcome" where
  "pup_object_gc_copy_instance obj s =
     andthen (pup_env_alloc_obj_for_gc_copy sizeof_PupObject s) (\<lambda>new_obj s.
     deref (objects s obj) (\<lambda>ob.
     andthen (with_object new_obj (\<lambda>new. ob\<lparr>body := body new\<rparr>) s) (\<lambda>_ s.
     andthen (on_part snd (of_loop (each_node (\<lambda>(_, s). attrs s) attr_next (copy_attr_turn new_obj)
        (attr_list_head ob) (Head, s)))) (\<lambda>_ s.
     Ret new_obj s))))"

text \<open>The block of the copy of a class is of the kind of attributes; the copy shares their list.\<close>

definition pup_internal_class_gc_copy_instance :: "ptr \<Rightarrow> rt \<Rightarrow> (ptr, rt) outcome" where
  "pup_internal_class_gc_copy_instance obj s =
     andthen (pup_env_alloc_attr_for_gc_copy sizeof_PupClass s) (\<lambda>new_obj s.
     deref (objects s obj) (\<lambda>ob.
       Ret new_obj (s\<lparr>objects := (objects s)(new_obj \<mapsto> ob), attrs := (attrs s)(new_obj := None)\<rparr>)))"

text \<open>A call through a pointer that was never set is undefined, and so is one through \<open>NULL\<close>.\<close>

definition pup_class_gc_copy_instance :: "ptr \<Rightarrow> ptr \<Rightarrow> rt \<Rightarrow> (unit, rt) outcome" where
  "pup_class_gc_copy_instance class obj s =
     deref (class_at s class) (\<lambda>c.
       case gc_copy_instance c of
         Some Copy_object \<Rightarrow> andthen (pup_object_gc_copy_instance obj s) (\<lambda>_ s. Ret () s)
       | Some Copy_class \<Rightarrow> andthen (pup_internal_class_gc_copy_instance obj s) (\<lambda>_ s. Ret () s)
       | _ \<Rightarrow> Undef)"

section \<open>The graph of objects\<close>

definition unmarked :: "object \<Rightarrow> object" where
  "unmarked ob = ob\<lparr>gc_mark := 0\<rparr>"

text \<open>\<open>refers s p rs\<close>: the references the object at \<open>p\<close> holds, its class and its attributes.\<close>

definition refers :: "rt \<Rightarrow> ptr \<Rightarrow> ptr list \<Rightarrow> bool" where
  "refers s p rs \<longleftrightarrow>
     (\<exists>ob xs. objects s p = Some ob \<and> chain (attrs s) attr_next (attr_list_head ob) xs \<and>
        rs = otype ob # map (\<lambda>a. attr_value (the (attrs s a))) xs)"

definition edges :: "rt \<Rightarrow> (ptr \<times> ptr) set" where
  "edges s = {(p, r). \<exists>rs. refers s p rs \<and> r \<in> set rs}"

text \<open>Every object has references, and each is to an object: nothing dangles, and none is \<open>NULL\<close>.\<close>

definition graph_ok :: "rt \<Rightarrow> bool" where
  "graph_ok s \<longleftrightarrow> (\<forall>p \<in> dom (objects s). \<exists>rs. refers s p rs \<and> set rs \<subseteq> dom (objects s))"

text \<open>An object is marked when its bit is the live mark, which is 0 or 1.\<close>

definition live_mark :: "rt \<Rightarrow> i32" where
  "live_mark s = (case gc s of None \<Rightarrow> 0 | Some g \<Rightarrow> ucast (live_mark_value g))"

definition mark_bit_ok :: "rt \<Rightarrow> bool" where
  "mark_bit_ok s \<longleftrightarrow> live_mark s \<in> {0, 1}"

definition marked :: "rt \<Rightarrow> ptr \<Rightarrow> bool" where
  "marked s p \<longleftrightarrow> (\<exists>ob. objects s p = Some ob \<and> ucast (gc_mark ob) = live_mark s)"

lemma refers_unique: "refers s p rs \<Longrightarrow> refers s p ts \<Longrightarrow> rs = ts"
  by (auto simp: refers_def dest: chain_unique)

lemma unmarked_eq: "unmarked ob = unmarked ob' \<Longrightarrow> otype ob = otype ob' \<and> attr_list_head ob = attr_list_head ob'"
  by (cases ob; cases ob') (simp add: unmarked_def)

text \<open>What marking leaves alone: all but the marks and the queue.\<close>

definition scan_frame :: "rt \<Rightarrow> rt \<Rightarrow> bool" where
  "scan_frame s s' \<longleftrightarrow>
     (\<forall>q. map_option unmarked (objects s' q) = map_option unmarked (objects s q)) \<and> attrs s' = attrs s \<and>
     methods s' = methods s \<and> heap s' = heap s \<and> unwinds s' = unwinds s \<and> sym_tab s' = sym_tab s \<and>
     env s' = env s \<and> self s' = self s \<and> mmaps s' = mmaps s \<and> stdout s' = stdout s \<and>
     map_option gc_key (gc s') = map_option gc_key (gc s) \<and>
     (\<forall>q. idle s q \<longrightarrow> idle s' q \<and> segments s' q = segments s q)"

lemma scan_frame_refl [simp]: "scan_frame s s"
  by (simp add: scan_frame_def)

lemma scan_frame_trans: "scan_frame s s' \<Longrightarrow> scan_frame s' s'' \<Longrightarrow> scan_frame s s''"
  by (simp add: scan_frame_def)

lemma scan_frame_objects:
  assumes "scan_frame s s'"
  shows "dom (objects s') = dom (objects s)" and "refers s' = refers s" and "edges s' = edges s"
    and "graph_ok s' = graph_ok s" and "live_mark s' = live_mark s" and "mark_bit_ok s' = mark_bit_ok s"
proof -
  have u: "map_option unmarked (objects s' q) = map_option unmarked (objects s q)" for q
    using assms by (simp add: scan_frame_def)
  have n: "objects s' q = None \<longleftrightarrow> objects s q = None" for q
    using u [of q] by (cases "objects s' q"; cases "objects s q") simp_all
  show d: "dom (objects s') = dom (objects s)"
    using n by (simp add: dom_def)
  have a: "attrs s' = attrs s"
    using assms by (simp add: scan_frame_def)
  have "refers s' p rs = refers s p rs" for p rs
  proof (cases "objects s p")
    case None
    with n [of p] show ?thesis by (simp add: refers_def)
  next
    case (Some ob)
    then obtain ob' where ob': "objects s' p = Some ob'" "unmarked ob' = unmarked ob"
      using u [of p] by auto
    with Some a unmarked_eq [OF ob'(2)] show ?thesis by (simp add: refers_def)
  qed
  then show r: "refers s' = refers s"
    by (simp add: fun_eq_iff)
  then show "edges s' = edges s" "graph_ok s' = graph_ok s"
    using d by (simp_all add: edges_def graph_ok_def)
  have "map_option gc_key (gc s') = map_option gc_key (gc s)"
    using assms by (simp add: scan_frame_def)
  then show "live_mark s' = live_mark s"
    by (cases "gc s'"; cases "gc s") (simp_all add: live_mark_def gc_key_def)
  then show "mark_bit_ok s' = mark_bit_ok s"
    by (simp add: mark_bit_ok_def)
qed

lemma mark_frame_scan: "mark_frame s s' \<Longrightarrow> scan_frame s s'"
  by (simp add: mark_frame_def scan_frame_def queue_frame_def)

section \<open>Marking one reference\<close>

lemma queue_slot:
  assumes "\<And>s'. objects s' = objects s \<Longrightarrow> attrs s' = attrs s \<Longrightarrow> ref s' = Some r"
  shows "queue_for_marking ref c s = queue_for_marking (\<lambda>_. Some r) c s"
proof -
  have cong: "andthen m f = andthen m g" if "\<And>c1 s1. m = Ret c1 s1 \<Longrightarrow> f c1 s1 = g c1 s1" for m f g
    using that by (cases m) simp_all
  show ?thesis
    unfolding queue_for_marking_def
    by (rule cong, drule segment_choice_objects) (simp add: assms)
qed

lemma slot_value_same:
  "objects s' = objects s \<Longrightarrow> attrs s' = attrs s \<Longrightarrow> slot_value s' sl = slot_value s sl"
  by (cases sl) simp_all

lemma ref_visitor_queues:
  assumes "slot_value s sl = Some r"
  shows "ref_visitor sl s = pup_gc_queue_for_marking (\<lambda>_. Some r) s"
proof -
  have "queue_for_marking (\<lambda>s. slot_value s sl) c s = queue_for_marking (\<lambda>_. Some r) c s" for c
    by (rule queue_slot) (simp only: slot_value_same [where s = s] assms)
  then have q: "pup_gc_queue_for_marking (\<lambda>s. slot_value s sl) s = pup_gc_queue_for_marking (\<lambda>_. Some r) s"
    by (simp add: pup_gc_queue_for_marking_def)
  show ?thesis
  proof (cases "pup_gc_queue_for_marking (\<lambda>_. Some r) s")
    case (Ret u s')
    with gc_queue_objects [OF this] assms slot_value_same [of s' s sl] show ?thesis
      by (simp add: ref_visitor_def q)
  qed (simp_all add: ref_visitor_def q)
qed

lemma ref_visitor_keeps: "keeps_objects ref_visitor"
  by (auto simp: keeps_objects_def ref_visitor_def outcome_simps dest!: gc_queue_objects)

lemma visit_all_queues:
  "map (slot_value s) sls = map Some rs \<Longrightarrow>
     visit_all ref_visitor sls s = add_all (\<lambda>r. pup_gc_queue_for_marking (\<lambda>_. Some r)) rs s"
proof (induction sls arbitrary: rs s)
  case Nil
  then show ?case by simp
next
  case (Cons sl sls)
  then obtain r rs' where rs: "rs = r # rs'" "slot_value s sl = Some r" "map (slot_value s) sls = map Some rs'"
    by (cases rs) auto
  note v = ref_visitor_queues [OF rs(2)]
  show ?case
  proof (cases "pup_gc_queue_for_marking (\<lambda>_. Some r) s")
    case (Ret u s')
    have "slot_value s' = slot_value s"
      using slot_value_same [of s' s] gc_queue_objects [OF Ret] by (intro ext) simp
    with rs(3) have "map (slot_value s') sls = map Some rs'"
      by simp
    with Cons.IH [OF this] Ret v rs(1) show ?thesis by simp
  qed (use v rs(1) in simp_all)
qed

lemma each_ref_queues:
  assumes "refers s p rs"
  shows "pup_object_each_ref p ref_visitor s =
    add_all (\<lambda>r. pup_gc_queue_for_marking (\<lambda>_. Some r)) rs s"
proof -
  obtain ob xs where ob: "objects s p = Some ob" "chain (attrs s) attr_next (attr_list_head ob) xs"
      "rs = otype ob # map (\<lambda>a. attr_value (the (attrs s a))) xs"
    using assms by (auto simp: refers_def)
  then have "attr_chain s p xs"
    by (simp add: attr_chain_def)
  have "map_option attr_value (attrs s a) = Some (attr_value (the (attrs s a)))" if "a \<in> set xs" for a
    using chain_in_dom [OF ob(2) that] by auto
  then have "map (slot_value s) (TypeOf p # map ValueOf xs) = map Some rs"
    using ob(1,3) by simp
  note slots = this
  show ?thesis
    using visit_all_queues [OF slots] each_ref_visits [OF ref_visitor_keeps \<open>attr_chain s p xs\<close>]
    by (simp only:)
qed

lemma waiting_cong:
  assumes "segments s' = segments s" and "gc s' = gc s"
  shows "waiting s' = waiting s" "filling s' = filling s" "idle s' = idle s"
proof -
  have "refs_at s' = refs_at s" "queue_segments s' = queue_segments s"
    using assms by (intro ext; simp add: refs_at_def queue_segments_def)+
  then show "waiting s' = waiting s" "filling s' = filling s" "idle s' = idle s"
    using assms unfolding waiting_def queued_def filling_def idle_def by simp_all
qed

lemma ucast_bit:
  "(m :: i32) \<in> {0, 1} \<Longrightarrow> ucast (ucast m :: 1 word) = m"
  by auto

lemma mark_mallocs: "pup_gc_mark_reachable p s = Ret b s' \<Longrightarrow> mallocs s' = mallocs s"
  by (auto simp: pup_gc_mark_reachable_def pup_object_gc_mark_def with_object_def outcome_simps split: if_splits)

lemma mark_reachable_step:
  assumes ok: "marking_ok s" and bit: "mark_bit_ok s" and p: "p \<in> dom (objects s)"
  shows "if marked s p then pup_gc_mark_reachable p s = Ret False s
    else \<exists>s'. pup_gc_mark_reachable p s = Ret True s' \<and> marking_ok s' \<and> scan_frame s s' \<and>
      waiting s' = waiting s \<and> filling s' = filling s \<and> (\<forall>q. marked s' q \<longleftrightarrow> q = p \<or> marked s q)"
proof -
  obtain g qs where g: "gc s = Some g" "queue_ok s (current_segment g) qs"
    using ok by (auto simp: marking_ok_def)
  obtain ob where ob: "objects s p = Some ob"
    using p by blast
  have lm: "ucast (live_mark_value g) = live_mark s"
    using g by (simp add: live_mark_def)
  show ?thesis
  proof (cases "marked s p")
    case True
    with g ob lm show ?thesis
      by (simp add: marked_def pup_gc_mark_reachable_def pup_object_gc_mark_def)
  next
    case False
    let ?s = "s\<lparr>objects := (objects s)(p \<mapsto> ob\<lparr>gc_mark := ucast (live_mark s)\<rparr>)\<rparr>"
    have "pup_gc_mark_reachable p s = Ret True ?s"
      using False g ob lm by (simp add: marked_def pup_gc_mark_reachable_def pup_object_gc_mark_def
          with_object_def)
    moreover have "scan_frame s ?s"
      using ob waiting_cong(3) [of ?s s] by (simp add: scan_frame_def unmarked_def)
    moreover have "heap_wf ?s"
      by (rule heap_wf_cong [of s]) (use g ob in \<open>auto simp: queue_ok_def\<close>)
    then have "marking_ok ?s"
      using g by (auto simp: marking_ok_def queue_ok_def queue_segments_def)
    moreover have "live_mark ?s = live_mark s"
      by (simp add: live_mark_def)
    then have "marked ?s q \<longleftrightarrow> q = p \<or> marked s q" for q
      using bit by (simp add: marked_def mark_bit_ok_def ucast_bit)
    ultimately show ?thesis
      using False waiting_cong [of ?s s] by auto
  qed
qed

text \<open>
  The references the marker has still to queue, those of the unmarked objects; there is memory
  enough when malloc has an answer for each.
\<close>

definition references :: "rt \<Rightarrow> ptr \<Rightarrow> ptr list" where
  "references s p = (THE rs. refers s p rs)"

definition pending :: "rt \<Rightarrow> nat" where
  "pending s = (\<Sum>q \<in> {q \<in> dom (objects s). \<not> marked s q}. length (references s q))"

abbreviation enough :: "rt \<Rightarrow> bool" where
  "enough s \<equiv> answers (pending s) s"

lemma references_eq: "refers s p rs \<Longrightarrow> references s p = rs"
  unfolding references_def by (rule the_equality) (auto dest: refers_unique)

lemma pending_same:
  assumes "scan_frame s s'" and "\<And>q. marked s' q = marked s q"
  shows "pending s' = pending s"
  using scan_frame_objects(1,2) [OF assms(1)] assms(2) by (simp add: pending_def references_def)

lemma pending_marked:
  assumes "scan_frame s s'" and "\<And>q. marked s' q \<longleftrightarrow> q = p \<or> marked s q"
    and "refers s p rs" and "\<not> marked s p"
  shows "pending s = length rs + pending s'"
proof -
  let ?N = "{q \<in> dom (objects s). \<not> marked s q}"
  note fr = scan_frame_objects [OF assms(1)]
  have "p \<in> ?N"
    using assms(3,4) by (auto simp: refers_def)
  then have "pending s = length (references s p) + (\<Sum>q \<in> ?N - {p}. length (references s q))"
    unfolding pending_def by (intro sum.remove) simp_all
  moreover have "{q \<in> dom (objects s'). \<not> marked s' q} = ?N - {p}"
    using fr(1) assms(2) by auto
  then have "pending s' = (\<Sum>q \<in> ?N - {p}. length (references s q))"
    using fr(2) by (simp add: pending_def references_def)
  ultimately show ?thesis
    using references_eq [OF assms(3)] by simp
qed

text \<open>Scanning one reference: nothing if its object is marked, and else a mark and its references.\<close>

lemma scan_queue_ref_step:
  assumes ok: "marking_ok s" and bit: "mark_bit_ok s" and rs: "refers s p rs"
  shows "if marked s p then scan_queue_ref p s = Ret () s
    else scan_queue_ref p s = Aborted \<and> \<not> enough s \<or>
      (\<exists>s'. scan_queue_ref p s = Ret () s' \<and> marking_ok s' \<and> scan_frame s s' \<and> filling s' \<and>
         waiting s' = mset rs + waiting s \<and> (\<forall>q. marked s' q \<longleftrightarrow> q = p \<or> marked s q) \<and>
         (enough s \<longrightarrow> enough s'))"
proof -
  have p: "p \<in> dom (objects s)"
    using rs by (auto simp: refers_def)
  show ?thesis
  proof (cases "marked s p")
    case True
    with mark_reachable_step [OF ok bit p] show ?thesis
      by (simp add: scan_queue_ref_def)
  next
    case False
    with mark_reachable_step [OF ok bit p] obtain s1 where s1: "pup_gc_mark_reachable p s = Ret True s1"
        "marking_ok s1" "scan_frame s s1" "waiting s1 = waiting s" "\<And>q. marked s1 q \<longleftrightarrow> q = p \<or> marked s q"
      by auto
    have run: "scan_queue_ref p s = add_all (\<lambda>r. pup_gc_queue_for_marking (\<lambda>_. Some r)) rs s1"
      using s1(1) each_ref_queues [of s1 p rs] rs scan_frame_objects(2) [OF s1(3)]
      by (simp add: scan_queue_ref_def)
    have pend: "pending s = length rs + pending s1"
      by (rule pending_marked [OF s1(3,5) rs False])
    have room: "answers (length rs + pending s1) s1" if "enough s"
      using that mark_mallocs [OF s1(1)] answers_same [of s1 s] pend by simp
    from mark_queue.add_all_step [OF s1(2), of rs] show ?thesis
    proof (elim disjE exE conjE)
      assume "add_all (\<lambda>r. pup_gc_queue_for_marking (\<lambda>_. Some r)) rs s1 = Aborted" "\<not> answers (length rs) s1"
      with False run room answers_less [of "length rs + pending s1" s1 "length rs"] show ?thesis
        by auto
    next
      fix s2
      assume s2: "add_all (\<lambda>r. pup_gc_queue_for_marking (\<lambda>_. Some r)) rs s1 = Ret () s2" "marking_ok s2"
        "waiting s2 = mset rs + waiting s1" "mark_frame s1 s2"
      have "rs \<noteq> []"
        using rs by (auto simp: refers_def)
      then have "filling s2"
        using s2(3,4) by (simp add: mark_frame_def)
      moreover have m: "marked s2 q \<longleftrightarrow> marked s1 q" for q
        using s2(4) scan_frame_objects(5) [OF mark_frame_scan [OF s2(4)]]
        by (simp add: marked_def mark_frame_def queue_frame_def)
      moreover have "enough s2" if "enough s"
        using mark_queue.add_all_room [OF s2(1) room [OF that]] pending_same [OF mark_frame_scan [OF s2(4)] m]
        by simp
      ultimately show ?thesis
        using False run s1 s2 scan_frame_trans [OF s1(3) mark_frame_scan [OF s2(4)]] by simp
    qed
  qed
qed

section \<open>Marking a segment\<close>

definition reach :: "rt \<Rightarrow> ptr set \<Rightarrow> ptr set" where
  "reach s A = rtrancl (edges s) `` A"

lemma reach_base: "A \<subseteq> reach s A"
  by (auto simp: reach_def)

lemma reach_mono: "A \<subseteq> B \<Longrightarrow> reach s A \<subseteq> reach s B"
  by (auto simp: reach_def)

lemma reach_refers: "p \<in> reach s A \<Longrightarrow> refers s p rs \<Longrightarrow> set rs \<subseteq> reach s A"
  unfolding reach_def edges_def by (auto intro: rtrancl_into_rtrancl)

lemma reach_reach: "B \<subseteq> reach s A \<Longrightarrow> reach s B \<subseteq> reach s A"
  unfolding reach_def by (auto intro: rtrancl_trans)

lemma graph_ok_reach:
  assumes "graph_ok s" and "A \<subseteq> dom (objects s)"
  shows "reach s A \<subseteq> dom (objects s)"
proof
  fix q
  assume "q \<in> reach s A"
  then obtain p where p: "p \<in> A" "(p, q) \<in> rtrancl (edges s)"
    by (auto simp: reach_def)
  from p(2) show "q \<in> dom (objects s)"
  proof induction
    case base
    with p(1) assms(2) show ?case by blast
  next
    case (step y z)
    then obtain rs where "refers s y rs" "z \<in> set rs"
      by (auto simp: edges_def)
    moreover obtain ts where "refers s y ts" "set ts \<subseteq> dom (objects s)"
      using assms(1) step.IH unfolding graph_ok_def by blast
    ultimately show ?case
      using refers_unique by blast
  qed
qed

text \<open>
  What scanning the references \<open>L\<close> does: their objects get marked and with a new mark the references
  of the object get queued; nothing gets unmarked or taken off the queue, and only what can be reached
  from \<open>L\<close> is marked or queued.
\<close>

definition scanned :: "rt \<Rightarrow> ptr list \<Rightarrow> rt \<Rightarrow> bool" where
  "scanned s L s' \<longleftrightarrow>
     marking_ok s' \<and> scan_frame s s' \<and> set L \<subseteq> {q. marked s' q} \<and>
     (\<forall>q. marked s q \<longrightarrow> marked s' q) \<and> set_mset (waiting s) \<subseteq> set_mset (waiting s') \<and>
     (\<forall>q rs. marked s' q \<longrightarrow> \<not> marked s q \<longrightarrow> refers s q rs \<longrightarrow> set rs \<subseteq> set_mset (waiting s')) \<and>
     set_mset (waiting s') \<subseteq> set_mset (waiting s) \<union> reach s (set L) \<and>
     (\<forall>q. marked s' q \<longrightarrow> marked s q \<or> q \<in> reach s (set L)) \<and>
     (filling s \<or> s' \<noteq> s \<longrightarrow> filling s') \<and> (s' \<noteq> s \<longrightarrow> (\<exists>q. marked s' q \<and> \<not> marked s q))"

lemma scanned_Nil: "marking_ok s \<Longrightarrow> scanned s [] s"
  by (simp add: scanned_def)

lemma scanned_old:
  assumes "scanned s L s'" and "marked s r"
  shows "scanned s (r # L) s'"
proof -
  have sub: "reach s (set L) \<subseteq> reach s (set (r # L))"
    by (rule reach_mono) auto
  have "set (r # L) \<subseteq> {q. marked s' q}"
    using assms unfolding scanned_def by auto
  with assms(1) sub show ?thesis
    unfolding scanned_def by blast
qed

lemma scanned_new:
  assumes r: "marking_ok s1" "scan_frame s s1" "filling s1" "waiting s1 = mset rs + waiting s"
      "\<And>q. marked s1 q \<longleftrightarrow> q = r \<or> marked s q" "refers s r rs" "\<not> marked s r"
    and L: "scanned s1 L s2"
  shows "scanned s (r # L) s2"
proof -
  note fr = scan_frame_objects [OF r(2)]
  have re: "reach s1 = reach s"
    using fr(3) by (simp add: reach_def fun_eq_iff)
  have sub: "reach s (set L) \<subseteq> reach s (set (r # L))"
    by (rule reach_mono) auto
  have rr: "r \<in> reach s (set (r # L))"
    using reach_base [of "set (r # L)" s] by simp
  have rs: "set rs \<subseteq> reach s (set (r # L))"
    by (rule reach_refers [OF rr r(6)])
  have w: "set_mset (waiting s1) = set rs \<union> set_mset (waiting s)"
    using r(4) by simp
  have 1: "marking_ok s2" "scan_frame s s2" "set L \<subseteq> {q. marked s2 q}" "\<And>q. marked s1 q \<Longrightarrow> marked s2 q"
      "set_mset (waiting s1) \<subseteq> set_mset (waiting s2)" "filling s2"
    using L r(2,3) scan_frame_trans unfolding scanned_def by blast+
  have 2: "set ts \<subseteq> set_mset (waiting s2)" if "marked s2 q" "\<not> marked s q" "refers s q ts" for q ts
  proof (cases "q = r")
    case True
    then have "ts = rs"
      using refers_unique [OF that(3)] r(6) by simp
    with w 1(5) show ?thesis by blast
  next
    case False
    then have "\<not> marked s1 q"
      using r(5) that(2) by simp
    with L that fr(2) show ?thesis
      unfolding scanned_def by simp
  qed
  have 3: "set_mset (waiting s2) \<subseteq> set_mset (waiting s) \<union> reach s (set (r # L))"
    using L w sub rs unfolding scanned_def re by blast
  have 4: "marked s q \<or> q \<in> reach s (set (r # L))" if "marked s2 q" for q
  proof -
    have "marked s1 q \<or> q \<in> reach s (set L)"
      using L that by (simp add: scanned_def re)
    with sub rr r(5) [of q] show ?thesis by auto
  qed
  have 5: "\<exists>q. marked s2 q \<and> \<not> marked s q"
    using 1(4) [of r] r(5,7) by blast
  have 6: "set (r # L) \<subseteq> {q. marked s2 q}" "\<And>q. marked s q \<Longrightarrow> marked s2 q"
    using 1(3) 1(4) r(5) by auto
  have 7: "set_mset (waiting s) \<subseteq> set_mset (waiting s2)"
    using w 1(5) by blast
  show ?thesis
    unfolding scanned_def
    by (intro conjI allI impI; (rule 1 6 7 3 5 | (rule 4, assumption) | (rule 6(2), assumption) |
        (rule 2, assumption+)))
qed

lemma scan_loop_step:
  assumes "idle s seg" and "segments s seg = Some sg" and "in_use sg \<le> length (refs sg)"
    and "L = drop i (contents sg)" and "marking_ok s" and "mark_bit_ok s" and "graph_ok s"
    and "set L \<subseteq> dom (objects s)"
  shows "scan_loop seg i s = Some Aborted \<and> \<not> enough s \<or>
    (\<exists>s'. scan_loop seg i s = Some (Ret () s') \<and> scanned s L s' \<and> (enough s \<longrightarrow> enough s'))"
  using assms
proof (induction L arbitrary: i s)
  case Nil
  then have "\<not> i < in_use sg"
    by (simp add: contents_def)
  with Nil show ?case
    by (simp add: scan_loop.simps scanned_Nil)
next
  case (Cons r L)
  have len: "length (contents sg) = in_use sg"
    using Cons.prems(3) by (simp add: contents_def)
  have i: "i < in_use sg"
    using Cons.prems(4) len by (metis drop_eq_Nil2 list.distinct(1) not_less)
  have L: "set L \<subseteq> dom (objects s)"
    using Cons.prems(8) by simp
  have hd: "contents sg ! i = r" "L = drop (Suc i) (contents sg)"
    using Cons.prems(4) i len by (simp_all add: Cons_nth_drop_Suc [symmetric])
  then have r: "refs sg ! i = r"
    using i by (simp add: contents_def)
  have "r \<in> dom (objects s)"
    using Cons.prems(8) by simp
  then obtain rs where rs: "refers s r rs"
    using Cons.prems(7) unfolding graph_ok_def by blast
  note step = scan_queue_ref_step [OF Cons.prems(5,6) rs]
  have turn: "scan_loop seg i s = (case scan_queue_ref r s of Ret _ s' \<Rightarrow> scan_loop seg (Suc i) s' | x \<Rightarrow> Some x)"
    using Cons.prems(2,3) i r by (simp add: scan_loop.simps [of seg i])
  show ?case
  proof (cases "marked s r")
    case True
    have "scan_loop seg (Suc i) s = Some Aborted \<and> \<not> enough s \<or>
        (\<exists>s'. scan_loop seg (Suc i) s = Some (Ret () s') \<and> scanned s L s' \<and> (enough s \<longrightarrow> enough s'))"
      by (rule Cons.IH [OF Cons.prems(1-3) hd(2) Cons.prems(5-7) L])
    with True step turn scanned_old show ?thesis by auto
  next
    case False
    show ?thesis
    proof (cases "scan_queue_ref r s = Aborted")
      case True
      with turn step False show ?thesis by auto
    next
      case no_abort: False
      then obtain s1 where s1: "scan_queue_ref r s = Ret () s1" "marking_ok s1" "scan_frame s s1" "filling s1"
          "waiting s1 = mset rs + waiting s" "\<And>q. marked s1 q \<longleftrightarrow> q = r \<or> marked s q" "enough s \<longrightarrow> enough s1"
        using step False by auto
      note fr = scan_frame_objects [OF s1(3)]
      have seg: "idle s1 seg" "segments s1 seg = Some sg"
        using s1(3) Cons.prems(1,2) by (simp_all add: scan_frame_def)
      have "scan_loop seg (Suc i) s1 = Some Aborted \<and> \<not> enough s1 \<or>
          (\<exists>s'. scan_loop seg (Suc i) s1 = Some (Ret () s') \<and> scanned s1 L s' \<and> (enough s1 \<longrightarrow> enough s'))"
        by (rule Cons.IH [OF seg Cons.prems(3) hd(2) s1(2)]) (use Cons.prems(6,7) L fr in simp_all)
      with turn s1(1,7) scanned_new [OF s1(2-6) rs False] show ?thesis by auto
    qed
  qed
qed

section \<open>Marking the heap\<close>

text \<open>Taking the first segment off the queue.\<close>

lemma head_stolen:
  assumes ok: "marking_ok s" and qs: "queue_segments s (seg # qs)" and g: "gc s = Some g"
    and sg: "segments s seg = Some sg"
  defines "s' \<equiv> s\<lparr>gc := Some (g\<lparr>reference_queue_head := next_segment sg\<rparr>)\<rparr>"
  shows "marking_ok s'" "queue_segments s' qs" "idle s' seg" "waiting s = mset (contents sg) + waiting s'"
    "scan_frame s s'" "filling s' = filling s" "marked s' = marked s"
proof -
  obtain ps where ps: "queue_ok s (current_segment g) ps"
    using ok g by (auto simp: marking_ok_def)
  then have "ps = seg # qs"
    using queue_segments_unique [OF _ qs] by (simp add: queue_ok_def)
  with ps have qok: "queue_ok s (current_segment g) (seg # qs)"
    by simp
  have ch: "chain (segments s) next_segment (reference_queue_head g) (seg # qs)"
    using qs g by (simp add: queue_segments_def)
  have out: "seg \<notin> set qs" "seg \<noteq> current_segment g"
    using chain_distinct [OF ch] qok by (auto simp: queue_ok_def)
  show qs1: "queue_segments s' qs"
    using ch sg by (simp add: s'_def queue_segments_def)
  have "heap_wf s'"
    by (rule heap_wf_cong [of s]) (use qok in \<open>auto simp: s'_def queue_ok_def\<close>)
  then have "queue_ok s' (current_segment g) qs"
    using qok qs1 by (simp add: s'_def queue_ok_def)
  then show "marking_ok s'"
    by (auto simp: s'_def marking_ok_def)
  have same: "refs_at s' = refs_at s"
    by (intro ext) (simp add: s'_def refs_at_def)
  have "waiting s' = queued s (current_segment g) qs"
    using waiting_eq [OF _ qs1, of "g\<lparr>reference_queue_head := next_segment sg\<rparr>"]
    by (simp add: queued_def same) (simp add: s'_def)
  then show "waiting s = mset (contents sg) + waiting s'"
    using waiting_eq [OF g qs] sg by (simp add: queued_def refs_at_def)
  have "idle s' q" if q: "idle s q" for q
  proof -
    obtain rs where rs: "queue_segments s rs" "q \<in> dom (segments s)" "q \<notin> set (current_segment g # rs)"
      using q g by (auto simp: idle_def)
    have "rs = seg # qs"
      by (rule queue_segments_unique [OF rs(1) qs])
    with rs(2,3) qs1 show ?thesis
      by (auto simp: idle_def s'_def)
  qed
  then show "scan_frame s s'"
    using g by (simp add: s'_def scan_frame_def gc_key_def)
  show "idle s' seg"
    using qs1 out sg by (auto simp: idle_def s'_def)
  show "filling s' = filling s"
    using g by (simp add: filling_def same) (simp add: s'_def)
  show "marked s' = marked s"
    using g by (simp add: s'_def marked_def live_mark_def fun_eq_iff)
qed

lemma steal_step:
  assumes ok: "marking_ok s" and qs: "queue_segments s qs"
  shows "case qs of [] \<Rightarrow> steal_segment_from_global_queue s = Ret NULL s
    | seg # qs' \<Rightarrow> \<exists>s1 sg. steal_segment_from_global_queue s = Ret seg s1 \<and> seg \<noteq> NULL \<and>
        marking_ok s1 \<and> queue_segments s1 qs' \<and> idle s1 seg \<and> segments s1 seg = Some sg \<and>
        in_use sg \<le> length (refs sg) \<and> waiting s = mset (contents sg) + waiting s1 \<and>
        scan_frame s s1 \<and> filling s1 = filling s \<and> marked s1 = marked s \<and> mallocs s1 = mallocs s"
proof -
  obtain g ps where g: "gc s = Some g" "queue_ok s (current_segment g) ps"
    using ok by (auto simp: marking_ok_def)
  have ch: "chain (segments s) next_segment (reference_queue_head g) qs"
    using qs g(1) by (simp add: queue_segments_def)
  show ?thesis
  proof (cases qs)
    case Nil
    with ch g(1) show ?thesis
      by (simp add: steal_segment_once)
  next
    case (Cons seg qs')
    then obtain sg where sg: "reference_queue_head g = seg" "seg \<noteq> NULL" "segments s seg = Some sg"
      using ch by auto
    have "segment_ok sg"
      using g(2) sg(3) by (auto simp: queue_ok_def)
    moreover have "steal_segment_from_global_queue s =
        Ret seg (s\<lparr>gc := Some (g\<lparr>reference_queue_head := next_segment sg\<rparr>)\<rparr>)"
      using steal_segment_once [OF g(1)] sg by simp
    moreover note head_stolen [OF ok qs [unfolded Cons] g(1) sg(3)]
    ultimately show ?thesis
      using sg Cons by (auto simp: segment_ok_def)
  qed
qed

definition marked_from :: "rt \<Rightarrow> rt \<Rightarrow> bool" where
  "marked_from s s' \<longleftrightarrow>
     marking_ok s' \<and> scan_frame s s' \<and> {q. marked s q} \<subseteq> {q. marked s' q} \<and>
     set_mset (waiting s) \<subseteq> {q. marked s' q} \<union> set_mset (waiting s') \<and>
     (\<forall>q rs. marked s' q \<longrightarrow> \<not> marked s q \<longrightarrow> refers s q rs \<longrightarrow>
        set rs \<subseteq> {q. marked s' q} \<union> set_mset (waiting s')) \<and>
     set_mset (waiting s') \<union> {q. marked s' q} \<subseteq> {q. marked s q} \<union> reach s (set_mset (waiting s)) \<and>
     (filling s \<or> {q. marked s' q} \<noteq> {q. marked s q} \<longrightarrow> filling s')"

lemma waiting_reach:
  assumes w: "set_mset (waiting s) = set C \<union> W" and w2: "W2 \<subseteq> W \<union> reach s (set C)"
  shows "reach s (set C) \<subseteq> reach s (set_mset (waiting s))" "reach s W2 \<subseteq> reach s (set_mset (waiting s))"
proof -
  show C: "reach s (set C) \<subseteq> reach s (set_mset (waiting s))"
    by (rule reach_mono) (simp add: w)
  have "W2 \<subseteq> reach s (set_mset (waiting s))"
    using w2 C w reach_base [of "set_mset (waiting s)" s] by blast
  then show "reach s W2 \<subseteq> reach s (set_mset (waiting s))"
    by (rule reach_reach)
qed

lemma marked_from_turn:
  assumes steal: "waiting s = mset C + waiting s1" "scan_frame s s1" "filling s1 = filling s" "marked s1 = marked s"
    and turn: "scanned s1 C s2" and rest: "marked_from s2 s'"
  shows "marked_from s s'"
proof -
  have fr: "scan_frame s1 s2" "scan_frame s2 s'"
    using turn rest by (simp_all add: scanned_def marked_from_def)
  note f1 = scan_frame_objects [OF steal(2)] and f2 = scan_frame_objects [OF fr(1)]
  have re: "reach s1 = reach s" "reach s2 = reach s" and rf: "refers s1 = refers s" "refers s2 = refers s"
    using f1(2,3) f2(2,3) by (simp_all add: reach_def fun_eq_iff)
  have w0: "set_mset (waiting s) = set C \<union> set_mset (waiting s1)"
    using steal(1) by simp
  have c: "set C \<subseteq> {q. marked s2 q}" "{q. marked s q} \<subseteq> {q. marked s2 q}"
      "set_mset (waiting s1) \<subseteq> set_mset (waiting s2)"
    using turn steal(4) by (auto simp: scanned_def)
  have new: "set rs \<subseteq> set_mset (waiting s2)" if "marked s2 q" "\<not> marked s q" "refers s q rs" for q rs
    using turn that rf(1) steal(4) by (simp add: scanned_def)
  have w2: "set_mset (waiting s2) \<subseteq> set_mset (waiting s1) \<union> reach s (set C)"
      "{q. marked s2 q} \<subseteq> {q. marked s q} \<union> reach s (set C)"
    using turn steal(4) by (auto simp: scanned_def re)
  have r: "{q. marked s2 q} \<subseteq> {q. marked s' q}"
      "set_mset (waiting s2) \<subseteq> {q. marked s' q} \<union> set_mset (waiting s')"
      "set_mset (waiting s') \<union> {q. marked s' q} \<subseteq> {q. marked s2 q} \<union> reach s (set_mset (waiting s2))"
    using rest by (simp_all add: marked_from_def re)
  have rnew: "set rs \<subseteq> {q. marked s' q} \<union> set_mset (waiting s')"
    if "marked s' q" "\<not> marked s2 q" "refers s q rs" for q rs
    using rest that rf(2) unfolding marked_from_def by simp
  note sub = waiting_reach [OF w0 w2(1)]
  show ?thesis
    unfolding marked_from_def
  proof (intro conjI allI impI)
    show "marking_ok s'"
      using rest by (simp add: marked_from_def)
    show "scan_frame s s'"
      using scan_frame_trans [OF scan_frame_trans [OF steal(2) fr(1)] fr(2)] .
    show "{q. marked s q} \<subseteq> {q. marked s' q}"
      using c(2) r(1) by blast
    show "set_mset (waiting s) \<subseteq> {q. marked s' q} \<union> set_mset (waiting s')"
      using w0 c(1,3) r(1,2) by blast
    show "set_mset (waiting s') \<union> {q. marked s' q} \<subseteq> {q. marked s q} \<union> reach s (set_mset (waiting s))"
      using r(3) w2(2) sub by blast
    fix q rs
    assume q: "marked s' q" "\<not> marked s q" "refers s q rs"
    show "set rs \<subseteq> {q. marked s' q} \<union> set_mset (waiting s')"
    proof (cases "marked s2 q")
      case True
      with new [OF True q(2,3)] r(2) show ?thesis by blast
    next
      case False
      with rnew q show ?thesis by blast
    qed
  next
    assume a: "filling s \<or> {q. marked s' q} \<noteq> {q. marked s q}"
    have "filling s2 \<or> {q. marked s' q} \<noteq> {q. marked s2 q}"
    proof (cases "s2 = s1")
      case True
      with a steal(3,4) show ?thesis by simp
    next
      case False
      with turn show ?thesis by (simp add: scanned_def)
    qed
    with rest show "filling s'"
      by (simp add: marked_from_def)
  qed
qed

text \<open>Each turn marks an object or leaves one segment less, so the loop ends.\<close>

lemma turn_smaller:
  assumes fr: "scan_frame s s1" "marked s1 = marked s" and turn: "scanned s1 C s2"
    and qs: "queue_segments s1 qs" "queue_segments s2 ps"
  shows "((s2, ps), (s, seg # qs)) \<in> measures [\<lambda>(s, qs). card {q \<in> dom (objects s). \<not> marked s q},
    \<lambda>(s, qs). length qs]"
proof -
  have "scan_frame s1 s2"
    using turn by (simp add: scanned_def)
  note f1 = scan_frame_objects [OF fr(1)] and f2 = scan_frame_objects [OF this]
  show ?thesis
  proof (cases "s2 = s1")
    case True
    with qs have "ps = qs"
      using queue_segments_unique by blast
    with True f1(1) fr(2) show ?thesis by simp
  next
    case False
    with turn obtain q where q: "marked s2 q" "\<not> marked s q"
      using fr(2) by (auto simp: scanned_def)
    have "q \<in> dom (objects s)"
      using q(1) f1(1) f2(1) by (auto simp: marked_def)
    moreover have "marked s p \<Longrightarrow> marked s2 p" for p
      using turn fr(2) by (simp add: scanned_def)
    ultimately have "{q \<in> dom (objects s2). \<not> marked s2 q} \<subset> {q \<in> dom (objects s). \<not> marked s q}"
      using q f1(1) f2(1) by auto
    then have "card {q \<in> dom (objects s2). \<not> marked s2 q} < card {q \<in> dom (objects s). \<not> marked s q}"
      by (intro psubset_card_mono) simp_all
    then show ?thesis by simp
  qed
qed

lemma scan_heap_loop_step:
  assumes "queue_segments s qs" and "marking_ok s" and "mark_bit_ok s" and "graph_ok s"
    and "set_mset (waiting s) \<subseteq> dom (objects s)"
  shows "scan_heap_loop s = Some Aborted \<and> \<not> enough s \<or>
    (\<exists>s'. scan_heap_loop s = Some (Ret () s') \<and> marked_from s s' \<and> queue_segments s' [])"
  using assms
proof (induction "(s, qs)" arbitrary: s qs rule: wf_induct_rule [OF wf_measures
      [of "[\<lambda>(s, qs). card {q \<in> dom (objects s). \<not> marked s q}, \<lambda>(s, qs). length qs]"]])
  case (1 s qs)
  note step = steal_step [OF 1(3,2)]
  show ?case
  proof (cases qs)
    case Nil
    with step 1(2,3) reach_base [of "set_mset (waiting s)" s] show ?thesis
      by (auto simp: scan_heap_loop.simps marked_from_def)
  next
    case (Cons seg qs')
    with step obtain s1 sg where steal: "steal_segment_from_global_queue s = Ret seg s1" "seg \<noteq> NULL"
        and ok1: "marking_ok s1" "queue_segments s1 qs'"
        and seg: "idle s1 seg" "segments s1 seg = Some sg" "in_use sg \<le> length (refs sg)"
        and w: "waiting s = mset (contents sg) + waiting s1"
        and fr: "scan_frame s s1" "filling s1 = filling s" "marked s1 = marked s"
        and m: "mallocs s1 = mallocs s"
      by auto
    have en1: "enough s1 = enough s"
      using pending_same [OF fr(1)] fr(3) answers_same [OF m] by simp
    note f1 = scan_frame_objects [OF fr(1)]
    have g1: "mark_bit_ok s1" "graph_ok s1" "set (contents sg) \<subseteq> dom (objects s1)"
      using 1(4-6) f1 w by simp_all
    have "contents sg = drop 0 (contents sg)"
      by simp
    from scan_loop_step [OF seg this ok1(1) g1] show ?thesis
    proof (elim disjE exE conjE)
      assume "scan_loop seg 0 s1 = Some Aborted" "\<not> enough s1"
      with steal en1 show ?thesis
        by (simp add: scan_heap_loop.simps [of s] pup_refqueuesegment_scan_def)
    next
      fix s2
      assume s2: "scan_loop seg 0 s1 = Some (Ret () s2)" "scanned s1 (contents sg) s2" "enough s1 \<longrightarrow> enough s2"
      have fr2: "scan_frame s1 s2" "marking_ok s2"
        using s2(2) by (simp_all add: scanned_def)
      note f2 = scan_frame_objects [OF fr2(1)]
      obtain g ps where ps: "gc s2 = Some g" "queue_segments s2 ps"
        using fr2(2) by (auto simp: marking_ok_def queue_ok_def)
      have w2: "set_mset (waiting s2) \<subseteq> dom (objects s2)"
      proof -
        have "reach s1 (set (contents sg)) \<subseteq> dom (objects s1)"
          by (rule graph_ok_reach [OF g1(2,3)])
        with s2(2) 1(6) w f1(1) f2(1) show ?thesis
          unfolding scanned_def by auto
      qed
      note smaller = turn_smaller [OF fr(1,3) s2(2) ok1(2) ps(2), of seg, folded Cons]
      have "scan_heap_loop s2 = Some Aborted \<and> \<not> enough s2 \<or>
          (\<exists>s'. scan_heap_loop s2 = Some (Ret () s') \<and> marked_from s2 s' \<and> queue_segments s' [])"
        by (rule 1(1) [OF smaller ps(2) fr2(2)]) (use g1 f2 w2 in simp_all)
      then show ?thesis
        using steal s2(1,3) en1 marked_from_turn [OF w fr s2(2)]
        by (auto simp: scan_heap_loop.simps [of s] pup_refqueuesegment_scan_def)
    qed
  qed
qed

section \<open>Properties\<close>


text \<open>
  A process with two objects: \<open>Object\<close>, at 1048585, whose class is \<open>Class\<close>, at 1048681, which is its own
  class; \<open>Object\<close> is queued as a root.
\<close>

definition demo_roots :: rt where
  "demo_roots =
     (case obj_init 1048585 1048681 two_classes of
        Ret _ s \<Rightarrow>
          (case obj_init 1048681 1048681 s of
             Ret _ s \<Rightarrow> s\<lparr>mallocs := drop 5 demo_tape,
               segments := [20480 \<mapsto> \<lparr>next_segment = 0, in_use = 1, refs = 1048585 # replicate 199 0\<rparr>],
               gc := Some \<lparr>reference_queue_head = 20480, live_mark_value = 1, garbage_count = 0,
                 live_count = 0, copy_target = 0, current_segment = 0\<rparr>\<rparr>
           | _ \<Rightarrow> s)
      | _ \<Rightarrow> two_classes)"

lemma demo_roots_at:
  "objects demo_roots = [1048585 \<mapsto> \<lparr>otype = 1048681, attr_list_head = 0, gc_mark = 0, body = ClassBody demo_object_class\<rparr>,
     1048681 \<mapsto> \<lparr>otype = 1048681, attr_list_head = 0, gc_mark = 0, body = ClassBody demo_class_class\<rparr>]"
  "segments demo_roots = [20480 \<mapsto> \<lparr>next_segment = 0, in_use = 1, refs = 1048585 # replicate 199 0\<rparr>]"
  "gc demo_roots = Some \<lparr>reference_queue_head = 20480, live_mark_value = 1, garbage_count = 0,
                 live_count = 0, copy_target = 0, current_segment = 0\<rparr>"
  "mallocs demo_roots = drop 5 demo_tape" "heap demo_roots = heap two_classes"
  "mmaps demo_roots = mmaps two_classes" "attrs demo_roots = attrs two_classes"
  "methods demo_roots = methods two_classes" "unwinds demo_roots = unwinds two_classes"
  "sym_tab demo_roots = sym_tab two_classes"
  by (simp_all add: demo_roots_def obj_init_def with_object_def two_classes_at fun_upd_twist)

lemma two_classes_segments: "segments two_classes = Map.empty"
  by (simp add: two_classes_def class_eval boot_eval zero_object_def)

lemma demo_roots_ok:
  "marking_ok demo_roots" "mark_bit_ok demo_roots" "graph_ok demo_roots" "waiting demo_roots = {#1048585#}"
  "\<not> marked demo_roots q" "(1048585, 1048681) \<in> edges demo_roots"
proof -
  have wf: "heap_wf two_classes"
    using two_classes_ok(1) by (simp add: memory_ok_def)
  have m: "malloc (mallocs two_classes) = (20480, 0, drop 5 demo_tape)"
    by (simp add: two_classes_at(3) demo_tape_def)
  have "dom (objects demo_roots) = dom (objects two_classes)"
    by (auto simp: demo_roots_at two_classes_at)
  then have "heap_wf demo_roots"
    by (intro heap_wf_malloc [OF wf m])
      (auto simp: demo_roots_at malloced_def two_classes_segments)
  then have q: "queue_ok demo_roots 0 [20480]"
    by (simp add: queue_ok_def queue_segments_def demo_roots_at segment_ok_def REF_QUEUE_SEGMENT_SIZE_def)
  then show "marking_ok demo_roots"
    by (auto simp: marking_ok_def demo_roots_at)
  have "queue_segments demo_roots [20480]"
    using q by (simp add: queue_ok_def)
  from waiting_eq [OF demo_roots_at(3) this] show "waiting demo_roots = {#1048585#}"
    by (simp add: queued_def refs_at_def demo_roots_at contents_def)
  show "mark_bit_ok demo_roots" "\<not> marked demo_roots q"
    by (auto simp: mark_bit_ok_def live_mark_def marked_def demo_roots_at split: if_splits)
  have r: "refers demo_roots 1048585 [1048681]" "refers demo_roots 1048681 [1048681]"
    by (simp_all add: refers_def demo_roots_at)
  then show "(1048585, 1048681) \<in> edges demo_roots"
    by (auto simp: edges_def)
  show "graph_ok demo_roots"
    using r by (auto simp: graph_ok_def demo_roots_at split: if_splits)
qed

text \<open>What marking \<open>demo_roots\<close> comes to: \<open>Object\<close> has its mark and \<open>Class\<close> has none.\<close>

lemma demo_run:
  "\<exists>s. pup_gc_scan_heap demo_roots = Ret () s \<and> \<not> marked s 1048681 \<and> filling s \<and> marked s 1048585"
proof -
  have rep: "replicate 200 (0 :: ptr) = 0 # replicate 199 0"
    by (simp add: numeral_eq_Suc)
  let ?s = "demo_roots\<lparr>gc := Some \<lparr>reference_queue_head = 0, live_mark_value = 1, garbage_count = 0,
                 live_count = 0, copy_target = 0, current_segment = 0\<rparr>\<rparr>"
  have steal: "steal_segment_from_global_queue demo_roots = Ret 20480 ?s"
    by (simp add: steal_segment_once [OF demo_roots_at(3)] demo_roots_at(2))
  have mark: "pup_gc_mark_reachable 1048585 ?s = Ret True (?s\<lparr>objects := (objects ?s)(1048585 \<mapsto>
      \<lparr>otype = 1048681, attr_list_head = 0, gc_mark = 1, body = ClassBody demo_object_class\<rparr>)\<rparr>)"
    (is "_ = Ret True ?s1")
    by (simp add: pup_gc_mark_reachable_def pup_object_gc_mark_def with_object_def demo_roots_at)
  have r: "refers ?s1 1048585 [1048681]"
    by (simp add: refers_def demo_roots_at)
  have q: "pup_gc_queue_for_marking (\<lambda>_. Some 1048681) ?s1 = Ret ()
      (?s1\<lparr>mallocs := drop 6 demo_tape, segments := (segments demo_roots)(24576 \<mapsto>
         \<lparr>next_segment = 0, in_use = 1, refs = 1048681 # replicate 199 0\<rparr>),
       gc := Some \<lparr>reference_queue_head = 0, live_mark_value = 1, garbage_count = 0,
                 live_count = 0, copy_target = 0, current_segment = 24576\<rparr>\<rparr>)" (is "_ = Ret () ?s2")
    by (simp add: pup_gc_queue_for_marking_def queue_for_marking_def demo_roots_at
      segment_create_run [where p = 24576 and junk = 0 and t = "drop 6 demo_tape"] demo_tape_def
      pup_refqueuesegment_add_def pup_refqueueseqment_has_free_space_def add_unchecked_def
      with_segment_def with_gc_def REF_QUEUE_SEGMENT_SIZE_def rep)
  have "pup_object_each_ref 1048585 ref_visitor ?s1 = Ret () ?s2"
    using each_ref_queues [OF r] q by simp
  then have "scan_queue_ref 1048585 ?s = Ret () ?s2"
    using mark by (simp add: scan_queue_ref_def)
  then have "scan_loop 20480 0 ?s = Some (Ret () ?s2)"
    by (simp add: scan_loop.simps [of 20480 0] scan_loop.simps [of 20480 "Suc 0"] demo_roots_at)
  moreover have "scan_heap_loop ?s2 = Some (Ret () ?s2)"
    by (rule trans [OF scan_heap_loop.simps]) (simp add: steal_segment_once)
  ultimately have "scan_heap_loop demo_roots = Some (Ret () ?s2)"
    using steal by (simp add: scan_heap_loop.simps [of demo_roots] pup_refqueuesegment_scan_def)
  moreover have "\<not> marked ?s2 1048681" "filling ?s2" "marked ?s2 1048585"
    by (simp_all add: marked_def live_mark_def filling_def refs_at_def contents_def demo_roots_at)
  ultimately show ?thesis by (auto simp: pup_gc_scan_heap_def)
qed




end
