(* ===== verification/Collect.thy ===== *)
theory Collect
  imports Gc Exceptions
begin

text \<open>
  The end of objects and of regions: the hooks that destroy objects (class.c, string.c, fixnum.c,
  object.c), the walk over the blocks of a region, the collection of the full regions and the
  destruction of the heap (heap.c).  The answers of mprotect and munmap for the region at an address
  are parameters.
\<close>

section \<open>Destroying an object\<close>

text \<open>A loop that reads the next pointer of a node before it runs the body, which may free the node.\<close>

partial_function (option) each_ahead ::
    "('s \<Rightarrow> ptr \<rightharpoonup> 'n) \<Rightarrow> ('n \<Rightarrow> ptr) \<Rightarrow> (ptr \<Rightarrow> 's \<Rightarrow> (unit, 's) outcome) \<Rightarrow> ptr \<Rightarrow> 's \<Rightarrow>
       (unit, 's) outcome option" where
  "each_ahead rd nx f p s =
     (if p = NULL then Some (Ret () s)
      else case rd s p of
        None \<Rightarrow> Some Undef
      | Some n \<Rightarrow>
          (case f p s of
             Ret u s' \<Rightarrow> each_ahead rd nx f (nx n) s'
           | Raised e s' \<Rightarrow> Some (Raised e s')
           | Aborted \<Rightarrow> Some Aborted
           | Exited \<Rightarrow> Some Exited
           | Undef \<Rightarrow> Some Undef
           | Diverged \<Rightarrow> Some Diverged))"

declare each_ahead.simps [code]

definition free_method :: "ptr \<Rightarrow> rt \<Rightarrow> (unit, rt) outcome" where
  "free_method p s = deref (methods s p) (\<lambda>_. Ret () (s\<lparr>methods := (methods s)(p := None)\<rparr>))"

text \<open>The blocks of names and of the characters of strings are values of the model, and freeing one of
  them changes nothing else.\<close>

definition pup_internal_class_destroy_instance :: "ptr \<Rightarrow> rt \<Rightarrow> (unit, rt) outcome" where
  "pup_internal_class_destroy_instance obj s =
     deref (class_at s obj) (\<lambda>c.
     andthen (of_loop (each_ahead methods meth_next free_method (method_list_head c) s)) (\<lambda>_ s.
       pup_object_destroy_instance obj s))"

definition string_destroy_instance :: "ptr \<Rightarrow> rt \<Rightarrow> (unit, rt) outcome" where
  "string_destroy_instance obj s =
     deref (objects s obj) (\<lambda>ob.
       case body ob of StringBody _ \<Rightarrow> pup_object_destroy_instance obj s | _ \<Rightarrow> Undef)"

definition fixnum_destroy_instance :: "ptr \<Rightarrow> rt \<Rightarrow> (unit, rt) outcome" where
  "fixnum_destroy_instance obj s = Ret () s"

text \<open>A call through a hook that is \<open>NULL\<close> is undefined.\<close>

definition pup_class_destroy_instance :: "ptr \<Rightarrow> ptr \<Rightarrow> rt \<Rightarrow> (unit, rt) outcome" where
  "pup_class_destroy_instance class obj s =
     deref (class_at s class) (\<lambda>c.
       case destroy_instance c of
         Some Destroy_object \<Rightarrow> pup_object_destroy_instance obj s
       | Some Destroy_class \<Rightarrow> pup_internal_class_destroy_instance obj s
       | Some Destroy_string \<Rightarrow> string_destroy_instance obj s
       | Some Destroy_fixnum \<Rightarrow> fixnum_destroy_instance obj s
       | None \<Rightarrow> Undef)"

definition pup_object_destroy :: "ptr \<Rightarrow> rt \<Rightarrow> (unit, rt) outcome" where
  "pup_object_destroy obj s =
     deref (objects s obj) (\<lambda>ob. pup_class_destroy_instance (otype ob) obj s)"

section \<open>The blocks of a region\<close>

text \<open>
  The loop of \<open>destroy_region_objects\<close> and \<open>collect_unmarked_objects_in_region\<close>, from \<open>addr\<close> on: the
  bump pointer of the region and the size of the block are read at each turn, the size after the
  visit.
\<close>

partial_function (option) walk_blocks ::
    "(heap_object \<Rightarrow> ptr \<Rightarrow> rt \<Rightarrow> (unit, rt) outcome) \<Rightarrow> ptr \<Rightarrow> ptr \<Rightarrow> rt \<Rightarrow> (unit, rt) outcome option" where
  "walk_blocks visit r addr s =
     (case regions (heap s) r of
        None \<Rightarrow> Some Undef
      | Some R \<Rightarrow>
          if \<not> addr < allocated R then Some (Ret () s)
          else case headers (heap s) addr of
            None \<Rightarrow> Some Undef
          | Some obj \<Rightarrow>
              (case visit obj (addr + data_offset) s of
                 Ret _ s' \<Rightarrow>
                   (case headers (heap s') addr of
                      None \<Rightarrow> Some Undef
                    | Some obj \<Rightarrow> walk_blocks visit r (addr + alloc_size_for (object_size obj)) s')
               | x \<Rightarrow> Some x))"

declare walk_blocks.simps [code]

definition destroy_block :: "heap_object \<Rightarrow> ptr \<Rightarrow> rt \<Rightarrow> (unit, rt) outcome" where
  "destroy_block obj p s =
     (case kind obj of PUP_KIND_OBJ \<Rightarrow> pup_object_destroy p s | PUP_KIND_ATTR \<Rightarrow> Ret () s)"

definition destroy_region_objects :: "ptr \<Rightarrow> rt \<Rightarrow> (unit, rt) outcome" where
  "destroy_region_objects r s =
     deref (regions (heap s) r) (\<lambda>R. of_loop (walk_blocks destroy_block r (region R) s))"

text \<open>munmap takes away what was in the megabyte; when it fails there is only a message.\<close>

definition munmap :: "ptr \<Rightarrow> rt \<Rightarrow> rt" where
  "munmap a s = s\<lparr>objects := objects s |` (- mapped a), attrs := attrs s |` (- mapped a),
     heap := (heap s)\<lparr>headers := headers (heap s) |` (- mapped a)\<rparr>\<rparr>"

definition free_region :: "(ptr \<Rightarrow> bool) \<Rightarrow> ptr \<Rightarrow> rt \<Rightarrow> (unit, rt) outcome" where
  "free_region munmap_ok r s =
     andthen (destroy_region_objects r s) (\<lambda>_ s.
     deref (regions (heap s) r) (\<lambda>R.
       let s = (if munmap_ok (region R) then munmap (region R) s else s)
       in Ret () (s\<lparr>heap := (heap s)\<lparr>regions := (regions (heap s))(r := None)\<rparr>\<rparr>)))"

section \<open>Collecting the full regions\<close>

definition load_region_next :: "ptr \<Rightarrow> rt \<Rightarrow> (ptr, rt) outcome" where
  "load_region_next r s = deref (regions (heap s) r) (\<lambda>R. Ret (region_next R) s)"

definition steal_heap_region :: "rt \<Rightarrow> (ptr, rt) outcome" where
  "steal_heap_region s =
     of_loop (retry (\<lambda>s.
       andthen (global_heap_head s) (\<lambda>r s.
         if r = NULL then Ret (Some NULL) s
         else
           andthen (load_region_next r s) (\<lambda>nx s.
           andthen (swap_heap_region_head r nx s) (\<lambda>swapped s.
             Ret (if swapped then Some r else None) s)))) s)"

definition collect_heap_object :: "heap_object \<Rightarrow> ptr \<Rightarrow> rt \<Rightarrow> (unit, rt) outcome" where
  "collect_heap_object obj p s =
     (case kind obj of
        PUP_KIND_OBJ \<Rightarrow> pup_object_gc_collect p s
      | PUP_KIND_ATTR \<Rightarrow> pup_object_attr_gc_collect p s)"

definition prevent_mutator_access :: "(ptr \<Rightarrow> bool) \<Rightarrow> ptr \<Rightarrow> rt \<Rightarrow> (unit, rt) outcome" where
  "prevent_mutator_access mprotect_ok r s =
     andthen (with_region r (read_only_update (\<lambda>_. True)) s) (\<lambda>_ s.
     deref (regions (heap s) r) (\<lambda>R. abort_on (\<not> mprotect_ok (region R)) (Ret () s)))"

definition atomic_region_start :: "ptr \<Rightarrow> rt \<Rightarrow> (ptr, rt) outcome" where
  "atomic_region_start r s = deref (regions (heap s) r) (\<lambda>R. Ret (region R) s)"

definition collect_unmarked_objects_in_region :: "(ptr \<Rightarrow> bool) \<Rightarrow> ptr \<Rightarrow> rt \<Rightarrow> (unit, rt) outcome" where
  "collect_unmarked_objects_in_region mprotect_ok r s =
     andthen (prevent_mutator_access mprotect_ok r s) (\<lambda>_ s.
     andthen (atomic_region_start r s) (\<lambda>addr s.
       of_loop (walk_blocks collect_heap_object r addr s)))"

text \<open>One turn of the loop of \<open>collect_unmarked_objects\<close>, with a region from the list.\<close>

definition collect_region ::
    "(ptr \<Rightarrow> bool) \<Rightarrow> (ptr \<Rightarrow> bool) \<Rightarrow> ptr \<Rightarrow> rt \<Rightarrow> (unit, rt) outcome" where
  "collect_region mprotect_ok munmap_ok r s =
     andthen (collect_unmarked_objects_in_region mprotect_ok r s) (\<lambda>_ s.
     andthen (with_region r (\<lambda>R. R\<lparr>allocated := region R\<rparr>) s) (\<lambda>_ s.
       free_region munmap_ok r s))"

partial_function (option) collect_loop ::
    "(ptr \<Rightarrow> bool) \<Rightarrow> (ptr \<Rightarrow> bool) \<Rightarrow> rt \<Rightarrow> (unit, rt) outcome option" where
  "collect_loop mprotect_ok munmap_ok s =
     (case andthen (steal_heap_region s) (\<lambda>r s.
         if r = NULL then Ret False s
         else andthen (collect_region mprotect_ok munmap_ok r s) (\<lambda>_ s. Ret True s)) of
        Ret again s' \<Rightarrow> if again then collect_loop mprotect_ok munmap_ok s' else Some (Ret () s')
      | Raised e s' \<Rightarrow> Some (Raised e s')
      | Aborted \<Rightarrow> Some Aborted
      | Exited \<Rightarrow> Some Exited
      | Undef \<Rightarrow> Some Undef
      | Diverged \<Rightarrow> Some Diverged)"

declare collect_loop.simps [code]

definition collect_unmarked_objects :: "(ptr \<Rightarrow> bool) \<Rightarrow> (ptr \<Rightarrow> bool) \<Rightarrow> rt \<Rightarrow> (unit, rt) outcome" where
  "collect_unmarked_objects mprotect_ok munmap_ok s = of_loop (collect_loop mprotect_ok munmap_ok s)"

section \<open>Destroying the heap\<close>

definition pup_heap_thread_destroy :: "(ptr \<Rightarrow> bool) \<Rightarrow> rt \<Rightarrow> (unit, rt) outcome" where
  "pup_heap_thread_destroy munmap_ok s =
     andthen (get_thread_info s) (\<lambda>ti s.
     deref (threads (heap s) ti) (\<lambda>T.
       if local_region T \<noteq> NULL then free_region munmap_ok (local_region T) s else Ret () s))"

definition destroy_global_heap :: "(ptr \<Rightarrow> bool) \<Rightarrow> rt \<Rightarrow> (unit, rt) outcome" where
  "destroy_global_heap munmap_ok s =
     andthen (global_heap_head s) (\<lambda>tail s.
       of_loop (each_ahead (\<lambda>s. regions (heap s)) region_next (free_region munmap_ok) tail s))"

text \<open>The collector thread has stopped; the key of the threads is deleted last.\<close>

definition pup_heap_destroy :: "(ptr \<Rightarrow> bool) \<Rightarrow> rt \<Rightarrow> (unit, rt) outcome" where
  "pup_heap_destroy munmap_ok s =
     andthen (destroy_global_heap munmap_ok s) (\<lambda>_ s. pup_heap_thread_destroy munmap_ok s)"

section \<open>Visiting the blocks of a region\<close>

fun visit_blocks ::
    "(heap_object \<Rightarrow> ptr \<Rightarrow> rt \<Rightarrow> (unit, rt) outcome) \<Rightarrow> (ptr \<times> heap_object) list \<Rightarrow> rt \<Rightarrow> (unit, rt) outcome" where
  "visit_blocks visit [] s = Ret () s"
| "visit_blocks visit ((q, obj) # bs) s =
     andthen (visit obj (q + data_offset) s) (\<lambda>_ s. visit_blocks visit bs s)"

text \<open>What a visit may not touch: the regions and the headers of the blocks.\<close>

locale block_visitor =
  fixes visit :: "heap_object \<Rightarrow> ptr \<Rightarrow> rt \<Rightarrow> (unit, rt) outcome"
  assumes keeps_heap: "visit obj p s = Ret u s' \<Longrightarrow> heap s' = heap s"
begin

lemma blocks_heap: "visit_blocks visit bs s = Ret u s' \<Longrightarrow> heap s' = heap s"
proof (induction bs arbitrary: s)
  case (Cons b bs)
  obtain q obj where b: "b = (q, obj)"
    by (cases b)
  with Cons.prems obtain v s1 where s1: "visit obj (q + data_offset) s = Ret v s1"
      "visit_blocks visit bs s1 = Ret u s'"
    by (auto simp: outcome_simps)
  with Cons.IH [OF s1(2)] keeps_heap [OF s1(1)] show ?case
    by simp
qed simp

text \<open>The walk visits the blocks of the region, in order, and ends.\<close>

lemma walk_visits:
  assumes "blocks (headers (heap s)) a (allocated R) bs" and "regions (heap s) r = Some R"
  shows "walk_blocks visit r a s = Some (visit_blocks visit bs s)"
  using assms
proof (induction bs arbitrary: a s)
  case Nil
  then show ?case by (simp add: walk_blocks.simps)
next
  case (Cons b bs)
  obtain q obj where b: "b = (q, obj)"
    by (cases b)
  with Cons.prems have h: "q = a" "headers (heap s) a = Some obj"
      "unat a + unat (object_size obj) + 16 \<le> unat (allocated R)"
      "blocks (headers (heap s)) (a + alloc_size_for (object_size obj)) (allocated R) bs"
    by auto
  then have lt: "a < allocated R"
    by (simp add: word_less_nat_alt)
  note turn = walk_blocks.simps [of visit r a s]
  show ?case
  proof (cases "visit obj (a + data_offset) s")
    case (Ret u s1)
    have heap: "heap s1 = heap s"
      by (rule keeps_heap [OF Ret])
    have "walk_blocks visit r (a + alloc_size_for (object_size obj)) s1 = Some (visit_blocks visit bs s1)"
      by (rule Cons.IH) (use h(4) Cons.prems(2) heap in simp_all)
    with turn Ret Cons.prems(2) lt h(1,2) heap b show ?thesis
      by simp
  qed (use turn Cons.prems(2) lt h(1,2) b in simp_all)
qed

end

text \<open>What every turn of a loop keeps, the loop keeps.\<close>

lemma each_ahead_keeps:
  assumes "each_ahead rd nx f p s = Some (Ret u s')" and "\<And>p s u s'. f p s = Ret u s' \<Longrightarrow> keep s' = keep s"
  shows "keep s' = keep s"
proof -
  have "(\<forall>p s u s'. f p s = Ret u s' \<longrightarrow> keep s' = keep s) \<longrightarrow> r = Ret u s' \<longrightarrow> keep s' = keep s"
    if "each_ahead rd nx f p s = Some r" for r
  proof (rule each_ahead.raw_induct [OF _ that, of "\<lambda>rd nx f p s r.
      (\<forall>p s u s'. f p s = Ret u s' \<longrightarrow> keep s' = keep s) \<longrightarrow> r = Ret u s' \<longrightarrow> keep s' = keep s"], goal_cases)
    case (1 loop rd nx f p s r)
    then show ?case
      by (auto split: if_splits option.splits outcome.splits)
  qed
  with assms show ?thesis by blast
qed

text \<open>Destroying an object changes the method lists, collecting one the counters, and nothing else.\<close>

definition but_methods :: "rt \<Rightarrow> rt" where
  "but_methods s = s\<lparr>methods := Map.empty\<rparr>"

definition but_gc :: "rt \<Rightarrow> rt" where
  "but_gc s = s\<lparr>gc := None\<rparr>"

lemma destroy_keeps: "pup_object_destroy p s = Ret u s' \<Longrightarrow> but_methods s' = but_methods s"
proof -
  have loop: "but_methods s2 = but_methods s1"
    if "each_ahead methods meth_next free_method q s1 = Some (Ret v s2)" for q s1 v s2
    by (rule each_ahead_keeps [OF that]) (auto simp: free_method_def but_methods_def outcome_simps)
  have "but_methods s2 = but_methods s1" if "of_loop (each_ahead methods meth_next free_method q s1) = Ret v s2"
    for q s1 v s2
    using that loop [of q s1 v s2] by (cases "each_ahead methods meth_next free_method q s1") simp_all
  note of_class = this
  assume "pup_object_destroy p s = Ret u s'"
  then obtain ob c d where ob: "objects s p = Some ob" "destroy_instance c = Some d"
      "pup_class_destroy_instance (otype ob) p s = Ret u s'" "class_at s (otype ob) = Some c"
    by (auto simp: pup_object_destroy_def pup_class_destroy_instance_def outcome_simps split: option.splits)
  then show "but_methods s' = but_methods s"
    by (cases d; cases "body ob") (auto simp: pup_class_destroy_instance_def pup_internal_class_destroy_instance_def
        string_destroy_instance_def fixnum_destroy_instance_def pup_object_destroy_instance_def outcome_simps
        dest: of_class)
qed

lemma collect_keeps: "pup_object_gc_collect p s = Ret u s' \<Longrightarrow> but_gc s' = but_gc s"
  by (auto simp: pup_object_gc_collect_def pup_gc_is_live_mark_def pup_gc_get_current_mark_def
      pup_gc_inc_live_count_def pup_gc_inc_garbage_count_def copy_live_object_def with_gc_def but_gc_def
      outcome_simps split: if_splits)

lemma but_heap: "but_methods s' = but_methods s \<Longrightarrow> heap s' = heap s" "but_gc s' = but_gc s \<Longrightarrow> heap s' = heap s"
  by (auto simp: but_methods_def but_gc_def dest: arg_cong [of _ _ heap])

interpretation destroying: block_visitor destroy_block
proof
  fix obj p s u s'
  assume "destroy_block obj p s = Ret u s'"
  then show "heap s' = heap s"
    using but_heap(1) [OF destroy_keeps] by (cases "kind obj") (auto simp: destroy_block_def)
qed

interpretation collecting: block_visitor collect_heap_object
proof
  fix obj p s u s'
  assume "collect_heap_object obj p s = Ret u s'"
  then show "heap s' = heap s"
    using but_heap(2) [OF collect_keeps]
    by (cases "kind obj") (auto simp: collect_heap_object_def pup_object_attr_gc_collect_def)
qed

section \<open>Counting the objects of a region\<close>

definition objects_of :: "(ptr \<times> heap_object) list \<Rightarrow> ptr list" where
  "objects_of bs = map (\<lambda>(q, obj). q + data_offset) (filter (\<lambda>(q, obj). kind obj = PUP_KIND_OBJ) bs)"

lemma objects_of_Nil [simp]: "objects_of [] = []"
  by (simp add: objects_of_def)

lemma objects_of_Cons [simp]:
  "objects_of ((q, obj) # bs) = (if kind obj = PUP_KIND_OBJ then [q + data_offset] else []) @ objects_of bs"
  by (simp add: objects_of_def)

definition tally :: "rt \<Rightarrow> nat \<Rightarrow> nat \<Rightarrow> bool" where
  "tally s live garbage \<longleftrightarrow>
     (\<exists>g. gc s = Some g \<and> sint (live_count g) = int live \<and> sint (garbage_count g) = int garbage)"

lemma int_inc_sint:
  assumes "sint (x :: i32) = int n" and "n < 2 ^ 31 - 1"
  shows "int_inc x = Some (x + 1)" and "sint (x + 1) = int (Suc n)"
proof -
  show "int_inc x = Some (x + 1)"
    using assms by (simp add: int_inc_def)
  have "sint (x + 1) = signed_take_bit 31 (sint x + 1)"
    by (simp add: sint_word_ariths)
  also have "\<dots> = int (Suc n)"
    using assms by (simp add: signed_take_bit_int_eq_self)
  finally show "sint (x + 1) = int (Suc n)" .
qed

text \<open>One object is counted, as live when it has the mark.\<close>

lemma collect_counts:
  assumes "tally s l n" and "objects s p = Some ob" and "l + n < 2 ^ 31 - 1"
  shows "\<exists>s'. pup_object_gc_collect p s = Ret () s' \<and> but_gc s' = but_gc s \<and> live_mark s' = live_mark s \<and>
    tally s' (if marked s p then Suc l else l) (if marked s p then n else Suc n)"
proof -
  obtain g where g: "gc s = Some g" "sint (live_count g) = int l" "sint (garbage_count g) = int n"
    using assms(1) by (auto simp: tally_def)
  have "l < 2 ^ 31 - 1" "n < 2 ^ 31 - 1"
    using assms(3) by simp_all
  note inc = int_inc_sint [OF g(2) this(1)] int_inc_sint [OF g(3) this(2)]
  have m: "ucast (live_mark_value g) = (ucast (gc_mark ob) :: i32) \<longleftrightarrow> marked s p"
    using g(1) assms(2) by (auto simp: marked_def live_mark_def)
  let ?g = "if marked s p then g\<lparr>live_count := live_count g + 1\<rparr> else g\<lparr>garbage_count := garbage_count g + 1\<rparr>"
  have "pup_object_gc_collect p s = Ret () (s\<lparr>gc := Some ?g\<rparr>)"
    using g(1) assms(2) m inc by (simp add: pup_object_gc_collect_def pup_gc_is_live_mark_def
        pup_gc_get_current_mark_def pup_gc_inc_live_count_def pup_gc_inc_garbage_count_def copy_live_object_def
        with_gc_def)
  moreover have "tally (s\<lparr>gc := Some ?g\<rparr>) (if marked s p then Suc l else l) (if marked s p then n else Suc n)"
    using g inc by (simp add: tally_def)
  ultimately show ?thesis
    using g(1) by (intro exI [of _ "s\<lparr>gc := Some ?g\<rparr>"]) (simp add: but_gc_def live_mark_def)
qed

lemma but_gc_marked:
  assumes "but_gc s' = but_gc s" and "live_mark s' = live_mark s"
  shows "marked s' = marked s" and "objects s' = objects s"
proof -
  show o: "objects s' = objects s"
    using arg_cong [OF assms(1), of objects] by (simp add: but_gc_def)
  show "marked s' = marked s"
    using assms(2) o by (simp add: marked_def fun_eq_iff)
qed

text \<open>All objects of a list of blocks are counted.\<close>

lemma collect_blocks_count:
  assumes "tally s l n" and "set (objects_of bs) \<subseteq> dom (objects s)" and "l + n + length (objects_of bs) < 2 ^ 31"
  shows "\<exists>s'. visit_blocks collect_heap_object bs s = Ret () s' \<and> but_gc s' = but_gc s \<and>
    live_mark s' = live_mark s \<and>
    tally s' (l + length (filter (marked s) (objects_of bs)))
      (n + length (filter (\<lambda>p. \<not> marked s p) (objects_of bs)))"
  using assms
proof (induction bs arbitrary: s l n)
  case Nil
  then show ?case by simp
next
  case (Cons b bs)
  obtain q obj where b: "b = (q, obj)"
    by (cases b)
  show ?case
  proof (cases "kind obj")
    case PUP_KIND_OBJ
    then obtain ob where "objects s (q + data_offset) = Some ob"
      using Cons.prems(2) by (auto simp: b)
    with collect_counts [OF Cons.prems(1) this] Cons.prems(3) PUP_KIND_OBJ obtain s1 where
      s1: "pup_object_gc_collect (q + data_offset) s = Ret () s1" "but_gc s1 = but_gc s" "live_mark s1 = live_mark s"
        "tally s1 (if marked s (q + data_offset) then Suc l else l)
           (if marked s (q + data_offset) then n else Suc n)"
      by (auto simp: b)
    note same = but_gc_marked [OF s1(2,3)]
    have "set (objects_of bs) \<subseteq> dom (objects s1)"
      using Cons.prems(2) same(2) by (simp add: b)
    from Cons.IH [OF s1(4) this] Cons.prems(3) PUP_KIND_OBJ s1(1-3) show ?thesis
      by (auto simp: b collect_heap_object_def same(1) split: if_splits)
  next
    case PUP_KIND_ATTR
    with Cons.IH [OF Cons.prems(1)] Cons.prems(2,3) show ?thesis
      by (simp add: b collect_heap_object_def pup_object_attr_gc_collect_def)
  qed
qed

section \<open>Collecting a region\<close>

text \<open>The blocks of a region of the heap.\<close>

definition region_blocks :: "rt \<Rightarrow> ptr \<Rightarrow> (ptr \<times> heap_object) list \<Rightarrow> bool" where
  "region_blocks s r bs \<longleftrightarrow>
     (\<exists>R. regions (heap s) r = Some R \<and> blocks (headers (heap s)) (region R) (allocated R) bs)"

lemma blocks_cong: "(\<And>q obj. (q, obj) \<in> set bs \<Longrightarrow> h q = h' q) \<Longrightarrow> blocks h a e bs = blocks h' a e bs"
proof (induction bs arbitrary: a)
  case (Cons b bs)
  obtain q obj where b: "b = (q, obj)"
    by (cases b)
  have "blocks h x e bs = blocks h' x e bs" for x
    by (rule Cons.IH) (use Cons.prems in auto)
  moreover have "h q = h' q"
    using Cons.prems b by auto
  ultimately show ?case
    by (auto simp: b)
qed simp

lemma block_in_mapped:
  assumes "region_ok R" and "blocks h (region R) (allocated R) bs" and "(q, obj) \<in> set bs"
  shows "q \<in> mapped (region R)" and "q + data_offset \<in> mapped (region R)"
proof -
  have i: "unat (region R) \<le> unat q" "unat q + unat (object_size obj) + 16 \<le> unat (allocated R)"
    using blocks_inside [OF assms(2,3)] by simp_all
  have "unat (region_end R) = unat (region R) + 2 ^ 20"
    using assms(1) unat_add_small [of "region R" REGION_SIZE] by (simp add: region_ok_def REGION_SIZE_def)
  then have e: "unat (allocated R) \<le> unat (region R) + 2 ^ 20"
    using assms(1) by (simp add: region_ok_def word_le_nat_alt)
  then have "unat (q + data_offset) = unat q + 9"
    using i assms(1) by (simp add: data_offset_def region_ok_def unat_add_small)
  with i e show "q \<in> mapped (region R)" "q + data_offset \<in> mapped (region R)"
    by (simp_all add: mapped_def)
qed

lemma objects_of_mapped:
  assumes "region_ok R" and "blocks h (region R) (allocated R) bs"
  shows "set (objects_of bs) \<subseteq> mapped (region R)"
  using block_in_mapped(2) [OF assms] by (auto simp: objects_of_def)

text \<open>All but the regions and what is in them.\<close>

definition outside :: "rt \<Rightarrow> rt" where
  "outside s = s\<lparr>objects := Map.empty, attrs := Map.empty, gc := None,
     heap := (heap s)\<lparr>region_list := NULL, regions := Map.empty, headers := Map.empty\<rparr>\<rparr>"

text \<open>After the regions \<open>rs\<close>, which cover the area \<open>A\<close>, have gone.\<close>

definition released :: "rt \<Rightarrow> ptr set \<Rightarrow> ptr set \<Rightarrow> rt \<Rightarrow> bool" where
  "released s rs A s' \<longleftrightarrow>
     outside s' = outside s \<and> live_mark s' = live_mark s \<and>
     objects s' = objects s |` (- A) \<and> attrs s' = attrs s |` (- A) \<and>
     headers (heap s') = headers (heap s) |` (- A) \<and> regions (heap s') = regions (heap s) |` (- rs)"

lemma released_trans:
  assumes "released s rs A s1" and "released s1 rs' A' s2"
  shows "released s (rs \<union> rs') (A \<union> A') s2"
  using assms unfolding released_def by (simp add: Int_commute)

lemma outside_fields:
  assumes "outside s' = outside s"
  shows "mallocs s' = mallocs s" "mmaps s' = mmaps s" "methods s' = methods s" "segments s' = segments s"
    "unwinds s' = unwinds s" "sym_tab s' = sym_tab s" "threads (heap s') = threads (heap s)"
    "this_thread_info (heap s') = this_thread_info (heap s)" "self s' = self s" "env s' = env s"
  using arg_cong [OF assms, of mallocs] arg_cong [OF assms, of mmaps] arg_cong [OF assms, of methods]
    arg_cong [OF assms, of segments] arg_cong [OF assms, of unwinds] arg_cong [OF assms, of sym_tab]
    arg_cong [OF assms, of "\<lambda>s. threads (heap s)"] arg_cong [OF assms, of "\<lambda>s. this_thread_info (heap s)"]
    arg_cong [OF assms, of self] arg_cong [OF assms, of env]
  by (simp_all add: outside_def)

lemma heap_wf_released:
  assumes wf: "heap_wf s" and rel: "released s {r} (mapped (region R)) s'" and r: "regions (heap s) r = Some R"
  shows "heap_wf s'"
proof (rule heap_wfI)
  note f = outside_fields [of s' s]
  have o: "outside s' = outside s" and
    rel: "objects s' = objects s |` (- mapped (region R))" "attrs s' = attrs s |` (- mapped (region R))"
      "headers (heap s') = headers (heap s) |` (- mapped (region R))" "regions (heap s') = regions (heap s) |` (- {r})"
    using rel by (simp_all add: released_def)
  have old: "regions (heap s) x = Some X \<and> x \<noteq> r" if "regions (heap s') x = Some X" for x X
    using that rel(4) by (auto simp: restrict_map_def split: if_splits)
  fix x X
  assume x: "regions (heap s') x = Some X"
  note X = heap_wf_region [OF wf conjunct1 [OF old [OF x]]]
  show "x \<noteq> NULL" "region_ok X"
    using X(1,2) by simp_all
  show "unused_above s' X"
    using X(3) rel(1-3) by (auto simp: unused_above_def)
  obtain bs where bs: "blocks (headers (heap s)) (region X) (allocated X) bs"
    using X(4) by blast
  have "mapped (region X) \<inter> mapped (region R) = {}"
    using heap_wf_disjoint [OF wf _ r] old [OF x] by blast
  then have "blocks (headers (heap s')) (region X) (allocated X) bs = blocks (headers (heap s)) (region X) (allocated X) bs"
    using block_in_mapped(1) [OF X(2) bs] rel(3) by (intro blocks_cong) (auto simp: restrict_map_def)
  with bs show "\<exists>bs. blocks (headers (heap s')) (region X) (allocated X) bs"
    by blast
  fix y Y
  assume "regions (heap s') y = Some Y" "x \<noteq> y"
  with old x show "mapped (region X) \<inter> mapped (region Y) = {}"
    using heap_wf_disjoint [OF wf] by blast
next
  note f = outside_fields [of s' s]
  have o: "outside s' = outside s" and
    rel: "objects s' = objects s |` (- mapped (region R))" "attrs s' = attrs s |` (- mapped (region R))"
      "headers (heap s') = headers (heap s) |` (- mapped (region R))" "regions (heap s') = regions (heap s) |` (- {r})"
    using rel by (simp_all add: released_def)
  note tapes = heap_wf_tapes [OF wf]
  show "NULL \<notin> dom (objects s')" "NULL \<notin> dom (attrs s')"
    using tapes(4,5) rel(1,2) by auto
  have a: "region_addresses (heap s') \<subseteq> region_addresses (heap s)"
    using rel(4) by (fastforce simp: region_addresses_def restrict_map_def split: option.splits if_splits)
  then show "fst ` set (mallocs s') \<inter> region_addresses (heap s') \<subseteq> {NULL}"
    using tapes(1) f(1) [OF o] by auto
  have "malloced s' \<subseteq> malloced s"
    using f [OF o] rel by (auto simp: malloced_def)
  with tapes(2) show "fresh_tape (mallocs s') (malloced s')"
    using f(1) [OF o] by (metis fresh_tape_mono)
  have "occupied s' \<subseteq> occupied s"
    using a f(1) [OF o] rel by (auto simp: occupied_def)
  with tapes(3) show "fresh_maps (mmaps s') (occupied s')"
    using f(2) [OF o] by (metis fresh_maps_mono)
qed

section \<open>One turn of the collection\<close>

lemma steal_heap_region_once:
  "region_list (heap s) = NULL \<Longrightarrow> steal_heap_region s = Ret NULL s"
  "region_list (heap s) = r \<Longrightarrow> r \<noteq> NULL \<Longrightarrow> regions (heap s) r = Some R \<Longrightarrow>
     steal_heap_region s = Ret r (s\<lparr>heap := (heap s)\<lparr>region_list := region_next R\<rparr>\<rparr>)"
  unfolding steal_heap_region_def
  by (rule retry_once, simp add: global_heap_head_def load_region_next_def swap_heap_region_head_def)+

lemma collect_region_step:
  assumes wf: "heap_wf s" and r: "regions (heap s) r = Some R"
    and bs: "blocks (headers (heap s)) (region R) (allocated R) bs"
    and obs: "set (objects_of bs) \<subseteq> dom (objects s)"
    and tally: "tally s l n" "l + n + length (objects_of bs) < 2 ^ 31" and mu: "munmap_ok (region R)"
  shows "if mprotect_ok (region R)
    then \<exists>s'. collect_region mprotect_ok munmap_ok r s = Ret () s' \<and> released s {r} (mapped (region R)) s' \<and>
      region_list (heap s') = region_list (heap s) \<and>
      tally s' (l + length (filter (marked s) (objects_of bs)))
        (n + length (filter (\<lambda>p. \<not> marked s p) (objects_of bs)))
    else collect_region mprotect_ok munmap_ok r s = Aborted"
proof -
  let ?s1 = "s\<lparr>heap := (heap s)\<lparr>regions := (regions (heap s))(r \<mapsto> R\<lparr>read_only := True\<rparr>)\<rparr>\<rparr>"
  have prevent: "prevent_mutator_access mprotect_ok r s = (if mprotect_ok (region R) then Ret () ?s1 else Aborted)"
    using r by (simp add: prevent_mutator_access_def with_region_def)
  show ?thesis
  proof (cases "mprotect_ok (region R)")
    case False
    with prevent show ?thesis
      by (simp add: collect_region_def collect_unmarked_objects_in_region_def)
  next
    case True
    have lm: "live_mark ?s1 = live_mark s" and m: "marked ?s1 = marked s"
      by (simp_all add: live_mark_def marked_def fun_eq_iff)
    have "tally ?s1 l n" "set (objects_of bs) \<subseteq> dom (objects ?s1)"
      using tally(1) obs by (simp_all add: tally_def)
    from collect_blocks_count [OF this tally(2)] obtain s2 where
      s2: "visit_blocks collect_heap_object bs ?s1 = Ret () s2" "but_gc s2 = but_gc ?s1" "live_mark s2 = live_mark s"
        "tally s2 (l + length (filter (marked s) (objects_of bs)))
          (n + length (filter (\<lambda>p. \<not> marked s p) (objects_of bs)))"
      unfolding lm m by blast
    have walk: "walk_blocks collect_heap_object r (region R) ?s1 = Some (Ret () s2)"
      using collecting.walk_visits [of ?s1 "region R" "R\<lparr>read_only := True\<rparr>" bs r] bs s2(1) by simp
    have heap2: "heap s2 = heap ?s1"
      by (rule but_heap(2) [OF s2(2)])
    let ?R3 = "R\<lparr>read_only := True, allocated := region R\<rparr>"
    let ?s3 = "s2\<lparr>heap := (heap s2)\<lparr>regions := (regions (heap s2))(r \<mapsto> ?R3)\<rparr>\<rparr>"
    have reset: "with_region r (\<lambda>R. R\<lparr>allocated := region R\<rparr>) s2 = Ret () ?s3"
      by (simp add: with_region_def heap2)
    have "walk_blocks destroy_block r (region R) ?s3 = Some (Ret () ?s3)"
      using destroying.walk_visits [of ?s3 "region R" ?R3 "[]" r] by simp
    then have "destroy_region_objects r ?s3 = Ret () ?s3"
      by (simp add: destroy_region_objects_def)
    then have free: "free_region munmap_ok r ?s3 =
        (let s = munmap (region R) ?s3 in Ret () (s\<lparr>heap := (heap s)\<lparr>regions := (regions (heap s))(r := None)\<rparr>\<rparr>))"
      (is "_ = (let s = _ in Ret () (?f s))")
      using mu by (simp add: free_region_def)
    let ?s4 = "?f (munmap (region R) ?s3)"
    have "collect_region mprotect_ok munmap_ok r s = Ret () ?s4"
      using prevent True walk reset free [unfolded Let_def]
      by (simp add: collect_region_def collect_unmarked_objects_in_region_def atomic_region_start_def)
    moreover have "released s {r} (mapped (region R)) ?s4"
    proof -
      have o: "objects s2 = objects s" "attrs s2 = attrs s"
        using arg_cong [OF s2(2), of objects] arg_cong [OF s2(2), of attrs] by (simp_all add: but_gc_def)
      have "outside s2 = outside s"
        using arg_cong [OF s2(2), of outside] by (simp add: but_gc_def outside_def)
      then have "outside ?s4 = outside s"
        by (simp add: outside_def munmap_def heap2)
      moreover have "(regions (heap s))(r := None) = regions (heap s) |` (- {r})"
        by (auto simp: restrict_map_def)
      ultimately show ?thesis
        using o s2(3) by (simp add: released_def munmap_def heap2 live_mark_def)
    qed
    moreover have "region_list (heap ?s4) = region_list (heap s)"
      by (simp add: munmap_def heap2)
    moreover have "tally ?s4 (l + length (filter (marked s) (objects_of bs)))
        (n + length (filter (\<lambda>p. \<not> marked s p) (objects_of bs)))"
      using s2(4) by (simp add: tally_def munmap_def)
    ultimately show ?thesis
      using True by (simp only: if_True) blast
  qed
qed

section \<open>The collection\<close>

lemma restrict_UNIV: "m |` UNIV = m"
  by (simp add: restrict_map_def)

lemma objects_of_concat:
  assumes "p \<in> set (objects_of (concat bss))"
  obtains q obj cs where "(q, obj) \<in> set cs" "cs \<in> set bss" "p = q + data_offset"
  using assms unfolding objects_of_def by fastforce

definition area :: "rt \<Rightarrow> ptr list \<Rightarrow> ptr set" where
  "area s rs = (\<Union>r \<in> set rs. case regions (heap s) r of None \<Rightarrow> {} | Some R \<Rightarrow> mapped (region R))"

text \<open>The counts after a collection: the objects in the blocks, with and without the mark.\<close>

definition counted :: "rt \<Rightarrow> ptr list \<Rightarrow> nat \<Rightarrow> nat \<Rightarrow> rt \<Rightarrow> bool" where
  "counted s obs l n s' \<longleftrightarrow>
     tally s' (l + length (filter (marked s) obs)) (n + length (filter (\<lambda>p. \<not> marked s p) obs))"

lemma counted_append:
  assumes "tally s1 (l + length (filter (marked s) xs)) (n + length (filter (\<lambda>p. \<not> marked s p) xs))"
    and "\<And>p. p \<in> set ys \<Longrightarrow> marked s1 p = marked s p"
    and "counted s1 ys (l + length (filter (marked s) xs)) (n + length (filter (\<lambda>p. \<not> marked s p) xs)) s'"
  shows "counted s (xs @ ys) l n s'"
proof -
  have "filter (marked s1) ys = filter (marked s) ys" "filter (\<lambda>p. \<not> marked s1 p) ys = filter (\<lambda>p. \<not> marked s p) ys"
    using assms(2) by (auto intro: filter_cong)
  with assms(3) show ?thesis
    by (simp add: counted_def add.assoc)
qed

text \<open>The other regions on the list, their blocks and the objects in these, when one region has gone.\<close>

lemma blocks_apart:
  assumes wf: "heap_wf s" and r: "regions (heap s) r = Some R" and x: "region_blocks s x cs" "x \<noteq> r"
    and q: "(q, obj) \<in> set cs"
  shows "q \<notin> mapped (region R)" "q + data_offset \<notin> mapped (region R)"
proof -
  obtain X where X: "regions (heap s) x = Some X" "blocks (headers (heap s)) (region X) (allocated X) cs"
    using x(1) by (auto simp: region_blocks_def)
  have "mapped (region X) \<inter> mapped (region R) = {}"
    by (rule heap_wf_disjoint [OF wf X(1) r x(2)])
  with block_in_mapped [OF heap_wf_region(2) [OF wf X(1)] X(2) q]
  show "q \<notin> mapped (region R)" "q + data_offset \<notin> mapped (region R)"
    by blast+
qed

lemma released_others:
  assumes wf: "heap_wf s" and r: "regions (heap s) r = Some R" and rel: "released s {r} (mapped (region R)) s'"
    and out: "r \<notin> set rs" and bss: "list_all2 (region_blocks s) rs bss"
  shows "x \<in> set rs \<Longrightarrow> regions (heap s') x = regions (heap s) x"
    and "list_all2 (region_blocks s') rs bss"
    and "p \<in> set (objects_of (concat bss)) \<Longrightarrow> objects s' p = objects s p"
    and "p \<in> set (objects_of (concat bss)) \<Longrightarrow> marked s' p = marked s p"
proof -
  show same: "regions (heap s') x = regions (heap s) x" if "x \<in> set rs" for x
    using rel that out by (auto simp: released_def restrict_map_def)
  have "region_blocks s' x cs" if x: "x \<in> set rs" "region_blocks s x cs" for x cs
  proof -
    have "x \<noteq> r"
      using x(1) out by auto
    then have "headers (heap s') q = headers (heap s) q" if "(q, obj) \<in> set cs" for q obj
      using blocks_apart(1) [OF wf r x(2) _ that] rel by (simp add: released_def restrict_map_def)
    then have "blocks (headers (heap s')) a e cs = blocks (headers (heap s)) a e cs" for a e
      by (rule blocks_cong)
    with x same show ?thesis
      by (simp add: region_blocks_def)
  qed
  then show "list_all2 (region_blocks s') rs bss"
    using bss by (intro list.rel_mono_strong [OF bss]) blast
  have away: "p \<notin> mapped (region R)" if p: "p \<in> set (objects_of (concat bss))" for p
  proof -
    from p obtain q obj cs where q: "(q, obj) \<in> set cs" "cs \<in> set bss" "p = q + data_offset"
      by (rule objects_of_concat)
    then obtain x where x: "x \<in> set rs" "region_blocks s x cs"
      using bss by (metis in_set_conv_nth list_all2_conv_all_nth)
    then have "x \<noteq> r"
      using out by auto
    from blocks_apart(2) [OF wf r x(2) this q(1)] q(3) show ?thesis
      by simp
  qed
  show "objects s' p = objects s p" "marked s' p = marked s p" if "p \<in> set (objects_of (concat bss))"
    using rel away [OF that] by (simp_all add: released_def restrict_map_def marked_def)
qed

text \<open>The region at the head of the list: one turn of the loop.\<close>

lemma collect_turn:
  assumes wf: "heap_wf s" and r: "region_list (heap s) = r" "r \<noteq> NULL" "regions (heap s) r = Some R"
    and bs: "region_blocks s r bs" and obs: "set (objects_of bs) \<subseteq> dom (objects s)"
    and tally: "tally s l n" "l + n + length (objects_of bs) < 2 ^ 31" and mu: "\<forall>a. munmap_ok a"
  shows "if mprotect_ok (region R)
    then \<exists>s'. collect_loop mprotect_ok munmap_ok s = collect_loop mprotect_ok munmap_ok s' \<and> heap_wf s' \<and>
      released s {r} (mapped (region R)) s' \<and> region_list (heap s') = region_next R \<and>
      tally s' (l + length (filter (marked s) (objects_of bs)))
        (n + length (filter (\<lambda>p. \<not> marked s p) (objects_of bs)))
    else collect_loop mprotect_ok munmap_ok s = Some Aborted"
proof -
  let ?s0 = "s\<lparr>heap := (heap s)\<lparr>region_list := region_next R\<rparr>\<rparr>"
  have steal: "steal_heap_region s = Ret r ?s0"
    by (rule steal_heap_region_once(2)) (use r in simp_all)
  have wf0: "heap_wf ?s0"
    by (rule heap_wf_cong [OF wf]) simp_all
  have lm0: "live_mark ?s0 = live_mark s" and m0: "marked ?s0 = marked s"
    by (simp_all add: live_mark_def marked_def fun_eq_iff)
  have "blocks (headers (heap ?s0)) (region R) (allocated R) bs" "regions (heap ?s0) r = Some R"
      "set (objects_of bs) \<subseteq> dom (objects ?s0)" "tally ?s0 l n" "munmap_ok (region R)"
    using bs r(3) obs tally(1) mu by (simp_all add: region_blocks_def tally_def)
  note turn = collect_region_step [where mprotect_ok = mprotect_ok and munmap_ok = munmap_ok,
      OF wf0 this(2,1,3,4) tally(2) this(5)]
  show ?thesis
  proof (cases "mprotect_ok (region R)")
    case False
    with turn steal r(2) show ?thesis
      by (simp add: collect_loop.simps [of mprotect_ok munmap_ok s])
  next
    case True
    with turn obtain s1 where s1: "collect_region mprotect_ok munmap_ok r ?s0 = Ret () s1"
        "released ?s0 {r} (mapped (region R)) s1" "region_list (heap s1) = region_next R"
        "tally s1 (l + length (filter (marked s) (objects_of bs)))
          (n + length (filter (\<lambda>p. \<not> marked s p) (objects_of bs)))"
      unfolding m0 by auto
    have "released s {r} (mapped (region R)) s1"
      using s1(2) lm0 by (simp add: released_def outside_def)
    moreover have "heap_wf s1"
      by (rule heap_wf_released [OF wf0 s1(2)]) (use r(3) in simp)
    moreover have "collect_loop mprotect_ok munmap_ok s = collect_loop mprotect_ok munmap_ok s1"
      using steal r(2) s1(1) by (simp add: collect_loop.simps [of mprotect_ok munmap_ok s])
    ultimately show ?thesis
      using True s1(3,4) by (simp only: if_True) blast
  qed
qed

lemma collect_loop_step:
  assumes "heap_wf s" and "chain (regions (heap s)) region_next (region_list (heap s)) rs"
    and "list_all2 (region_blocks s) rs bss" and "set (objects_of (concat bss)) \<subseteq> dom (objects s)"
    and "tally s l n" and "l + n + length (objects_of (concat bss)) < 2 ^ 31" and "\<forall>a. munmap_ok a"
  shows "if \<forall>r \<in> set rs. \<forall>R. regions (heap s) r = Some R \<longrightarrow> mprotect_ok (region R)
    then \<exists>s'. collect_loop mprotect_ok munmap_ok s = Some (Ret () s') \<and> heap_wf s' \<and>
      released s (set rs) (area s rs) s' \<and> region_list (heap s') = NULL \<and>
      counted s (objects_of (concat bss)) l n s'
    else collect_loop mprotect_ok munmap_ok s = Some Aborted"
  using assms
proof (induction rs arbitrary: s bss l n)
  case Nil
  then have "region_list (heap s) = NULL" "bss = []"
    by simp_all
  with Nil steal_heap_region_once(1) [of s] show ?case
    by (simp add: collect_loop.simps released_def area_def counted_def restrict_UNIV)
next
  case (Cons r rs)
  obtain R where R: "region_list (heap s) = r" "r \<noteq> NULL" "regions (heap s) r = Some R"
      "chain (regions (heap s)) region_next (region_next R) rs"
    using Cons.prems(2) by auto
  have out: "r \<notin> set rs"
    using chain_distinct [OF Cons.prems(2)] by simp
  obtain bs bss' where bss: "bss = bs # bss'" "region_blocks s r bs" "list_all2 (region_blocks s) rs bss'"
    using Cons.prems(3) by (auto simp: list_all2_Cons1)
  have obs: "objects_of (concat bss) = objects_of bs @ objects_of (concat bss')"
    by (simp add: bss(1) objects_of_def)
  have "set (objects_of bs) \<subseteq> dom (objects s)" "l + n + length (objects_of bs) < 2 ^ 31"
    using Cons.prems(4,6) obs by simp_all
  note turn = collect_turn [where mprotect_ok = mprotect_ok, OF Cons.prems(1) R(1-3) bss(2) this(1)
      Cons.prems(5) this(2) Cons.prems(7)]
  show ?case
  proof (cases "mprotect_ok (region R)")
    case False
    with turn R(3) show ?thesis
      by auto
  next
    case True
    let ?l = "l + length (filter (marked s) (objects_of bs))"
    let ?n = "n + length (filter (\<lambda>p. \<not> marked s p) (objects_of bs))"
    from turn True obtain s1 where run: "collect_loop mprotect_ok munmap_ok s = collect_loop mprotect_ok munmap_ok s1"
        and wf1: "heap_wf s1" and rel: "released s {r} (mapped (region R)) s1"
        and next1: "region_list (heap s1) = region_next R" and tally1: "tally s1 ?l ?n"
      by auto
    note old = released_others [OF Cons.prems(1) R(3) rel out bss(3)]
    have chain1: "chain (regions (heap s1)) region_next (region_list (heap s1)) rs"
      unfolding next1 using R(4) chain_cong [of rs region_next "regions (heap s1)" "regions (heap s)"] old(1)
      by simp
    have obs1: "set (objects_of (concat bss')) \<subseteq> dom (objects s1)"
      using Cons.prems(4) old(3) obs by auto
    have len: "?l + ?n + length (objects_of (concat bss')) < 2 ^ 31"
      using Cons.prems(6) sum_length_filter_compl [of "marked s" "objects_of bs"] obs by simp
    note rest = Cons.IH [OF wf1 chain1 old(2) obs1 tally1 len Cons.prems(7)]
    have all: "(\<forall>x \<in> set (r # rs). \<forall>X. regions (heap s) x = Some X \<longrightarrow> mprotect_ok (region X)) \<longleftrightarrow>
        (\<forall>x \<in> set rs. \<forall>X. regions (heap s1) x = Some X \<longrightarrow> mprotect_ok (region X))"
      using True R(3) old(1) by auto
    show ?thesis
    proof (cases "\<forall>x \<in> set rs. \<forall>X. regions (heap s1) x = Some X \<longrightarrow> mprotect_ok (region X)")
      case ok: True
      with rest obtain s' where s': "collect_loop mprotect_ok munmap_ok s1 = Some (Ret () s')" "heap_wf s'"
          "released s1 (set rs) (area s1 rs) s'" "region_list (heap s') = NULL"
          "counted s1 (objects_of (concat bss')) ?l ?n s'"
        by auto
      have "area s (r # rs) = mapped (region R) \<union> area s1 rs"
        using R(3) old(1) by (simp add: area_def)
      then have "released s (set (r # rs)) (area s (r # rs)) s'"
        using released_trans [OF rel s'(3)] by simp
      moreover have "counted s (objects_of (concat bss)) l n s'"
        unfolding obs by (rule counted_append [OF tally1 old(4) s'(5)])
      ultimately show ?thesis
        using ok all run s'(1,2,4) by auto
    next
      case False
      with rest all run show ?thesis by auto
    qed
  qed
qed

section \<open>Destroying the objects of a region\<close>

lemma chain_del: "a \<notin> set xs \<Longrightarrow> chain (m(a := None)) nx p xs = chain m nx p xs"
  by (rule chain_cong) auto

lemma free_methods:
  "chain (methods s) meth_next h ms \<Longrightarrow>
     each_ahead methods meth_next free_method h s = Some (Ret () (s\<lparr>methods := methods s |` (- set ms)\<rparr>))"
proof (induction ms arbitrary: h s)
  case Nil
  then show ?case by (simp add: each_ahead.simps restrict_UNIV)
next
  case (Cons m ms)
  then obtain e where e: "h = m" "m \<noteq> NULL" "methods s m = Some e" "chain (methods s) meth_next (meth_next e) ms"
    by auto
  have out: "m \<notin> set ms"
    using chain_distinct [OF Cons.prems] by simp
  let ?s = "s\<lparr>methods := (methods s)(m := None)\<rparr>"
  have "chain (methods ?s) meth_next (meth_next e) ms"
    using e(4) out by (simp add: chain_del del: fun_upd_apply)
  then have "each_ahead methods meth_next free_method (meth_next e) ?s =
      Some (Ret () (?s\<lparr>methods := methods ?s |` (- set ms)\<rparr>))"
    by (rule Cons.IH)
  moreover have "methods ?s |` (- set ms) = methods s |` (- set (m # ms))"
    by (auto simp: restrict_map_def)
  moreover have "free_method m s = Ret () ?s"
    using e(3) by (simp add: free_method_def)
  ultimately show ?case
    using e(1-3) by (simp add: each_ahead.simps [of methods meth_next free_method m s])
qed

text \<open>The hook that the class of an object has for its instances, and what it can rely on.\<close>

definition hook :: "rt \<Rightarrow> ptr \<Rightarrow> destroy_fn option" where
  "hook s p = Option.bind (objects s p) (\<lambda>ob. Option.bind (class_at s (otype ob)) destroy_instance)"

definition destroyable :: "rt \<Rightarrow> ptr \<Rightarrow> bool" where
  "destroyable s p \<longleftrightarrow>
     hook s p \<noteq> None \<and> (hook s p = Some Destroy_class \<longrightarrow> (\<exists>ms. method_chain s p ms)) \<and>
     (hook s p = Some Destroy_string \<longrightarrow> (\<exists>ob v. objects s p = Some ob \<and> body ob = StringBody v))"

text \<open>The entries of the method table that go with an object, when its class is \<open>Class\<close>.\<close>

definition table :: "rt \<Rightarrow> ptr \<Rightarrow> ptr set" where
  "table s p = (if hook s p = Some Destroy_class then {m. \<exists>ms. method_chain s p ms \<and> m \<in> set ms} else {})"

lemma method_chain_unique: "method_chain s p ms \<Longrightarrow> method_chain s p ns \<Longrightarrow> ms = ns"
  by (auto simp: method_chain_def split: option.splits intro: chain_unique)

lemma table_chain: "method_chain s p ms \<Longrightarrow> hook s p = Some Destroy_class \<Longrightarrow> table s p = set ms"
  using method_chain_unique by (auto simp: table_def)

lemma destroy_frees:
  assumes "destroyable s p"
  shows "pup_object_destroy p s = Ret () (s\<lparr>methods := methods s |` (- table s p)\<rparr>)"
proof -
  obtain ob c d where ob: "objects s p = Some ob" "class_at s (otype ob) = Some c" "destroy_instance c = Some d"
      "hook s p = Some d"
    using assms by (auto simp: destroyable_def hook_def bind_eq_Some_conv)
  show ?thesis
  proof (cases "d = Destroy_class")
    case True
    then obtain ms where ms: "method_chain s p ms"
      using assms ob(4) by (auto simp: destroyable_def)
    then obtain b where b: "class_at s p = Some b" "chain (methods s) meth_next (method_list_head b) ms"
      by (auto simp: method_chain_def split: option.splits)
    have "table s p = set ms"
      using True ob(4) ms by (simp add: table_chain)
    with True ob b free_methods [OF b(2)] show ?thesis
      by (simp add: pup_object_destroy_def pup_class_destroy_instance_def pup_internal_class_destroy_instance_def
          pup_object_destroy_instance_def)
  next
    case False
    then have "table s p = {}"
      using ob(4) by (simp add: table_def)
    with False ob assms show ?thesis
      by (cases d) (auto simp: pup_object_destroy_def pup_class_destroy_instance_def destroyable_def
          string_destroy_instance_def fixnum_destroy_instance_def pup_object_destroy_instance_def restrict_UNIV)
  qed
qed

text \<open>Freeing entries leaves the other tables as they are.\<close>

lemma freed_entries:
  assumes "p \<in> dom (objects s)" and "table s p \<inter> F = {}"
  defines "s' \<equiv> s\<lparr>methods := methods s |` (- F)\<rparr>"
  shows "hook s' p = hook s p" and "destroyable s p \<Longrightarrow> destroyable s' p" and "destroyable s p \<Longrightarrow> table s' p = table s p"
proof -
  have at: "class_at s' = class_at s" "objects s' = objects s"
    by (simp_all add: s'_def class_at_def fun_eq_iff)
  then show h: "hook s' p = hook s p"
    by (simp add: hook_def)
  have mc: "method_chain s' p ms" if ms: "method_chain s p ms" "hook s p = Some Destroy_class" for ms
  proof -
    obtain c where c: "class_at s p = Some c" "chain (methods s) meth_next (method_list_head c) ms"
      using ms(1) by (cases "class_at s p") (simp_all add: method_chain_def)
    have "set ms \<subseteq> table s p"
      using ms by (auto simp: table_def)
    then have "x \<notin> F" if "x \<in> set ms" for x
      using assms(2) that by blast
    then have "chain (methods s') meth_next (method_list_head c) ms = chain (methods s) meth_next (method_list_head c) ms"
      by (intro chain_cong) (simp add: s'_def restrict_map_def)
    with c at show ?thesis
      by (simp add: method_chain_def)
  qed
  show "destroyable s p \<Longrightarrow> destroyable s' p"
    using mc h at unfolding destroyable_def by auto
  show "destroyable s p \<Longrightarrow> table s' p = table s p"
  proof (cases "hook s p = Some Destroy_class")
    case True
    assume "destroyable s p"
    then obtain ms where ms: "method_chain s p ms"
      using True by (auto simp: destroyable_def)
    have "table s' p = set ms" "table s p = set ms"
      using ms mc [OF ms True] True h by (simp_all add: table_chain)
    then show ?thesis by simp
  qed (simp add: table_def h)
qed

lemma destroy_blocks:
  assumes "\<And>p. p \<in> set (objects_of bs) \<Longrightarrow> destroyable s p" and "distinct (objects_of bs)"
    and "\<And>p q. p \<in> set (objects_of bs) \<Longrightarrow> q \<in> set (objects_of bs) \<Longrightarrow> p \<noteq> q \<Longrightarrow> table s p \<inter> table s q = {}"
  shows "visit_blocks destroy_block bs s =
    Ret () (s\<lparr>methods := methods s |` (- (\<Union>p \<in> set (objects_of bs). table s p))\<rparr>)"
  using assms
proof (induction bs arbitrary: s)
  case Nil
  then show ?case by (simp add: restrict_UNIV)
next
  case (Cons b bs)
  obtain q obj where b: "b = (q, obj)"
    by (cases b)
  show ?case
  proof (cases "kind obj")
    case PUP_KIND_ATTR
    with Cons show ?thesis
      by (simp add: b destroy_block_def)
  next
    case PUP_KIND_OBJ
    let ?p = "q + data_offset"
    let ?s = "s\<lparr>methods := methods s |` (- table s ?p)\<rparr>"
    have p: "?p \<in> set (objects_of (b # bs))" "?p \<notin> set (objects_of bs)"
      using Cons.prems(2) PUP_KIND_OBJ by (simp_all add: b)
    have rest: "x \<in> dom (objects s) \<and> table s x \<inter> table s ?p = {} \<and> destroyable s x" if "x \<in> set (objects_of bs)" for x
    proof -
      have "x \<in> set (objects_of (b # bs))" "x \<noteq> ?p"
        using that p(2) by (auto simp: b)
      then have "destroyable s x" "table s x \<inter> table s ?p = {}"
        using Cons.prems(1,3) p(1) by blast+
      then show ?thesis
        by (auto simp: destroyable_def hook_def bind_eq_Some_conv)
    qed
    have f: "destroyable ?s x" "table ?s x = table s x" if "x \<in> set (objects_of bs)" for x
      using rest [OF that] freed_entries [of x s "table s ?p"] by auto
    have "visit_blocks destroy_block bs ?s =
        Ret () (?s\<lparr>methods := methods ?s |` (- (\<Union>p \<in> set (objects_of bs). table ?s p))\<rparr>)"
    proof (rule Cons.IH)
      show "distinct (objects_of bs)"
        using Cons.prems(2) by (simp add: b)
      fix x y
      assume "x \<in> set (objects_of bs)" "y \<in> set (objects_of bs)" "x \<noteq> y"
      then show "table ?s x \<inter> table ?s y = {}"
        using f(2) Cons.prems(3) [of x y] by (auto simp: b)
    qed (rule f(1))
    moreover have "(\<Union>p \<in> set (objects_of bs). table ?s p) = (\<Union>p \<in> set (objects_of bs). table s p)"
      using f(2) by simp
    moreover have "destroy_block obj ?p s = Ret () ?s"
      using PUP_KIND_OBJ destroy_frees [OF Cons.prems(1) [OF p(1)]] by (simp add: destroy_block_def)
    ultimately show ?thesis
      using PUP_KIND_OBJ by (simp add: b)
  qed
qed

lemma blocks_distinct:
  assumes "blocks h a e bs"
  shows "distinct (map fst bs)"
  using assms
proof (induction bs arbitrary: a)
  case (Cons b bs)
  obtain q obj where b: "b = (q, obj)"
    by (cases b)
  with Cons.prems have h: "q = a" "unat a + unat (object_size obj) + 16 \<le> unat e"
      "blocks h (a + alloc_size_for (object_size obj)) e bs"
    by auto
  have "unat (a + alloc_size_for (object_size obj)) = unat a + unat (object_size obj) + 16"
  proof -
    have "unat (object_size obj) + 16 < 2 ^ 64"
      using h(2) unat_u64 [of e] by simp
    then have "unat (alloc_size_for (object_size obj)) = unat (object_size obj) + 16"
      by (simp add: alloc_size_for_def sizeof_HeapObject_def unat_add_small)
    then show ?thesis
      using h(2) unat_u64 [of e] by (simp add: unat_add_small)
  qed
  then have "q \<notin> fst ` set bs"
    using blocks_inside [OF h(3)] h(1) by fastforce
  with Cons.IH [OF h(3)] show ?case
    by (simp add: b)
qed simp

lemma objects_of_distinct: "blocks h a e bs \<Longrightarrow> distinct (objects_of bs)"
proof -
  assume "blocks h a e bs"
  then have "distinct (map fst bs)"
    by (rule blocks_distinct)
  moreover have "p - data_offset \<in> fst ` set bs" if "p \<in> set (objects_of bs)" for p
    using that by (force simp: objects_of_def)
  ultimately show ?thesis
  proof (induction bs)
    case (Cons b bs)
    obtain q obj where b: "b = (q, obj)"
      by (cases b)
    have "p - data_offset \<in> fst ` set bs" if "p \<in> set (objects_of bs)" for p
      using that by (force simp: objects_of_def)
    with Cons show ?case
      by (force simp: b)
  qed simp
qed

section \<open>Properties\<close>

text \<open>C10: The collection of the full regions comes to an end.  If mprotect does not fail (the process
  aborts otherwise), it takes every region off the global list and gives its memory back; every
  object in a block of one of them is counted once, as live if it is marked and as garbage if not;
  the heap stays well formed.  It gives back the memory of all these objects alike: what is marked
  live is freed too, for nothing copies it.\<close>

theorem collect_unmarked_objects_releases:
  assumes "heap_wf s" and "chain (regions (heap s)) region_next (region_list (heap s)) rs"
    and "list_all2 (region_blocks s) rs bss" and "set (objects_of (concat bss)) \<subseteq> dom (objects s)"
    and "tally s 0 0" and "length (objects_of (concat bss)) < 2 ^ 31" and "\<forall>a. munmap_ok a"
  shows "if \<forall>r \<in> set rs. \<forall>R. regions (heap s) r = Some R \<longrightarrow> mprotect_ok (region R)
    then \<exists>s'. collect_unmarked_objects mprotect_ok munmap_ok s = Ret () s' \<and> heap_wf s' \<and>
      region_list (heap s') = NULL \<and> regions (heap s') = regions (heap s) |` (- set rs) \<and>
      objects s' = objects s |` (- area s rs) \<and>
      tally s' (length (filter (marked s) (objects_of (concat bss))))
        (length (filter (\<lambda>p. \<not> marked s p) (objects_of (concat bss)))) \<and>
      (\<forall>p \<in> set (objects_of (concat bss)). objects s' p = None)
    else collect_unmarked_objects mprotect_ok munmap_ok s = Aborted"
proof -
  have inside: "p \<in> area s rs" if "p \<in> set (objects_of (concat bss))" for p
  proof -
    from that obtain q obj cs where q: "(q, obj) \<in> set cs" "cs \<in> set bss" "p = q + data_offset"
      by (rule objects_of_concat)
    then obtain r where r: "r \<in> set rs" "region_blocks s r cs"
      using assms(3) by (metis in_set_conv_nth list_all2_conv_all_nth)
    then obtain R where R: "regions (heap s) r = Some R" "blocks (headers (heap s)) (region R) (allocated R) cs"
      by (auto simp: region_blocks_def)
    with block_in_mapped(2) [OF heap_wf_region(2) [OF assms(1) R(1)] R(2) q(1)] r(1) q(3) show ?thesis
      unfolding area_def by force
  qed
  from collect_loop_step [OF assms(1-5) _ assms(7), of mprotect_ok] assms(6) inside show ?thesis
    by (auto simp: collect_unmarked_objects_def released_def counted_def split: if_splits)
qed

text \<open>
  The process with two objects again: its region is on the global list, and \<open>Object\<close> has the mark.
\<close>

definition demo_full :: rt where
  "demo_full = demo_roots\<lparr>heap := (heap demo_roots)\<lparr>region_list := 4096\<rparr>,
     objects := (objects demo_roots)(1048585 \<mapsto> \<lparr>otype = 1048681, attr_list_head = 0, gc_mark = 1,
       body = ClassBody demo_object_class\<rparr>)\<rparr>"

lemma two_classes_heap:
  "regions (heap two_classes) = [4096 \<mapsto> \<lparr>region = 1048576, region_end = 2097152, allocated = 1048768,
     region_next = 0, read_only = False\<rparr>]"
  "headers (heap two_classes) 1048576 = Some \<lparr>object_size = 80, kind = PUP_KIND_OBJ\<rparr>"
  "headers (heap two_classes) 1048672 = Some \<lparr>object_size = 80, kind = PUP_KIND_OBJ\<rparr>"
  by (simp_all add: two_classes_def class_eval boot_eval zero_object_def)

lemma demo_full_ok:
  "heap_wf demo_full" "chain (regions (heap demo_full)) region_next (region_list (heap demo_full)) [4096]"
  "region_blocks demo_full 4096 [(1048576, \<lparr>object_size = 80, kind = PUP_KIND_OBJ\<rparr>),
     (1048672, \<lparr>object_size = 80, kind = PUP_KIND_OBJ\<rparr>)]"
  "tally demo_full 0 0" "marked demo_full 1048585" "\<not> marked demo_full 1048681"
proof -
  have "heap_wf demo_roots"
    using demo_roots_ok(1) by (auto simp: marking_ok_def queue_ok_def)
  then show "heap_wf demo_full"
    by (rule heap_wf_cong) (auto simp: demo_full_def demo_roots_at)
  show "chain (regions (heap demo_full)) region_next (region_list (heap demo_full)) [4096]"
    by (simp add: demo_full_def demo_roots_at two_classes_heap)
  show "region_blocks demo_full 4096 [(1048576, \<lparr>object_size = 80, kind = PUP_KIND_OBJ\<rparr>),
     (1048672, \<lparr>object_size = 80, kind = PUP_KIND_OBJ\<rparr>)]"
    by (simp add: region_blocks_def demo_full_def demo_roots_at two_classes_heap alloc_size_for_def
        sizeof_HeapObject_def)
  show "tally demo_full 0 0" "marked demo_full 1048585" "\<not> marked demo_full 1048681"
    by (simp_all add: tally_def marked_def live_mark_def demo_full_def demo_roots_at)
qed

lemma collect_unmarked_objects_releases_witness:
  "\<exists>s. collect_unmarked_objects (\<lambda>_. True) (\<lambda>_. True) demo_full = Ret () s \<and> region_list (heap s) = NULL \<and>
     tally s 1 1 \<and> objects s 1048585 = None"
proof -
  let ?bs = "[(1048576, \<lparr>object_size = 80, kind = PUP_KIND_OBJ\<rparr>),
     (1048672, \<lparr>object_size = 80, kind = PUP_KIND_OBJ\<rparr>)]"
  have obs: "objects_of (concat [?bs]) = [1048585, 1048681]"
    by (simp add: data_offset_def)
  have "set (objects_of (concat [?bs])) \<subseteq> dom (objects demo_full)"
    unfolding obs by (auto simp: demo_full_def demo_roots_at)
  with collect_unmarked_objects_releases [OF demo_full_ok(1,2), of "[?bs]" "\<lambda>_. True" "\<lambda>_. True"]
    demo_full_ok(3-6) show ?thesis
    unfolding obs by auto
qed

text \<open>C23: The destruction of a heap with one region.  When each object in the region has a class that
  says how to destroy it, and no two classes share an entry of their method tables,
  \<open>pup_heap_destroy\<close> returns; the region and all that was in it is gone, and so are the method
  entries of the classes in it, but no others.\<close>

theorem pup_heap_destroy_frees:
  assumes "heap_wf s" and "region_list (heap s) = NULL"
    and "my_thread s = Some T" and "local_region T = r" and "regions (heap s) r = Some R"
    and "region_blocks s r bs" and "munmap_ok (region R)"
    and "\<forall>p \<in> set (objects_of bs). destroyable s p"
    and "\<forall>p \<in> set (objects_of bs). \<forall>q \<in> set (objects_of bs). p \<noteq> q \<longrightarrow> table s p \<inter> table s q = {}"
  shows "\<exists>s'. pup_heap_destroy munmap_ok s = Ret () s' \<and>
    regions (heap s') = (regions (heap s))(r := None) \<and>
    objects s' = objects s |` (- mapped (region R)) \<and> attrs s' = attrs s |` (- mapped (region R)) \<and>
    methods s' = methods s |` (- (\<Union>p \<in> set (objects_of bs). table s p))"
proof -
  have bs: "blocks (headers (heap s)) (region R) (allocated R) bs"
    using assms(5,6) by (simp add: region_blocks_def)
  let ?s1 = "s\<lparr>methods := methods s |` (- (\<Union>p \<in> set (objects_of bs). table s p))\<rparr>"
  have "visit_blocks destroy_block bs s = Ret () ?s1"
    by (rule destroy_blocks) (use assms(8,9) objects_of_distinct [OF bs] in auto)
  then have "destroy_region_objects r s = Ret () ?s1"
    using destroying.walk_visits [OF bs assms(5)] assms(5) by (simp add: destroy_region_objects_def)
  moreover have "r \<noteq> NULL"
    using heap_wf_region(1) [OF assms(1,5)] .
  moreover have "destroy_global_heap munmap_ok s = Ret () s"
    using assms(2) by (simp add: destroy_global_heap_def global_heap_head_def each_ahead.simps)
  ultimately show ?thesis
    using assms(3-5,7) by (auto simp: pup_heap_destroy_def pup_heap_thread_destroy_def get_thread_info_def
        my_thread_def free_region_def munmap_def Let_def split: if_splits)
qed

text \<open>The two classes with one method, \<open>puts\<close> of \<open>Object\<close>.\<close>

definition demo_puts :: rt where
  "demo_puts = demo_rt\<lparr>mallocs := drop 5 demo_tape,
     methods := [20480 \<mapsto> \<lparr>meth_sym = 1, meth = Object_puts, meth_next = 0\<rparr>],
     objects := (objects demo_rt)(1048585 \<mapsto> \<lparr>otype = 1048681, attr_list_head = 0, gc_mark = 0,
       body = ClassBody (demo_object_class\<lparr>method_list_head := 20480\<rparr>)\<rparr>)\<rparr>"

lemma demo_puts_at:
  "objects demo_puts 1048585 = Some \<lparr>otype = 1048681, attr_list_head = 0, gc_mark = 0,
     body = ClassBody (demo_object_class\<lparr>method_list_head := 20480\<rparr>)\<rparr>"
  "objects demo_puts 1048681 = Some \<lparr>otype = 1048681, attr_list_head = 0, gc_mark = 0,
     body = ClassBody demo_class_class\<rparr>"
  "methods demo_puts = [20480 \<mapsto> \<lparr>meth_sym = 1, meth = Object_puts, meth_next = 0\<rparr>]"
  "heap demo_puts = heap two_classes"
  by (simp_all add: demo_puts_def demo_rt_def)

lemma demo_puts_tables:
  "hook demo_puts 1048585 = Some Destroy_class" "hook demo_puts 1048681 = Some Destroy_class"
  "method_chain demo_puts 1048585 [20480]" "method_chain demo_puts 1048681 []"
  by (simp_all add: hook_def method_chain_def class_at_def the_class_def demo_puts_at demo_object_class_def
      demo_class_class_def)

lemma demo_puts_wf: "heap_wf demo_puts"
proof (rule heap_wf_malloc [of demo_rt 20480 0 "drop 5 demo_tape"])
  show "heap_wf demo_rt"
    using demo_rt_ok(1) by (simp add: rt_ok_def memory_ok_def)
  show "malloc (mallocs demo_rt) = (20480, 0, drop 5 demo_tape)"
    by (simp add: demo_rt_same two_classes_at(3) demo_tape_def)
qed (auto simp: demo_puts_def demo_rt_def malloced_def)

lemma pup_heap_destroy_frees_witness:
  "\<exists>s. pup_heap_destroy (\<lambda>_. True) demo_puts = Ret () s \<and> regions (heap s) 4096 = None \<and>
     objects s 1048585 = None \<and> methods s = Map.empty"
proof -
  let ?bs = "[(1048576, \<lparr>object_size = 80, kind = PUP_KIND_OBJ\<rparr>),
     (1048672, \<lparr>object_size = 80, kind = PUP_KIND_OBJ\<rparr>)]"
  let ?R = "\<lparr>region = 1048576, region_end = 2097152, allocated = 1048768, region_next = 0, read_only = False\<rparr>"
  have obs: "objects_of ?bs = [1048585, 1048681]"
    by (simp add: data_offset_def)
  have t: "table demo_puts 1048585 = {20480}" "table demo_puts 1048681 = {}"
    using demo_puts_tables by (simp_all add: table_chain)
  obtain T where T: "my_thread demo_puts = Some T" "local_region T = 4096" "region_list (heap demo_puts) = NULL"
    by (simp add: my_thread_def demo_puts_def demo_rt_def two_classes_def class_eval boot_eval zero_object_def)
  have "region_blocks demo_puts 4096 ?bs" "regions (heap demo_puts) 4096 = Some ?R"
    by (simp_all add: region_blocks_def demo_puts_at two_classes_heap alloc_size_for_def sizeof_HeapObject_def)
  moreover have "\<forall>p \<in> set (objects_of ?bs). destroyable demo_puts p"
    unfolding obs using demo_puts_tables by (auto simp: destroyable_def)
  moreover have "\<forall>p \<in> set (objects_of ?bs). \<forall>q \<in> set (objects_of ?bs). p \<noteq> q \<longrightarrow>
      table demo_puts p \<inter> table demo_puts q = {}"
    unfolding obs using t by auto
  ultimately have "\<exists>s. pup_heap_destroy (\<lambda>_. True) demo_puts = Ret () s \<and>
      regions (heap s) = (regions (heap demo_puts))(4096 := None) \<and>
      objects s = objects demo_puts |` (- mapped 1048576) \<and> attrs s = attrs demo_puts |` (- mapped 1048576) \<and>
      methods s = methods demo_puts |` (- (\<Union>p \<in> set (objects_of ?bs). table demo_puts p))"
    using pup_heap_destroy_frees [OF demo_puts_wf T(3,1,2), of ?R ?bs "\<lambda>_. True"] by simp
  moreover have "1048585 \<in> mapped 1048576"
    by (simp add: mapped_def)
  moreover have "methods demo_puts |` (- {20480}) = Map.empty"
    by (auto simp: demo_puts_at)
  ultimately show ?thesis
    unfolding obs using t by auto
qed

text \<open>
  The order of \<open>pup_heap_destroy\<close> is a bug once a region has filled up: the global list goes first, and
  when the region of the thread holds an object whose class was in a full region, the class is no
  longer there to say how the object is destroyed.
\<close>

lemma but_methods_same:
  assumes "but_methods s' = but_methods s"
  shows "objects s' = objects s" "heap s' = heap s" "self s' = self s" "class_at s' = class_at s"
proof -
  show o: "objects s' = objects s" and "heap s' = heap s" "self s' = self s"
    using arg_cong [OF assms, of objects] arg_cong [OF assms, of heap] arg_cong [OF assms, of self]
    by (simp_all add: but_methods_def)
  show "class_at s' = class_at s"
    using o by (simp add: class_at_def fun_eq_iff)
qed

lemma destroy_block_keeps: "destroy_block obj p s = Ret u s' \<Longrightarrow> but_methods s' = but_methods s"
  using destroy_keeps by (cases "kind obj") (auto simp: destroy_block_def)

lemma walk_destroy_keeps:
  assumes "walk_blocks destroy_block r a s = Some (Ret u s')"
  shows "but_methods s' = but_methods s"
proof -
  have "visit = destroy_block \<longrightarrow> x = Ret u s' \<longrightarrow> but_methods s' = but_methods s"
    if "walk_blocks visit r a s = Some x" for visit r a s x
  proof (rule walk_blocks.raw_induct [OF _ that, of "\<lambda>visit r a s x.
      visit = destroy_block \<longrightarrow> x = Ret u s' \<longrightarrow> but_methods s' = but_methods s"], goal_cases)
    case (1 loop visit r a s x)
    show ?case
    proof (intro impI)
      assume v: "visit = destroy_block" "x = Ret u s'"
      show "but_methods s' = but_methods s"
      proof (cases "regions (heap s) r")
        case None
        with 1(2) v show ?thesis by simp
      next
        case (Some R)
        show ?thesis
        proof (cases "a < allocated R")
          case False
          with 1(2) v Some show ?thesis by simp
        next
          case True
          with 1(2) v Some obtain obj w s4 and obj' :: heap_object where
            s4: "visit obj (a + data_offset) s = Ret w s4"
              "loop visit r (a + alloc_size_for (object_size obj')) s4 = Some x"
            by (auto split: option.splits outcome.splits)
          then have "but_methods s' = but_methods s4"
            using 1(1) v by blast
          with s4(1) v(1) show ?thesis
            by (simp add: destroy_block_keeps)
        qed
      qed
    qed
  qed
  with assms show ?thesis by blast
qed

text \<open>What freeing regions leaves, whatever was in them.\<close>

definition unmapped :: "rt \<Rightarrow> ptr set \<Rightarrow> ptr set \<Rightarrow> rt \<Rightarrow> bool" where
  "unmapped s rs A s' \<longleftrightarrow>
     objects s' = objects s |` (- A) \<and> headers (heap s') = headers (heap s) |` (- A) \<and>
     regions (heap s') = regions (heap s) |` (- rs) \<and> my_thread s' = my_thread s \<and>
     this_thread_info (heap s') (self s') = this_thread_info (heap s) (self s)"

lemma free_region_unmaps:
  assumes "free_region munmap_ok r s = Ret u s'" and "regions (heap s) r = Some R" and "munmap_ok (region R)"
  shows "unmapped s {r} (mapped (region R)) s'"
proof -
  obtain s1 where s1: "destroy_region_objects r s = Ret () s1"
    using assms(1) by (auto simp: free_region_def outcome_simps)
  then have "walk_blocks destroy_block r (region R) s = Some (Ret () s1)"
    using assms(2) by (cases "walk_blocks destroy_block r (region R) s") (simp_all add: destroy_region_objects_def)
  note same = but_methods_same [OF walk_destroy_keeps [OF this]]
  have "s' = (munmap (region R) s1)\<lparr>heap := (heap (munmap (region R) s1))\<lparr>regions := (regions (heap s))(r := None)\<rparr>\<rparr>"
    using assms s1 same by (simp add: free_region_def munmap_def Let_def)
  moreover have "(regions (heap s))(r := None) = regions (heap s) |` (- {r})"
    by (auto simp: restrict_map_def)
  ultimately show ?thesis
    using same by (simp add: unmapped_def munmap_def my_thread_def Let_def)
qed

lemma free_regions_unmap:
  assumes "each_ahead (\<lambda>s. regions (heap s)) region_next (free_region munmap_ok) h s = Some (Ret u s')"
    and "chain (regions (heap s)) region_next h rs" and "\<forall>a. munmap_ok a"
  shows "unmapped s (set rs) (area s rs) s'"
  using assms(1,2)
proof (induction rs arbitrary: h s)
  case Nil
  then show ?case by (simp add: each_ahead.simps area_def restrict_UNIV unmapped_def)
next
  case (Cons r rs)
  then obtain R where R: "h = r" "r \<noteq> NULL" "regions (heap s) r = Some R" "chain (regions (heap s)) region_next (region_next R) rs"
    by auto
  have out: "r \<notin> set rs"
    using chain_distinct [OF Cons.prems(2)] by simp
  from Cons.prems(1) R(1-3) obtain v s1 where s1: "free_region munmap_ok r s = Ret v s1"
      "each_ahead (\<lambda>s. regions (heap s)) region_next (free_region munmap_ok) (region_next R) s1 = Some (Ret u s')"
    by (auto simp: each_ahead.simps [of _ _ _ r s] split: outcome.splits)
  have un: "unmapped s {r} (mapped (region R)) s1"
    by (rule free_region_unmaps [OF s1(1) R(3)]) (use assms(3) in simp)
  then have same: "regions (heap s1) x = regions (heap s) x" if "x \<in> set rs" for x
    using that out by (auto simp: unmapped_def restrict_map_def)
  have "chain (regions (heap s1)) region_next (region_next R) rs = chain (regions (heap s)) region_next (region_next R) rs"
    by (rule chain_cong) (simp add: same)
  with R(4) have "unmapped s1 (set rs) (area s1 rs) s'"
    by (intro Cons.IH [OF s1(2)]) simp
  moreover have "area s1 rs = area s rs"
    unfolding area_def using same by simp
  moreover have "area s (r # rs) = mapped (region R) \<union> area s rs"
    using R(3) by (simp add: area_def)
  moreover have "set (r # rs) = {r} \<union> set rs"
    by simp
  ultimately show ?case
    using un unfolding unmapped_def by (simp only: restrict_restrict Compl_Un)
qed

lemma destroyed_has_class:
  assumes "visit_blocks destroy_block bs s = Ret u s'" and "p \<in> set (objects_of bs)"
  shows "\<exists>ob c. objects s p = Some ob \<and> class_at s (otype ob) = Some c"
  using assms
proof (induction bs arbitrary: s)
  case (Cons b bs)
  obtain q obj where b: "b = (q, obj)"
    by (cases b)
  from Cons.prems(1) obtain v s1 where s1: "destroy_block obj (q + data_offset) s = Ret v s1"
      "visit_blocks destroy_block bs s1 = Ret u s'"
    by (auto simp: b outcome_simps)
  note same = but_methods_same [OF destroy_block_keeps [OF s1(1)]]
  show ?case
  proof (cases "p \<in> set (objects_of bs)")
    case True
    with Cons.IH [OF s1(2)] same show ?thesis by simp
  next
    case False
    with Cons.prems(2) have "kind obj = PUP_KIND_OBJ" "p = q + data_offset"
      by (auto simp: b split: if_splits)
    with s1(1) show ?thesis
      by (auto simp: destroy_block_def pup_object_destroy_def pup_class_destroy_instance_def outcome_simps)
  qed
qed simp

text \<open>C27: A bug in \<open>pup_heap_destroy\<close>: it gives the full regions back to the operating system before it
  destroys the objects in the thread's own region, but to destroy an object it reads the hook in the
  object's class.  In a well-formed heap with an object in the thread's region whose class is in
  a full region, the call does not return.\<close>

theorem pup_heap_destroy_reads_unmapped:
  assumes "heap_wf s" and "chain (regions (heap s)) region_next (region_list (heap s)) rs"
    and "my_thread s = Some T" and "local_region T = r" and "r \<notin> set rs"
    and "region_blocks s r bs" and "p \<in> set (objects_of bs)" and "objects s p = Some ob"
    and "otype ob \<in> area s rs" and "\<forall>a. munmap_ok a"
  shows "pup_heap_destroy munmap_ok s \<noteq> Ret u s'"
proof
  assume "pup_heap_destroy munmap_ok s = Ret u s'"
  then obtain s1 where s1: "destroy_global_heap munmap_ok s = Ret () s1"
      "pup_heap_thread_destroy munmap_ok s1 = Ret u s'"
    by (auto simp: pup_heap_destroy_def outcome_simps)
  then have loop: "each_ahead (\<lambda>s. regions (heap s)) region_next (free_region munmap_ok) (region_list (heap s)) s =
      Some (Ret () s1)"
    by (cases "each_ahead (\<lambda>s. regions (heap s)) region_next (free_region munmap_ok) (region_list (heap s)) s")
      (simp_all add: destroy_global_heap_def global_heap_head_def)
  note un = free_regions_unmap [OF loop assms(2,10), unfolded unmapped_def]
  obtain R where R: "regions (heap s) r = Some R" "blocks (headers (heap s)) (region R) (allocated R) bs"
    using assms(6) by (auto simp: region_blocks_def)
  note ok = heap_wf_region [OF assms(1) R(1)]
  have away: "mapped (region R) \<inter> area s rs = {}"
  proof -
    have "mapped (region R) \<inter> mapped (region X) = {}" if "x \<in> set rs" "regions (heap s) x = Some X" for x X
      using heap_wf_disjoint [OF assms(1) R(1) that(2)] that(1) assms(5) by auto
    then show ?thesis
      by (fastforce simp: area_def split: option.splits)
  qed
  have R1: "regions (heap s1) r = Some R"
    using un R(1) assms(5) by (simp add: restrict_map_def)
  have "headers (heap s1) q = headers (heap s) q" if "(q, obj) \<in> set bs" for q obj
    using un away block_in_mapped(1) [OF ok(2) R(2) that] by (auto simp: restrict_map_def)
  then have bs1: "blocks (headers (heap s1)) (region R) (allocated R) bs"
    using R(2) blocks_cong [of bs "headers (heap s1)" "headers (heap s)"] by blast
  have "local_region T \<noteq> NULL" "my_thread s1 = Some T"
    using ok(1) un assms(3,4) by simp_all
  then obtain s2 where s2: "free_region munmap_ok r s1 = Ret () s2"
    using s1(2) assms(4) by (auto simp: pup_heap_thread_destroy_def get_thread_info_def my_thread_def Let_def outcome_simps
        split: if_splits)
  then obtain s3 where "visit_blocks destroy_block bs s1 = Ret () s3"
    using destroying.walk_visits [OF bs1 R1] R1 by (auto simp: free_region_def destroy_region_objects_def outcome_simps)
  from destroyed_has_class [OF this assms(7)] obtain ob1 c where
    ob1: "objects s1 p = Some ob1" "class_at s1 (otype ob1) = Some c"
    by blast
  then have "ob1 = ob"
    using un assms(8) by (auto simp: restrict_map_def split: if_splits)
  with ob1(2) have "otype ob \<notin> area s rs"
    using un by (auto simp: class_at_Some restrict_map_def split: if_splits)
  with assms(9) show False by blast
qed

text \<open>The two classes in a full region, and a plain object in the next one.\<close>

definition demo_second :: heap_region where
  "demo_second = \<lparr>region = 0x400000, region_end = 0x500000, allocated = 0x400028, region_next = 0, read_only = False\<rparr>"

definition demo_teardown :: rt where
  "demo_teardown = demo_rt\<lparr>mallocs := drop 5 demo_tape,
     heap := (heap demo_rt)\<lparr>region_list := 4096, regions := (regions (heap demo_rt))(20480 \<mapsto> demo_second),
       headers := (headers (heap demo_rt))(0x400000 \<mapsto> \<lparr>object_size = 24, kind = PUP_KIND_OBJ\<rparr>),
       threads := (threads (heap demo_rt))(8192 \<mapsto> \<lparr>tid = 7, local_region = 20480, threadinfo_next = 0,
         gc_waiting = False, current_gc_mark = 0\<rparr>)\<rparr>,
     objects := (objects demo_rt)(0x400009 \<mapsto> \<lparr>otype = 1048585, attr_list_head = 0, gc_mark = 0,
       body = PlainBody\<rparr>)\<rparr>"

lemma two_classes_threads:
  "this_thread_info (heap two_classes) (self two_classes) = 8192" "8192 \<in> dom (threads (heap two_classes))"
  "mmaps two_classes = []" "attrs two_classes = Map.empty" "region_list (heap two_classes) = 0"
  "dom (headers (heap two_classes)) = {1048576, 1048672}"
  by (auto simp: two_classes_def class_eval boot_eval zero_object_def)

lemma demo_teardown_at:
  "regions (heap demo_teardown) = (regions (heap two_classes))(20480 \<mapsto> demo_second)"
  "headers (heap demo_teardown) = (headers (heap two_classes))(0x400000 \<mapsto> \<lparr>object_size = 24, kind = PUP_KIND_OBJ\<rparr>)"
  "dom (objects demo_teardown) = {0x400009, 1048585, 1048681}"
  "objects demo_teardown 0x400009 = Some \<lparr>otype = 1048585, attr_list_head = 0, gc_mark = 0, body = PlainBody\<rparr>"
  "mallocs demo_teardown = drop 5 demo_tape" "attrs demo_teardown = Map.empty" "mmaps demo_teardown = []"
  "methods demo_teardown = methods demo_rt" "segments demo_teardown = segments demo_rt"
  "unwinds demo_teardown = unwinds demo_rt" "sym_tab demo_teardown = sym_tab demo_rt"
  "dom (threads (heap demo_teardown)) = dom (threads (heap demo_rt))" "region_list (heap demo_teardown) = 4096"
  "my_thread demo_teardown = Some \<lparr>tid = 7, local_region = 20480, threadinfo_next = 0, gc_waiting = False,
     current_gc_mark = 0\<rparr>"
  using two_classes_threads
  by (auto simp: demo_teardown_def demo_rt_def my_thread_def)

lemma demo_teardown_wf: "heap_wf demo_teardown"
proof -
  have wf: "heap_wf demo_rt"
    using demo_rt_ok(1) by (simp add: rt_ok_def memory_ok_def)
  have base: "regions (heap demo_rt) = regions (heap two_classes)" "headers (heap demo_rt) = headers (heap two_classes)"
      "dom (objects demo_rt) = {1048585, 1048681}" "malloc (mallocs demo_rt) = (20480, 0, drop 5 demo_tape)"
    by (auto simp: demo_rt_def two_classes_at(3) demo_tape_def)
  let ?R = "\<lparr>region = 1048576, region_end = 2097152, allocated = 1048768, region_next = 0, read_only = False\<rparr>"
  have r1: "regions (heap demo_rt) 4096 = Some ?R"
    by (simp add: base two_classes_heap)
  note R1 = heap_wf_region [OF wf r1] and tapes = heap_wf_tapes [OF wf]
  have cases: "r = 4096 \<and> R = ?R \<or> r = 20480 \<and> R = demo_second" if "regions (heap demo_teardown) r = Some R" for r R
    using that by (auto simp: demo_teardown_at two_classes_heap split: if_splits)
  have mapped: "p \<notin> mapped 1048576" if "p \<in> {0x400000, 0x400009}" for p :: ptr
    using that by (auto simp: mapped_def)
  have ok2: "region_ok demo_second" and unused2: "unused_above demo_teardown demo_second"
    using two_classes_threads by (auto simp: region_ok_def demo_second_def REGION_SIZE_def unused_above_def
        demo_teardown_at mapped_def)
  have blocks2: "\<exists>bs. blocks (headers (heap demo_teardown)) 0x400000 0x400028 bs"
    by (rule exI [of _ "[(0x400000, \<lparr>object_size = 24, kind = PUP_KIND_OBJ\<rparr>)]"]) (simp add: demo_teardown_at alloc_size_for_def sizeof_HeapObject_def)
  have unused1: "unused_above demo_teardown ?R"
    using two_classes_threads by (auto simp: unused_above_def demo_teardown_at mapped_def)
  have blocks1: "\<exists>bs. blocks (headers (heap demo_teardown)) 1048576 1048768 bs"
    by (rule exI [of _ "[(1048576, \<lparr>object_size = 80, kind = PUP_KIND_OBJ\<rparr>),
       (1048672, \<lparr>object_size = 80, kind = PUP_KIND_OBJ\<rparr>)]"])
      (simp add: demo_teardown_at two_classes_heap alloc_size_for_def sizeof_HeapObject_def)
  show ?thesis
  proof (rule heap_wfI)
    fix r R
    assume "regions (heap demo_teardown) r = Some R"
    note c = cases [OF this]
    show "r \<noteq> NULL" "region_ok R" "unused_above demo_teardown R"
      using c R1(2) ok2 unused1 unused2 by auto
    show "\<exists>bs. blocks (headers (heap demo_teardown)) (region R) (allocated R) bs"
      using c blocks1 blocks2 by (auto simp: demo_second_def)
    fix r' R'
    assume "regions (heap demo_teardown) r' = Some R'" "r \<noteq> r'"
    with c cases [of r' R'] show "mapped (region R) \<inter> mapped (region R') = {}"
      by (auto simp: demo_second_def mapped_def)
  next
    have a: "region_addresses (heap demo_teardown) = region_addresses (heap demo_rt) \<union> mapped 0x400000"
      by (auto simp: region_addresses_def demo_teardown_at base demo_second_def two_classes_heap split: option.splits if_splits)
    have t: "fst ` set (drop 5 demo_tape) \<subseteq> fst ` set (mallocs demo_rt)"
      by (simp add: demo_rt_same two_classes_at(3) demo_tape_def)
    have "fst ` set (drop 5 demo_tape) \<inter> mapped 0x400000 = {}"
      by (simp add: demo_tape_def mapped_def)
    with t tapes(1) show "fst ` set (mallocs demo_teardown) \<inter> region_addresses (heap demo_teardown) \<subseteq> {NULL}"
      unfolding a demo_teardown_at by blast
    have "fresh_tape (drop 5 demo_tape) (insert 20480 (malloced demo_rt))"
      using fresh_tape_head [OF tapes(2) base(4)] by simp
    moreover have "fresh_tape (drop 5 demo_tape) (insert 20480 (malloced demo_rt) \<union> {0x400009})"
      by (rule fresh_tape_beyond [OF calculation]) (auto simp: demo_tape_def)
    moreover have "malloced demo_teardown \<subseteq> insert 20480 (malloced demo_rt) \<union> {0x400009}"
      unfolding malloced_def demo_teardown_at base by auto
    ultimately show "fresh_tape (mallocs demo_teardown) (malloced demo_teardown)"
      unfolding demo_teardown_at using fresh_tape_mono by blast
  qed (simp_all add: demo_teardown_at)
qed

lemma pup_heap_destroy_reads_unmapped_witness:
  "\<forall>s. pup_heap_destroy (\<lambda>_. True) demo_teardown \<noteq> Ret () s"
proof (rule allI, rule pup_heap_destroy_reads_unmapped [OF demo_teardown_wf, of "[4096]"])
  show "region_blocks demo_teardown 20480 [(0x400000, \<lparr>object_size = 24, kind = PUP_KIND_OBJ\<rparr>)]"
    by (simp add: region_blocks_def demo_teardown_at demo_second_def alloc_size_for_def sizeof_HeapObject_def)
  show "my_thread demo_teardown = Some \<lparr>tid = 7, local_region = 20480, threadinfo_next = 0, gc_waiting = False,
     current_gc_mark = 0\<rparr>"
    by (rule demo_teardown_at)
  show "objects demo_teardown 0x400009 = Some \<lparr>otype = 1048585, attr_list_head = 0, gc_mark = 0, body = PlainBody\<rparr>"
    by (rule demo_teardown_at)
qed (simp_all add: demo_teardown_at two_classes_heap area_def mapped_def data_offset_def)

end
