(* ===== verification/Env.thy ===== *)
theory Env
  imports Collect Dispatch
begin

text \<open>
  Setting up and taking down a process: \<open>pup_heap_init\<close> (heap.c) and the environment (env.c), from
  \<open>pup_runtime_env_create\<close> to \<open>pup_env_launch_main\<close>.  The answers of the operating system are a
  record, a parameter of the functions that use them.
\<close>

section \<open>The operating system\<close>

text \<open>The results of the calls, 0 for success, and whether dlopen and munmap succeed.\<close>

record os_results =
  key_create :: i32
  sigaction_res :: i32
  attr_init :: i32
  thread_create :: i32
  attr_destroy :: i32
  thread_cancel :: i32
  thread_join :: i32
  barrier_init :: i32
  dlopen_ok :: bool
  munmap_ok :: "ptr \<Rightarrow> bool"

section \<open>Setting up the heap\<close>

definition heap_thread_stop :: "os_results \<Rightarrow> i32" where
  "heap_thread_stop os = (if thread_cancel os \<noteq> 0 then thread_cancel os else thread_join os)"

text \<open>The thread of the collector; what it does is not part of the calls modelled here.\<close>

definition heap_thread_start :: "os_results \<Rightarrow> i32" where
  "heap_thread_start os =
     (if attr_init os \<noteq> 0 then 1
      else if attr_destroy os \<noteq> 0 then (let _ = heap_thread_stop os in 1)
      else if thread_create os \<noteq> 0 then 1
      else 0)"

definition setup_signal_handling :: "os_results \<Rightarrow> rt \<Rightarrow> (i32, rt) outcome" where
  "setup_signal_handling os s = abort_on (sigaction_res os \<noteq> 0) (Ret 0 s)"

definition set_gc_state :: "gc_state option \<Rightarrow> rt \<Rightarrow> (unit, rt) outcome" where
  "set_gc_state g s = Ret () (s\<lparr>gc := g\<rparr>)"

definition get_gc_state :: "rt \<Rightarrow> gc_state option" where
  "get_gc_state s = gc s"

text \<open>The member \<open>gc_state\<close> of the new heap is not set before the end.\<close>

definition pup_heap_init :: "os_results \<Rightarrow> rt \<Rightarrow> (i32, rt) outcome" where
  "pup_heap_init os s =
     (if key_create os \<noteq> 0 then Ret (key_create os) s
      else
        andthen (pup_heap_thread_init (s\<lparr>heap := (heap s)\<lparr>region_list := NULL, thread_list := NULL\<rparr>\<rparr>)) (\<lambda>ok s.
        if \<not> ok then Ret (- 1) s
        else
          andthen (setup_signal_handling os s) (\<lambda>res s.
          if res \<noteq> 0 then Ret res s
          else if heap_thread_start os \<noteq> 0 then
            andthen (pup_heap_thread_destroy (munmap_ok os) s) (\<lambda>_ s. Ret (heap_thread_start os) s)
          else
            abort_on (barrier_init os \<noteq> 0)
              (andthen (pup_gc_state_create (dlopen_ok os) s) (\<lambda>g s.
               abort_on (g = None)
                 (andthen (set_gc_state g s) (\<lambda>_ s. Ret 0 s)))))))"

section \<open>The classes of the environment\<close>

definition pup_env_get_classobject :: "rt \<Rightarrow> ptr" where
  "pup_env_get_classobject s = class_object (env s)"

definition pup_env_get_classclass :: "rt \<Rightarrow> ptr" where
  "pup_env_get_classclass s = class_class (env s)"

definition pup_env_get_classstring :: "rt \<Rightarrow> ptr" where
  "pup_env_get_classstring s = class_string (env s)"

definition pup_env_get_classexception :: "rt \<Rightarrow> ptr" where
  "pup_env_get_classexception s = class_exception (env s)"

definition pup_env_get_classstandarderror :: "rt \<Rightarrow> ptr" where
  "pup_env_get_classstandarderror s = class_standarderror (env s)"

definition pup_env_get_classruntimeerror :: "rt \<Rightarrow> ptr" where
  "pup_env_get_classruntimeerror s = class_runtimeerror (env s)"

definition pup_env_get_trueinstance :: "rt \<Rightarrow> ptr" where
  "pup_env_get_trueinstance s = object_true (env s)"

definition pup_env_get_falseinstance :: "rt \<Rightarrow> ptr" where
  "pup_env_get_falseinstance s = object_false (env s)"

definition pup_env_get_classfixnum :: "rt \<Rightarrow> ptr" where
  "pup_env_get_classfixnum s = class_fixnum (env s)"

definition set_env :: "(runtime_env \<Rightarrow> runtime_env) \<Rightarrow> rt \<Rightarrow> rt" where
  "set_env f s = s\<lparr>env := f (env s)\<rparr>"

definition pup_exception_class_init :: "ptr \<Rightarrow> rt \<Rightarrow> (unit, rt) outcome" where
  "pup_exception_class_init class_excep s =
     andthen (define_named class_excep ''initialize'' Exception_initialize s) (\<lambda>_ s.
     define_named class_excep ''message'' Exception_message s)"

section \<open>Bootstrapping\<close>

text \<open>A constant of \<open>Object\<close>, and the turn that \<open>runtime_init\<close> takes for each class after the first two.\<close>

definition set_constant :: "string \<Rightarrow> ptr \<Rightarrow> rt \<Rightarrow> (unit, rt) outcome" where
  "set_constant nm val s =
     andthen (pup_env_str_to_sym nm s) (\<lambda>sy s. pup_const_set (class_object (env s)) sy val s)"

definition add_class ::
    "(ptr \<Rightarrow> runtime_env \<Rightarrow> runtime_env) \<Rightarrow> string \<Rightarrow> (rt \<Rightarrow> (ptr, rt) outcome) \<Rightarrow> rt \<Rightarrow> (unit, rt) outcome" where
  "add_class field nm create s =
     andthen (create s) (\<lambda>class s. set_constant nm class (set_env (field class) s))"

text \<open>\<open>Object\<close> and \<open>Class\<close>: the methods of classes are defined on \<open>Object\<close>.\<close>

definition init_root :: "rt \<Rightarrow> (unit, rt) outcome" where
  "init_root s =
     andthen (pup_bootstrap_create_classobject s) (\<lambda>co s.
     andthen (pup_bootstrap_create_classclass co (set_env (class_object_update (\<lambda>_. co)) s)) (\<lambda>cc s.
     andthen (obj_init co cc (set_env (class_class_update (\<lambda>_. cc)) s)) (\<lambda>_ s.
     andthen (obj_init cc cc s) (\<lambda>_ s.
     andthen (pup_class_class_init co s) (\<lambda>_ s.
     andthen (pup_object_class_init co s) (\<lambda>_ s.
     andthen (set_constant ''Object'' co s) (\<lambda>_ s.
     set_constant ''Class'' cc s)))))))"

definition runtime_init :: "os_results \<Rightarrow> dispatcher \<Rightarrow> rt \<Rightarrow> (unit, rt) outcome" where
  "runtime_init os invoke s =
     andthen (pup_heap_init os s) (\<lambda>res s. abort_on (res \<noteq> 0)
    (andthen (init_root s) (\<lambda>_ s.
     andthen (add_class (\<lambda>c. class_string_update (\<lambda>_. c)) ''String'' (pup_bootstrap_create_classstring invoke) s) (\<lambda>_ s.
     andthen (add_class (\<lambda>c. class_exception_update (\<lambda>_. c)) ''Exception''
       (\<lambda>s. pup_create_class invoke (class_object (env s)) NULL (Some ''Exception'') s) s) (\<lambda>_ s.
     andthen (add_class (\<lambda>c. class_standarderror_update (\<lambda>_. c)) ''StandardError''
       (\<lambda>s. pup_create_class invoke (class_exception (env s)) NULL (Some ''StandardError'') s) s) (\<lambda>_ s.
     andthen (add_class (\<lambda>c. class_runtimeerror_update (\<lambda>_. c)) ''RuntimeError''
       (\<lambda>s. pup_create_class invoke (class_standarderror (env s)) NULL (Some ''RuntimeError'') s) s) (\<lambda>_ s.
     andthen (add_class (\<lambda>c. class_true_update (\<lambda>_. c)) ''TrueClass''
       (\<lambda>s. pup_create_class invoke (class_object (env s)) NULL (Some ''TrueClass'') s) s) (\<lambda>_ s.
     andthen (add_class (\<lambda>c. class_false_update (\<lambda>_. c)) ''FalseClass''
       (\<lambda>s. pup_create_class invoke (class_object (env s)) NULL (Some ''FalseClass'') s) s) (\<lambda>_ s.
     andthen (pup_create_object (class_true (env s)) s) (\<lambda>t s.
     andthen (pup_create_object (class_false (env s)) (set_env (object_true_update (\<lambda>_. t)) s)) (\<lambda>f s.
     andthen (pup_exception_class_init (class_exception (env s)) (set_env (object_false_update (\<lambda>_. f)) s)) (\<lambda>_ s.
     add_class (\<lambda>c. class_fixnum_update (\<lambda>_. c)) ''Fixnum'' (pup_bootstrap_create_classfixnum invoke) s))))))))))))"

text \<open>
  The struct of the environment is malloc'ed, and so is its symbol table.  When the table cannot be
  had the way out runs \<open>pup_heap_destroy\<close> on a heap that was never set up, which is undefined.
\<close>

definition pup_runtime_env_create :: "os_results \<Rightarrow> dispatcher \<Rightarrow> rt \<Rightarrow> (ptr, rt) outcome" where
  "pup_runtime_env_create os invoke s =
     (case malloc (mallocs s) of (e, junk, t) \<Rightarrow>
        if e = NULL then Ret NULL (s\<lparr>mallocs := t\<rparr>)
        else case pup_sym_table_create t of
          (None, t') \<Rightarrow> Undef
        | (Some st, t') \<Rightarrow>
            andthen (runtime_init os invoke (s\<lparr>mallocs := t', sym_tab := st\<rparr>)) (\<lambda>_ s. Ret e s))"

definition pup_runtime_env_destroy :: "os_results \<Rightarrow> rt \<Rightarrow> (unit, rt) outcome" where
  "pup_runtime_env_destroy os s =
     andthen (on_part (\<lambda>m. s\<lparr>sym_tab := (sym_tab s)\<lparr>st_entries := m\<rparr>\<rparr>) (pup_sym_table_destroy (sym_tab s))) (\<lambda>_ s.
     let _ = heap_thread_stop os in pup_heap_destroy (munmap_ok os) s)"

section \<open>The main thread\<close>

text \<open>
  The main method runs in a thread of its own, \<open>main_tid\<close>.  The result of \<open>pup_heap_thread_init\<close> is
  ignored there.  A Pup exception that leaves the method finds no handler, and \<open>pup_raise\<close> aborts.
\<close>

definition do_main :: "(ptr \<Rightarrow> i64 \<Rightarrow> argv \<Rightarrow> rt \<Rightarrow> (ptr, rt) outcome) \<Rightarrow> ptr \<Rightarrow> rt \<Rightarrow> (ptr, rt) outcome" where
  "do_main main_method main_obj s =
     andthen (pup_heap_thread_init s) (\<lambda>_ s.
       case main_method main_obj 0 None s of Raised e s' \<Rightarrow> Aborted | r \<Rightarrow> r)"

definition pup_env_launch_main ::
    "os_results \<Rightarrow> u64 \<Rightarrow> (ptr \<Rightarrow> i64 \<Rightarrow> argv \<Rightarrow> rt \<Rightarrow> (ptr, rt) outcome) \<Rightarrow> rt \<Rightarrow> (i32, rt) outcome" where
  "pup_env_launch_main os main_tid main_method s =
     andthen (pup_create_object (pup_env_get_classobject s) s) (\<lambda>main_obj s.
       if attr_init os \<noteq> 0 then Ret 1 s
       else abort_on (thread_create os \<noteq> 0)
         (andthen (do_main main_method main_obj (s\<lparr>self := main_tid\<rparr>)) (\<lambda>_ s'.
          abort_on (thread_join os \<noteq> 0) (Ret 0 (s'\<lparr>self := self s\<rparr>)))))"

end
