(* ===== verification/Bootstrap.thy ===== *)
theory Bootstrap
  imports Env Typing
begin

text \<open>
  What the bootstrap of env.c builds: the state of a runtime seen as a world of classes, each with
  its parent, methods and constants, and a proof that \<open>runtime_init\<close> makes the world it is meant to.
\<close>

section \<open>Returning with a result\<close>

definition achieves :: "('a, 's) outcome \<Rightarrow> ('a \<Rightarrow> 's \<Rightarrow> bool) \<Rightarrow> bool" where
  "achieves m P \<longleftrightarrow> (\<exists>x s. m = Ret x s \<and> P x s)"

lemma achieves_Ret [simp]: "achieves (Ret x s) P \<longleftrightarrow> P x s"
  by (simp add: achieves_def)

lemma achieves_andthen:
  assumes "achieves m P" and "\<And>x s. P x s \<Longrightarrow> achieves (f x s) Q"
  shows "achieves (andthen m f) Q"
  using assms(1) unfolding achieves_def [of m] by (elim exE conjE) (simp add: assms(2))

lemma achieves_weaken: "achieves m P \<Longrightarrow> (\<And>x s. P x s \<Longrightarrow> Q x s) \<Longrightarrow> achieves m Q"
  unfolding achieves_def by blast

lemma achieves_abort_on: "\<not> c \<Longrightarrow> achieves m P \<Longrightarrow> achieves (abort_on c m) P"
  by simp

section \<open>Methods and constants by name\<close>

definition methods_of :: "string list \<Rightarrow> (string \<times> pup_method) list \<Rightarrow> i64 \<rightharpoonup> pup_method" where
  "methods_of ss L = map_of (map (\<lambda>(nm, f). (scast (symbol_in ss nm), f)) L)"

definition consts_of :: "string list \<Rightarrow> (string \<times> ptr) list \<Rightarrow> i32 \<Rightarrow> ptr" where
  "consts_of ss K k =
     (case map_of (map (\<lambda>(nm, p). (symbol_in ss nm, p)) K) k of None \<Rightarrow> NULL | Some p \<Rightarrow> p)"

lemma index_of_append: "x \<in> set ss \<Longrightarrow> index_of x (ss @ ts) = index_of x ss"
  by (induction ss) auto

lemma symbol_in_append: "x \<in> set ss \<Longrightarrow> symbol_in (ss @ ts) x = symbol_in ss x"
  using index_of_None [of x ss] by (auto simp: symbol_in_def intern_def index_of_append split: option.split)

lemma methods_of_append:
  assumes "fst ` set L \<subseteq> set ss"
  shows "methods_of (ss @ ts) L = methods_of ss L"
proof -
  have "map (\<lambda>(nm, f). (scast (symbol_in (ss @ ts) nm) :: i64, f)) L =
      map (\<lambda>(nm, f). (scast (symbol_in ss nm), f)) L"
    using assms by (intro map_cong) (auto simp: symbol_in_append)
  then show ?thesis
    by (simp only: methods_of_def)
qed

lemma consts_of_append:
  assumes "fst ` set K \<subseteq> set ss"
  shows "consts_of (ss @ ts) K = consts_of ss K"
proof -
  have "map (\<lambda>(nm, p). (symbol_in (ss @ ts) nm, p)) K = map (\<lambda>(nm, p). (symbol_in ss nm, p)) K"
    using assms by (intro map_cong) (auto simp: symbol_in_append)
  then show ?thesis
    by (intro ext) (simp only: consts_of_def)
qed

lemma methods_of_snoc:
  "methods_of ss (L @ [(nm, f)]) k =
     (case methods_of ss L k of Some g \<Rightarrow> Some g | None \<Rightarrow> if k = scast (symbol_in ss nm) then Some f else None)"
  by (simp add: methods_of_def map_add_def split: option.split)

lemma consts_of_Cons:
  "consts_of ss ((nm, p) # K) k = (if k = symbol_in ss nm then p else consts_of ss K k)"
  by (simp add: consts_of_def)

text \<open>Different names have different symbols, so that a lookup by symbol is a lookup by name.\<close>

lemma symbol_in_inj:
  assumes ss: "interned s ss" and x: "x \<in> set ss" and y: "y \<in> set ss"
    and eq: "symbol_in ss x = symbol_in ss y"
  shows "x = y"
proof -
  have len: "Suc (length ss) < 2 ^ 31"
    using ss by (auto simp: interned_def sym_table_is_def)
  obtain i j where i: "index_of x ss = Some i" and j: "index_of y ss = Some j"
    using x y index_of_None [of x ss] index_of_None [of y ss] by auto
  have lt: "i < length ss" "ss ! i = x" "j < length ss" "ss ! j = y"
    using i j by (auto dest: index_of_Some)
  have "(of_nat (Suc i) :: i32) = of_nat (Suc j)"
    using eq i j by (simp add: symbol_in_def intern_def)
  then have "unat (of_nat (Suc i) :: i32) = unat (of_nat (Suc j) :: i32)"
    by simp
  then have "Suc i = Suc j"
    using len lt by (simp add: unat_of_nat del: of_nat_Suc)
  with lt show ?thesis by simp
qed

lemma scast_i32_inj: "(scast (a :: i32) :: i64) = scast b \<longleftrightarrow> a = b"
proof
  assume "(scast a :: i64) = scast b"
  then have "sint (scast a :: i64) = sint (scast b :: i64)"
    by simp
  then have "sint a = sint b"
    by (simp add: sint_up_scast is_up)
  then show "a = b"
    by (rule iffD2 [OF word_eq_iff_signed])
qed simp

lemma map_of_inj_on:
  "inj_on f (insert x (fst ` set L)) \<Longrightarrow> map_of (map (\<lambda>(a, b). (f a, b)) L) (f x) = map_of L x"
proof (induction L)
  case (Cons y L)
  have "f x = f (fst y) \<longleftrightarrow> x = fst y"
    using Cons.prems by (auto simp: inj_on_def)
  moreover have "inj_on f (insert x (fst ` set L))"
    by (rule inj_on_subset [OF Cons.prems]) auto
  ultimately show ?case
    using Cons.IH by (cases y) auto
qed simp

lemma methods_of_named:
  assumes "interned s ss" and "insert nm (fst ` set L) \<subseteq> set ss"
  shows "methods_of ss L (scast (symbol_in ss nm)) = map_of L nm"
  unfolding methods_of_def
  by (rule map_of_inj_on)
    (use assms symbol_in_inj [OF assms(1)] in \<open>auto simp: inj_on_def scast_i32_inj\<close>)

lemma consts_of_named:
  assumes "interned s ss" and "insert nm (fst ` set K) \<subseteq> set ss"
  shows "consts_of ss K (symbol_in ss nm) = (case map_of K nm of None \<Rightarrow> NULL | Some p \<Rightarrow> p)"
  unfolding consts_of_def
  by (subst map_of_inj_on) (use assms symbol_in_inj [OF assms(1)] in \<open>auto simp: inj_on_def\<close>)

section \<open>The world of classes\<close>

text \<open>
  A class: where it is, its own class, its struct without the method list, the class and its
  superclasses, its methods in the order of their definition, and its constants, the last one set
  first.
\<close>

record class_spec =
  spec_ptr :: ptr
  spec_type :: ptr
  spec_body :: class_body
  spec_supers :: "ptr list"
  spec_methods :: "(string \<times> pup_method) list"
  spec_consts :: "(string \<times> ptr) list"

definition class_shown :: "rt \<Rightarrow> class_spec \<Rightarrow> bool" where
  "class_shown s sp \<longleftrightarrow>
     (\<exists>ob c. objects s (spec_ptr sp) = Some ob \<and> body ob = ClassBody c \<and> otype ob = spec_type sp \<and>
        c\<lparr>method_list_head := NULL\<rparr> = spec_body sp)"

definition shows_class :: "rt \<Rightarrow> string list \<Rightarrow> class_spec \<Rightarrow> bool" where
  "shows_class s ss sp \<longleftrightarrow>
     class_shown s sp \<and> mro s (spec_ptr sp) (spec_supers sp) \<and>
     fst ` set (spec_methods sp) \<subseteq> set ss \<and> fst ` set (spec_consts sp) \<subseteq> set ss \<and>
     own_method s (spec_ptr sp) = methods_of ss (spec_methods sp) \<and>
     attr_of s (spec_ptr sp) = consts_of ss (spec_consts sp)"

text \<open>What a step keeps of a class, and of the classes of objects.\<close>

definition same_class :: "rt \<Rightarrow> rt \<Rightarrow> ptr \<Rightarrow> bool" where
  "same_class s s' p \<longleftrightarrow>
     (\<forall>sp. spec_ptr sp = p \<longrightarrow> class_shown s sp \<longrightarrow> class_shown s' sp) \<and>
     (\<forall>cs. mro s p cs \<longrightarrow> mro s' p cs) \<and> own_method s' p = own_method s p \<and> attr_of s' p = attr_of s p"

definition same_types :: "rt \<Rightarrow> rt \<Rightarrow> bool" where
  "same_types s s' \<longleftrightarrow>
     (\<forall>p t. map_option otype (objects s p) = Some t \<longrightarrow> map_option otype (objects s' p) = Some t)"

lemma shows_class_kept:
  assumes "same_class s s' (spec_ptr sp)" and "shows_class s ss sp"
  shows "shows_class s' (ss @ ts) sp"
  using assms unfolding shows_class_def same_class_def
  by (simp add: methods_of_append consts_of_append le_supI1)

text \<open>
  \<open>world n ss e W os s\<close>: the runtime is well formed and typed, the symbols are \<open>ss\<close>, malloc has \<open>n\<close> more
  answers, the environment is \<open>e\<close>; the classes \<open>W\<close> and the objects \<open>os\<close>, each with its class, are
  there.
\<close>

definition world ::
    "nat \<Rightarrow> string list \<Rightarrow> runtime_env \<Rightarrow> class_spec list \<Rightarrow> (ptr \<times> ptr) list \<Rightarrow> rt \<Rightarrow> bool" where
  "world n ss e W os s \<longleftrightarrow>
     rt_ok s \<and> heap_typed s \<and> interned s ss \<and> plenty n s \<and> length ss + n < 2 ^ 31 - 2 \<and> env s = e \<and>
     distinct (map spec_ptr W @ map fst os) \<and> list_all (shows_class s ss) W \<and>
     list_all (\<lambda>(p, t). map_option otype (objects s p) = Some t) os"

lemma world_step:
  assumes w: "world n ss e W os s" and s': "rt_ok s'" "heap_typed s'" "interned s' (ss @ ts)" "plenty m s'" "env s' = e"
    and len: "length ts + m \<le> n"
    and kept: "\<And>sp. sp \<in> set W \<Longrightarrow> same_class s s' (spec_ptr sp)" and types: "same_types s s'"
  shows "world m (ss @ ts) e W os s'"
proof -
  have "list_all (shows_class s' (ss @ ts)) W"
    using w kept shows_class_kept [of s s' _ ss ts] unfolding world_def list_all_iff by auto
  moreover have "list_all (\<lambda>(p, t). map_option otype (objects s' p) = Some t) os"
    using w types unfolding world_def list_all_iff same_types_def by auto
  ultimately show ?thesis
    using w s' len unfolding world_def by simp
qed

lemma world_changed:
  assumes w: "world n ss e (V @ sp # W) os s" and s': "rt_ok s'" "heap_typed s'" "interned s' (ss @ ts)" "plenty m s'" "env s' = e"
    and len: "length ts + m \<le> n"
    and kept: "\<And>sp. sp \<in> set V \<union> set W \<Longrightarrow> same_class s s' (spec_ptr sp)" and types: "same_types s s'"
    and new: "shows_class s' (ss @ ts) sp'" "spec_ptr sp' = spec_ptr sp"
  shows "world m (ss @ ts) e (V @ sp' # W) os s'"
proof -
  have "list_all (shows_class s' (ss @ ts)) (V @ sp' # W)"
    using w kept shows_class_kept [of s s' _ ss ts] new(1) unfolding world_def list_all_iff by auto
  moreover have "list_all (\<lambda>(p, t). map_option otype (objects s' p) = Some t) os"
    using w types unfolding world_def list_all_iff same_types_def by auto
  ultimately show ?thesis
    using w s' len new(2) unfolding world_def by simp
qed

lemma world_grown:
  assumes w: "world n ss e W os s" and s': "rt_ok s'" "heap_typed s'" "interned s' ss" "plenty m s'" "env s' = e"
    and len: "m \<le> n"
    and kept: "\<And>sp. sp \<in> set W \<Longrightarrow> same_class s s' (spec_ptr sp)" and types: "same_types s s'"
    and new: "list_all (shows_class s' ss) V"
      "list_all (\<lambda>(p, t). map_option otype (objects s' p) = Some t) us"
      "distinct (map spec_ptr V @ map fst us)"
      "(spec_ptr ` set V \<union> fst ` set us) \<inter> dom (objects s) = {}"
  shows "world m ss e (W @ V) (us @ os) s'"
proof -
  have classes: "list_all (shows_class s' ss) (W @ V)"
    using w kept shows_class_kept [of s s' _ ss "[]"] new(1) unfolding world_def list_all_iff by auto
  have objs: "list_all (\<lambda>(p, t). map_option otype (objects s' p) = Some t) (us @ os)"
    using w types new(2) unfolding world_def list_all_iff same_types_def by auto
  have "spec_ptr ` set W \<subseteq> dom (objects s)"
    using w by (auto simp: world_def list_all_iff shows_class_def class_shown_def)
  moreover have "fst ` set os \<subseteq> dom (objects s)"
    using w by (auto simp: world_def list_all_iff)
  ultimately have "(spec_ptr ` set V \<union> fst ` set us) \<inter> (spec_ptr ` set W \<union> fst ` set os) = {}"
    using new(4) by blast
  then have "distinct (map spec_ptr (W @ V) @ map fst (us @ os))"
    using w new(3) by (simp add: world_def Int_Un_distrib Int_Un_distrib2 Int_commute)
  with classes objs show ?thesis
    using w s' len unfolding world_def by simp
qed

section \<open>One step in the world\<close>

lemma world_parts:
  assumes "world n ss e W os s"
  shows "rt_ok s" "memory_ok s" "classes_wf s" "interned s ss" "plenty n s" "env s = e"
    "sp \<in> set W \<Longrightarrow> shows_class s ss sp" "heap_typed s"
  using assms by (auto simp: world_def rt_ok_def list_all_iff)

lemma world_value:
  assumes "world n ss e W os s" and "p \<in> spec_ptr ` set W \<union> fst ` set os"
  shows "value_ok s p"
  using assms by (auto simp: world_def value_ok_def list_all_iff shows_class_def class_shown_def)

lemma world_hook:
  assumes "world n ss e W os s" and "sp \<in> set W"
  shows "hook_of s (spec_ptr sp) = allocate_instance (spec_body sp)"
proof -
  obtain c where c: "class_at s (spec_ptr sp) = Some c" "c\<lparr>method_list_head := NULL\<rparr> = spec_body sp"
    using world_parts(7) [OF assms] by (auto simp: shows_class_def class_shown_def class_at_Some)
  have "allocate_instance c = allocate_instance (spec_body sp)"
    unfolding c(2) [symmetric] by simp
  with c(1) show ?thesis
    by (simp add: hook_of_def)
qed

lemma world_apart:
  assumes w: "world n ss e (V @ sp # W) os s" and x: "x \<in> set V \<union> set W"
  shows "spec_ptr x \<noteq> spec_ptr sp"
proof -
  have "spec_ptr sp \<notin> spec_ptr ` set V \<union> spec_ptr ` set W"
    using w by (simp add: world_def)
  with x show ?thesis
    by (metis UnE UnI1 UnI2 imageI)
qed

lemma world_symbol:
  assumes w: "world (Suc n) ss e W os s"
  shows "\<exists>s' ts. pup_env_str_to_sym x s = Ret (symbol_in ss x) s' \<and> world n (ss @ ts) e W os s' \<and>
    x \<in> set (ss @ ts) \<and> symbol_in (ss @ ts) x = symbol_in ss x"
proof -
  have "fst (malloc (mallocs s)) \<noteq> NULL \<and> length ss < 2 ^ 31 - 2"
    using world_parts(5) [OF w] plenty_malloc [of n s] w
    by (cases "malloc (mallocs s)") (auto simp: world_def)
  from str_to_sym_step [OF world_parts(2,4) [OF w]] this obtain s'
    where s': "pup_env_str_to_sym x s = Ret (symbol_in ss x) s'" "sym_step s ss x s'"
    by blast
  have "\<exists>ts. snd (intern x ss) = ss @ ts \<and> length ts \<le> 1"
    by (cases "index_of x ss") (simp_all add: intern_def)
  then obtain ts where ts: "snd (intern x ss) = ss @ ts" "length ts \<le> 1"
    by blast
  note fr = sym_step_frame [OF s'(2)]
  have st: "interned s' (ss @ ts)" "uses_at_most 1 s s'"
    using s'(2) ts(1) by (simp_all add: sym_step_def)
  have same: "same_class s s' p" for p
  proof -
    have "own_method s' = own_method s"
      by (rule classes_wf_cong(3)) (use fr in simp_all)
    moreover have "mro s' = mro s"
      by (rule classes_wf_cong(2)) (use fr in simp_all)
    ultimately show ?thesis
      using fr by (simp add: same_class_def class_shown_def)
  qed
  have "world n (ss @ ts) e W os s'"
  proof (rule world_step [OF w _ _ st(1) _ _ _ same])
    show "rt_ok s'" "heap_typed s'"
      by (rule sym_step_rt_ok [OF s'(2) world_parts(1) [OF w]],
          rule sym_step_typed(1) [OF s'(2) world_parts(4,8) [OF w]])
    show "plenty n s'"
      using plenty_uses [of 1 n s s'] world_parts(5) [OF w] st(2) by simp
  qed (use fr world_parts(6) [OF w] ts(2) in \<open>simp_all add: same_types_def\<close>)
  moreover have "x \<in> set (ss @ ts)" "symbol_in (ss @ ts) x = symbol_in ss x"
    using intern_contains [of x ss] symbol_in_intern [of x ss] ts(1) by simp_all
  ultimately show ?thesis
    using s'(1) by auto
qed

lemma same_but_tables_shown:
  assumes st: "same_but_tables s s'" and sh: "class_shown s sp"
  shows "class_shown s' sp"
proof -
  obtain ob c where ob: "objects s (spec_ptr sp) = Some ob" "body ob = ClassBody c" "otype ob = spec_type sp"
      "c\<lparr>method_list_head := NULL\<rparr> = spec_body sp"
    using sh by (auto simp: class_shown_def)
  have "map_option tableless (objects s' (spec_ptr sp)) = Some (tableless ob)"
    using st ob(1) by (simp add: same_but_tables_def)
  then obtain ob' :: object where ob': "objects s' (spec_ptr sp) = Some ob'" "tableless ob' = tableless ob"
    by auto
  have "body (tableless ob') = ClassBody (c\<lparr>method_list_head := NULL\<rparr>)"
    using ob(2) unfolding ob'(2) by (simp add: tableless_def)
  then obtain c' where "body ob' = ClassBody c'" "c'\<lparr>method_list_head := NULL\<rparr> = c\<lparr>method_list_head := NULL\<rparr>"
    by (cases "body ob'") (auto simp: tableless_def)
  with ob ob' tableless_eq [OF ob'(2)] show ?thesis
    by (auto simp: class_shown_def)
qed

text \<open>A method: the first definition of its name counts.\<close>

lemma world_method:
  assumes w: "world (Suc n) ss e (V @ sp # W) os s" and nm: "nm \<in> set ss"
  shows "\<exists>s'. pup_define_method (spec_ptr sp) (scast (symbol_in ss nm)) f s = Ret () s' \<and>
    world n ss e (V @ sp\<lparr>spec_methods := spec_methods sp @ [(nm, f)]\<rparr> # W) os s'"
proof -
  let ?q = "spec_ptr sp" and ?k = "scast (symbol_in ss nm) :: i64"
  let ?sp' = "sp\<lparr>spec_methods := spec_methods sp @ [(nm, f)]\<rparr>"
  note ok = world_parts [OF w]
  have sh: "shows_class s ss x" if "x \<in> set (V @ sp # W)" for x
    using ok(7) that by blast
  have cls: "spec_ptr x \<in> dom (class_at s)" if "x \<in> set (V @ sp # W)" for x
    using sh [OF that] by (auto simp: shows_class_def class_shown_def class_at_Some)
  have "fst (malloc (mallocs s)) \<noteq> NULL"
    using ok(5) plenty_malloc [of n s] by (cases "malloc (mallocs s)") auto
  with define_method_step [OF ok(2,3) cls [of sp], of ?k f] obtain s'
    where s': "pup_define_method ?q ?k f s = Ret () s'" "method_step s ?q ?k f s'"
    by auto
  have st: "memory_ok s'" "classes_wf s'" "same_but_tables s s'" "uses_at_most 1 s s'" "mro s' = mro s"
    and own: "\<And>q j. q \<in> dom (class_at s) \<Longrightarrow> own_method s' q j =
        (case own_method s q j of Some g \<Rightarrow> Some g | None \<Rightarrow> if q = ?q \<and> j = ?k then Some f else None)"
    using s'(2) by (auto simp: method_step_def fun_eq_iff)
  have wf: "attrs_wf s"
    using ok(2) by (simp add: memory_ok_def)
  have eq: "env s' = env s" "sym_tab s' = sym_tab s"
    using st(3) by (simp_all add: same_but_tables_def)
  have shown: "class_shown s' x" if "class_shown s x" for x
    by (rule same_but_tables_shown [OF st(3) that])
  have attr: "attr_of s' (spec_ptr x) = attr_of s (spec_ptr x)" if "x \<in> set (V @ sp # W)" for x
    using same_but_tables_attr_of [OF st(3) wf, of "spec_ptr x"] cls [OF that]
    by (intro ext) (auto simp: class_at_Some dom_def)
  have same: "same_class s s' (spec_ptr x)" if "x \<in> set V \<union> set W" for x
  proof -
    have x: "x \<in> set (V @ sp # W)" "spec_ptr x \<noteq> ?q"
      using that world_apart [OF w that] by auto
    then show ?thesis
      using shown attr [OF x(1)] own [OF cls [OF x(1)]] st(5)
      by (auto simp: same_class_def fun_eq_iff split: option.split)
  qed
  have new: "shows_class s' (ss @ []) ?sp'"
    using sh [of sp] shown [of sp] attr [of sp] own [OF cls [of sp]] st(5) nm
    by (auto simp: shows_class_def class_shown_def methods_of_snoc fun_eq_iff split: option.split)
  have "same_types s s'"
    using same_but_tables_object [OF st(3)] by (fastforce simp: same_types_def)
  then have "world n (ss @ []) e (V @ ?sp' # W) os s'"
    by (intro world_changed [OF w _ method_step_typed(1) [OF s'(2) ok(2,8)] _ _ _ _ same _ new])
      (use st eq ok plenty_uses [of 1 n s s'] in \<open>auto simp: rt_ok_def interned_def\<close>)
  with s'(1) show ?thesis by auto
qed

lemma world_define_named:
  assumes w: "world (Suc (Suc n)) ss e (V @ sp # W) os s"
  shows "\<exists>s' ts. define_named (spec_ptr sp) nm f s = Ret () s' \<and>
    world n (ss @ ts) e (V @ sp\<lparr>spec_methods := spec_methods sp @ [(nm, f)]\<rparr> # W) os s'"
proof -
  obtain s1 ts where s1: "pup_env_str_to_sym nm s = Ret (symbol_in ss nm) s1"
      "world (Suc n) (ss @ ts) e (V @ sp # W) os s1" "nm \<in> set (ss @ ts)"
      "symbol_in (ss @ ts) nm = symbol_in ss nm"
    using world_symbol [OF w, of nm] by blast
  with world_method [OF s1(2,3), of f] show ?thesis
    by (auto simp: define_named_def)
qed

text \<open>A constant: the last value set counts.\<close>

lemma same_but_attrs_shown:
  assumes sa: "same_but_attrs s s'" and sh: "class_shown s sp"
  shows "class_shown s' sp"
proof -
  obtain ob c where ob: "objects s (spec_ptr sp) = Some ob" "body ob = ClassBody c" "otype ob = spec_type sp"
      "c\<lparr>method_list_head := NULL\<rparr> = spec_body sp"
    using sh by (auto simp: class_shown_def)
  then show ?thesis
    using same_but_attrs_body [OF sa ob(1)] by (auto simp: class_shown_def)
qed

lemma world_const_set:
  assumes w: "world (Suc n) ss e (V @ sp # W) os s" and nm: "nm \<in> set ss" and v: "value_ok s v"
  shows "achieves (pup_const_set (spec_ptr sp) (symbol_in ss nm) v s)
    (\<lambda>_. world n ss e (V @ sp\<lparr>spec_consts := (nm, v) # spec_consts sp\<rparr> # W) os)"
proof -
  let ?q = "spec_ptr sp" and ?k = "symbol_in ss nm"
  let ?sp' = "sp\<lparr>spec_consts := (nm, v) # spec_consts sp\<rparr>"
  note ok = world_parts [OF w]
  have sh: "shows_class s ss x" if "x \<in> set (V @ sp # W)" for x
    using ok(7) that by blast
  have objs: "spec_ptr x \<in> dom (objects s)" if "x \<in> set (V @ sp # W)" for x
    using sh [OF that] by (auto simp: shows_class_def class_shown_def)
  have step: "world n ss e (V @ ?sp' # W) os s'" if "attr_step s ?q ?k v s'" for s'
  proof -
    have st: "memory_ok s'" "same_but_attrs s s'" "uses_at_most 1 s s'"
      and attr: "\<And>q k. q \<in> dom (objects s) \<Longrightarrow> attr_of s' q k = (if q = ?q \<and> k = ?k then v else attr_of s q k)"
      using that by (simp_all add: attr_step_def)
    have rest: "class_at s' = class_at s" "methods s' = methods s" "env s' = env s" "sym_tab s' = sym_tab s"
      using st(2) same_but_attrs_class [OF st(2)] by (simp_all add: same_but_attrs_def)
    note cong = classes_wf_cong [OF rest(1,2)]
    have shown: "class_shown s' x" if "class_shown s x" for x
      by (rule same_but_attrs_shown [OF st(2) that])
    have same: "same_class s s' (spec_ptr x)" if "x \<in> set V \<union> set W" for x
    proof -
      have x: "x \<in> set (V @ sp # W)" "spec_ptr x \<noteq> ?q"
        using that world_apart [OF w that] by auto
      then show ?thesis
        using shown attr [OF objs [OF x(1)]] cong by (auto simp: same_class_def fun_eq_iff)
    qed
    have new: "shows_class s' (ss @ []) ?sp'"
      using sh [of sp] shown [of sp] attr [OF objs [of sp]] cong nm
      by (auto simp: shows_class_def class_shown_def consts_of_Cons fun_eq_iff)
    have "same_types s s'"
      using same_but_attrs_body [OF st(2)] by (fastforce simp: same_types_def)
    then have "world n (ss @ []) e (V @ ?sp' # W) os s'"
      by (intro world_changed [OF w _ attr_step_typed(1) [OF that v ok(8)] _ _ _ _ same _ new])
        (use st rest ok plenty_uses [of 1 n s s'] attr_step_rt_ok [OF that] in \<open>auto simp: interned_def\<close>)
    then show ?thesis by simp
  qed
  have "plenty 1 s"
    by (rule plenty_less [OF ok(5)]) simp
  with iv_set_step [OF ok(2) objs [of sp], of ?k v] step show ?thesis
    by (auto simp: achieves_def pup_const_set_def)
qed

lemma world_set_constant:
  assumes w: "world (Suc (Suc n)) ss e (V @ sp # W) os s" and co: "class_object e = spec_ptr sp"
    and v: "v \<in> spec_ptr ` set (V @ sp # W)"
  shows "achieves (set_constant nm v s)
    (\<lambda>_ s'. \<exists>ts. world n (ss @ ts) e (V @ sp\<lparr>spec_consts := (nm, v) # spec_consts sp\<rparr> # W) os s')"
proof -
  obtain s1 ts where s1: "pup_env_str_to_sym nm s = Ret (symbol_in ss nm) s1"
      "world (Suc n) (ss @ ts) e (V @ sp # W) os s1" "nm \<in> set (ss @ ts)"
      "symbol_in (ss @ ts) nm = symbol_in ss nm"
    using world_symbol [OF w, of nm] by blast
  have "achieves (pup_const_set (class_object (env s1)) (symbol_in ss nm) v s1)
      (\<lambda>_ s'. \<exists>ts. world n (ss @ ts) e (V @ sp\<lparr>spec_consts := (nm, v) # spec_consts sp\<rparr> # W) os s')"
    using world_const_set [OF s1(2,3) world_value [OF s1(2) UnI1 [OF v]]] s1(4) co world_parts(6) [OF s1(2)]
    by (auto elim: achieves_weaken)
  with s1(1) show ?thesis
    by (simp add: set_constant_def)
qed

text \<open>The environment and the state of the collector are not looked at.\<close>

lemma memory_ok_cong:
  assumes ok: "memory_ok s"
    and same: "objects s' = objects s" "attrs s' = attrs s" "methods s' = methods s" "heap s' = heap s"
      "segments s' = segments s" "unwinds s' = unwinds s" "sym_tab s' = sym_tab s" "self s' = self s"
      "mallocs s' = mallocs s" "mmaps s' = mmaps s"
  shows "memory_ok s'" "class_at s' = class_at s" "attr_of s' = attr_of s"
proof -
  have "heap_wf s'"
    by (rule heap_wf_cong [of s]) (use ok same in \<open>simp_all add: memory_ok_def\<close>)
  moreover have "thread_ready s'"
    using ok same by (simp add: memory_ok_def thread_ready_def)
  moreover have "attr_chain s' p xs = attr_chain s p xs" for p xs
    using same by (simp add: attr_chain_def split: option.split)
  then have "attrs_wf s'"
    using ok same by (simp add: memory_ok_def attrs_wf_def)
  ultimately show "memory_ok s'"
    by (simp add: memory_ok_def)
  show "class_at s' = class_at s"
    using same by (simp add: class_at_def fun_eq_iff)
  show "attr_of s' = attr_of s"
    using same by (intro ext) (simp add: attr_of_def pup_iv_get_def find_attr_def searched_def deref_def
      split: option.splits found.splits)
qed

lemma world_cong:
  assumes w: "world n ss e W os s"
    and same: "objects s' = objects s" "attrs s' = attrs s" "methods s' = methods s" "heap s' = heap s"
      "segments s' = segments s" "unwinds s' = unwinds s" "sym_tab s' = sym_tab s" "self s' = self s"
      "mallocs s' = mallocs s" "mmaps s' = mmaps s" and e: "env s' = e'"
  shows "world n ss e' W os s'"
proof -
  note ok = world_parts [OF w]
  note mem = memory_ok_cong [OF ok(2) same]
  note cong = classes_wf_cong [OF mem(2) same(3)]
  have "rt_ok s'" "interned s' ss" "heap_typed s'"
    using ok(1,4) mem(1) cong(1) same(7) heap_typed_cong [OF ok(8) same(1,2,6)]
    by (simp_all add: rt_ok_def interned_def)
  moreover have "shows_class s' ss sp" if "shows_class s ss sp" for sp
    using that mem(3) cong(2,3) same(1) by (simp add: shows_class_def class_shown_def)
  then have "list_all (shows_class s' ss) W"
    using w by (auto simp: world_def list_all_iff)
  moreover have "spare s' = spare s"
    by (rule spare_heap [OF same(4,8,10)])
  then have "plenty n s'"
    using ok(5) same(9) by (simp add: plenty_def answers_def)
  ultimately show ?thesis
    using w same(1) e by (simp add: world_def)
qed

lemma world_set_env:
  assumes w: "world n ss e W os s"
  shows "world n ss (f e) W os (set_env f s)"
  by (rule world_cong [OF w]) (use world_parts(6) [OF w] in \<open>simp_all add: set_env_def\<close>)

text \<open>A new object of a class with the default hook.\<close>

lemma world_create_object:
  assumes w: "world (Suc n) ss e W os s" and sp: "sp \<in> set W"
    and hook: "allocate_instance (spec_body sp) = Some Alloc_object"
  shows "achieves (pup_create_object (spec_ptr sp) s) (\<lambda>p. world n ss e W ((p, spec_ptr sp) # os))"
proof -
  note ok = world_parts [OF w]
  obtain c where c: "class_at s (spec_ptr sp) = Some c" "c\<lparr>method_list_head := NULL\<rparr> = spec_body sp"
    using ok(7) [OF sp] by (auto simp: shows_class_def class_shown_def class_at_Some)
  have "allocate_instance c = allocate_instance (spec_body sp)"
    unfolding c(2) [symmetric] by simp
  then have alloc: "allocate_instance c = Some Alloc_object"
    using hook by simp
  have step: "world n ss e (W @ []) ([(p, spec_ptr sp)] @ os) s'"
    if st: "obj_step s p (spec_ptr sp) PlainBody s'" for p s'
  proof -
    have new: "objects s' = (objects s)(p \<mapsto> new_object (spec_ptr sp) (my_mark s) PlainBody)" "attrs s' = attrs s"
        "methods s' = methods s" "p \<notin> dom (objects s)" "env s' = env s" "sym_tab s' = sym_tab s"
        "uses_at_most 1 s s'"
      using st by (simp_all add: obj_step_def)
    note rt = obj_step_rt_ok [OF st ok(1)]
    note cong = classes_wf_cong [OF rt(2) new(3)]
    have same: "same_class s s' q" if "q \<noteq> p" for q
      using that new(1) cong obj_step_attr_of [OF st ok(2)]
      by (simp add: same_class_def class_shown_def fun_eq_iff)
    have "spec_ptr x \<noteq> p" if "x \<in> set W" for x
      using ok(7) [OF that] new(4) by (auto simp: shows_class_def class_shown_def)
    moreover have "same_types s s'"
      using new(1,4) by (auto simp: same_types_def)
    moreover have "fits (hook_of s (spec_ptr sp)) PlainBody"
      using world_hook [OF w sp] hook by (simp add: fits_def)
    then have "heap_typed s'"
      using obj_step_typed(2) [OF ok(1,8) st] by simp
    ultimately show ?thesis
      by (intro world_grown [OF w])
        (use rt(1) new same ok plenty_uses [of 1 n s s'] in \<open>simp_all add: interned_def new_object_def\<close>)
  qed
  have "plenty 1 s"
    by (rule plenty_less [OF ok(5)]) simp
  with create_object_step [OF ok(2) c(1) alloc] step show ?thesis
    by (auto simp: achieves_def)
qed

text \<open>A new class.\<close>

lemma first_in_named:
  assumes w: "world n ss e W os s" and set: "set xs \<subseteq> set W" and nm: "nm \<in> set ss"
  shows "first_in (\<lambda>c. own_method s c (scast (symbol_in ss nm))) (map spec_ptr xs) =
    first_in (\<lambda>sp. map_of (spec_methods sp) nm) xs"
  using set
proof (induction xs)
  case (Cons sp xs)
  then have "shows_class s ss sp"
    using world_parts(7) [OF w] by simp
  then have "own_method s (spec_ptr sp) (scast (symbol_in ss nm)) = map_of (spec_methods sp) nm"
    using methods_of_named [OF world_parts(4) [OF w], of nm "spec_methods sp"] nm
    by (simp add: shows_class_def)
  with Cons show ?case by (simp split: option.split)
qed simp

lemma first_in_Some: "first_in f xs = Some y \<Longrightarrow> \<exists>x \<in> set xs. f x = Some y"
  by (induction xs) (auto split: option.splits)

lemma world_finds:
  assumes w: "world n ss e W os s" and sp: "sp \<in> set W" and xs: "spec_supers sp = map spec_ptr xs" "xs \<noteq> []"
    and set: "set xs \<subseteq> set W" and f: "first_in (\<lambda>sp. map_of (spec_methods sp) nm) xs = Some f"
  shows "finds s ss (spec_ptr sp) nm f"
proof -
  have mro: "mro s (spec_ptr sp) (map spec_ptr xs)"
    using world_parts(7) [OF w sp] xs(1) by (simp add: shows_class_def)
  obtain x where x: "x \<in> set W" "map_of (spec_methods x) nm = Some f"
    using first_in_Some [OF f] set by blast
  then have "nm \<in> fst ` set (spec_methods x)"
    by (force dest: map_of_SomeD)
  then have nm: "nm \<in> set ss"
    using world_parts(7) [OF w x(1)] by (auto simp: shows_class_def)
  with first_in_named [OF w set nm] f xs(2) mro show ?thesis
    unfolding finds_def by (intro conjI exI [of _ "map spec_ptr xs"]) simp_all
qed

text \<open>The class \<open>Class\<close> is its own class, and finds the methods that make a class.\<close>

definition creator :: "class_spec list \<Rightarrow> runtime_env \<Rightarrow> bool" where
  "creator W e \<longleftrightarrow>
     (\<exists>cc \<in> set W. \<exists>xs. class_class e = spec_ptr cc \<and> spec_type cc = spec_ptr cc \<and>
        allocate_instance (spec_body cc) = Some Alloc_class \<and>
        xs \<noteq> [] \<and> set xs \<subseteq> set W \<and> spec_supers cc = map spec_ptr xs \<and>
        first_in (\<lambda>sp. map_of (spec_methods sp) ''new'') xs = Some Class_new \<and>
        first_in (\<lambda>sp. map_of (spec_methods sp) ''allocate'') xs = Some Object_allocate \<and>
        first_in (\<lambda>sp. map_of (spec_methods sp) ''initialize'') xs = Some Object_initialize)"

lemma world_ready:
  assumes w: "world n ss e W os s" and cr: "creator W e"
  shows "creation_ready s ss"
proof -
  obtain cc xs where cc: "cc \<in> set W" "class_class e = spec_ptr cc" "spec_type cc = spec_ptr cc"
      "allocate_instance (spec_body cc) = Some Alloc_class" "xs \<noteq> []" "set xs \<subseteq> set W"
      "spec_supers cc = map spec_ptr xs"
    and f: "first_in (\<lambda>sp. map_of (spec_methods sp) ''new'') xs = Some Class_new"
      "first_in (\<lambda>sp. map_of (spec_methods sp) ''allocate'') xs = Some Object_allocate"
      "first_in (\<lambda>sp. map_of (spec_methods sp) ''initialize'') xs = Some Object_initialize"
    using cr unfolding creator_def by blast
  note ok = world_parts [OF w]
  obtain ob c where ob: "objects s (spec_ptr cc) = Some ob" "body ob = ClassBody c" "otype ob = spec_ptr cc"
      "c\<lparr>method_list_head := NULL\<rparr> = spec_body cc"
    using ok(7) [OF cc(1)] cc(3) by (auto simp: shows_class_def class_shown_def)
  have "allocate_instance c = Some Alloc_class"
    using cc(4) unfolding ob(4) [symmetric] by simp
  moreover note world_finds [OF w cc(1,7,5,6) f(1)] world_finds [OF w cc(1,7,5,6) f(2)]
    world_finds [OF w cc(1,7,5,6) f(3)]
  ultimately show ?thesis
    unfolding creation_ready_def using ok(1,4,6) cc(2) ob by auto
qed

definition new_class ::
    "runtime_env \<Rightarrow> class_spec \<Rightarrow> ptr \<Rightarrow> string \<Rightarrow> alloc_fn \<Rightarrow> destroy_fn option \<Rightarrow> copy_fn option \<Rightarrow> ptr \<Rightarrow> class_spec" where
  "new_class e par scp nm a df g p =
     \<lparr>spec_ptr = p, spec_type = class_class e,
      spec_body = \<lparr>superclass = spec_ptr par, name = Some nm, method_list_head = NULL, scope = scp,
        allocate_instance = Some a, destroy_instance = df, gc_copy_instance = g\<rparr>,
      spec_supers = p # spec_supers par, spec_methods = [], spec_consts = []\<rparr>"

lemma world_create_class:
  assumes w: "world (Suc (Suc n)) ss e W os s" and cr: "creator W e" and par: "par \<in> set W"
  shows "achieves
    (pup_internal_create_class (pup_invoke code (Suc (Suc d))) (spec_ptr par) scp (Some nm) (Some a) df g s)
    (\<lambda>p. world n ss e (W @ [new_class e par scp nm a df g p]) os)"
proof -
  note ok = world_parts [OF w]
  have super: "mro s (spec_ptr par) (spec_supers par)"
    using ok(7) [OF par] by (simp add: shows_class_def)
  have nz: "spec_ptr par \<noteq> NULL"
    using ok(2) ok(7) [OF par] heap_wf_tapes(4) [of s]
    by (auto simp: memory_ok_def shows_class_def class_shown_def)
  have room: "plenty 2 s"
    by (rule plenty_less [OF ok(5)]) simp
  have hook: "hook_of s (class_class e) = Some Alloc_class"
    using cr world_hook [OF w] by (auto simp: creator_def)
  have step: "world n ss e (W @ [new_class e par scp nm a df g p]) ([] @ os) s'"
    if add: "class_added s p \<lparr>superclass = spec_ptr par, name = Some nm, method_list_head = NULL, scope = scp,
         allocate_instance = Some a, destroy_instance = df, gc_copy_instance = g\<rparr> (spec_supers par) s'"
      and uses: "uses_at_most 2 s s'" for p s'
  proof -
    obtain ob where ob: "objects s' = (objects s)(p \<mapsto> ob)" "otype ob = class_class e"
      using add ok(6) by (auto simp: class_added_def)
    have new: "rt_ok s'" "p \<notin> dom (objects s)" "env s' = env s" "sym_tab s' = sym_tab s"
      and mro: "\<And>q ds. p \<notin> set ds \<Longrightarrow> mro s q ds \<Longrightarrow> mro s' q ds"
      and own: "\<And>q. q \<noteq> p \<Longrightarrow> own_method s' q = own_method s q" "\<And>k. own_method s' p k = None"
      and attr: "\<And>q k. attr_of s' q k = (if q = p then NULL else attr_of s q k)"
      and cl: "class_at s' p = Some \<lparr>superclass = spec_ptr par, name = Some nm, method_list_head = NULL,
         scope = scp, allocate_instance = Some a, destroy_instance = df, gc_copy_instance = g\<rparr>"
      using add by (simp_all add: class_added_def)
    have up: "mro s' p (p # spec_supers par)"
      using add unfolding class_added_def by blast
    have "p \<notin> dom (class_at s)"
      using new(2) by (auto simp: class_at_Some)
    then have keep: "mro s' q ds" if "mro s q ds" for q ds
      using mro [OF _ that] mro_in [OF that] by blast
    have same: "same_class s s' q" if "q \<noteq> p" for q
      using that ob(1) keep own(1) [OF that] attr
      by (simp add: same_class_def class_shown_def fun_eq_iff)
    have old: "spec_ptr x \<noteq> p" if "x \<in> set W" for x
      using ok(7) [OF that] new(2) by (auto simp: shows_class_def class_shown_def)
    have shown: "class_shown s' (new_class e par scp nm a df g p)"
      using ob cl by (auto simp: class_shown_def new_class_def class_at_Some)
    have spec: "shows_class s' ss (new_class e par scp nm a df g p)"
      using shown up own(2) attr
      by (simp add: shows_class_def new_class_def methods_of_def consts_of_def fun_eq_iff)
    have types: "same_types s s'"
      using ob(1) new(2) by (auto simp: same_types_def)
    have left: "plenty n s'"
      using plenty_uses [of 2 n s s'] ok(5) uses by simp
    have typed: "heap_typed s'"
      by (rule class_added_typed(1) [OF ok(1,8) add]) (use hook ok(6) in simp)
    have ptr: "spec_ptr (new_class e par scp nm a df g p) = p"
      by (simp add: new_class_def)
    show ?thesis
      by (rule world_grown [OF w new(1) typed _ left])
        (use new ok old same types spec ptr in \<open>simp_all add: interned_def\<close>)
  qed
  from create_class_step [OF world_ready [OF w cr] room super nz, of code d scp nm a df g] step
  show ?thesis
    by (auto simp: achieves_def)
qed

section \<open>The first two classes\<close>

text \<open>A fresh process: an empty heap and an empty symbol table.\<close>

definition fresh_process :: "rt \<Rightarrow> bool" where
  "fresh_process s \<longleftrightarrow>
     heap_wf s \<and> objects s = Map.empty \<and> attrs s = Map.empty \<and> methods s = Map.empty \<and>
     unwinds s = Map.empty \<and> interned s []"

text \<open>Setting up the heap leaves a thread with a region, and still no object.\<close>

lemma thread_init_frame:
  assumes "pup_heap_thread_init s = Ret ok s'"
  shows "objects s' = objects s" "attrs s' = attrs s" "methods s' = methods s" "sym_tab s' = sym_tab s"
    "env s' = env s" "segments s' = segments s" "unwinds s' = unwinds s"
  using assms
  by (auto simp: pup_heap_thread_init_def pup_heap_region_allocate_def attach_thread_def set_thread_info_def
      attach_thread_to_heap_once set_local_region_def get_thread_info_def with_thread_def deref_def
      Let_def outcome_simps split: prod.splits if_splits option.splits)

lemma thread_init_undone:
  assumes "pup_heap_thread_init s = Ret True s'"
  shows "\<exists>s''. pup_heap_thread_destroy f s' = Ret () s''"
proof -
  have "\<exists>ti T R. this_thread_info (heap s') (self s') = ti \<and> ti \<noteq> NULL \<and> threads (heap s') ti = Some T \<and>
      regions (heap s') (local_region T) = Some R \<and> allocated R = region R"
    using assms
    by (auto simp: pup_heap_thread_init_def pup_heap_region_allocate_def attach_thread_def set_thread_info_def
        attach_thread_to_heap_once set_local_region_def get_thread_info_def with_thread_def deref_def
        Let_def outcome_simps split: prod.splits if_splits option.splits)
  then show ?thesis
    by (auto simp: pup_heap_thread_destroy_def get_thread_info_def free_region_def destroy_region_objects_def
        walk_blocks.simps Let_def)
qed

text \<open>The heap of a process that has no object yet.\<close>

definition empty_heap :: "nat \<Rightarrow> runtime_env \<Rightarrow> rt \<Rightarrow> bool" where
  "empty_heap n e s \<longleftrightarrow>
     memory_ok s \<and> objects s = Map.empty \<and> methods s = Map.empty \<and> unwinds s = Map.empty \<and>
     interned s [] \<and> plenty n s \<and> env s = e"

lemma empty_heap_cong:
  assumes e: "empty_heap n e s"
    and same: "objects s' = objects s" "attrs s' = attrs s" "methods s' = methods s" "heap s' = heap s"
      "segments s' = segments s" "unwinds s' = unwinds s" "sym_tab s' = sym_tab s" "self s' = self s"
      "mallocs s' = mallocs s" "mmaps s' = mmaps s" "env s' = env s"
  shows "empty_heap n e s'"
  using e same memory_ok_cong(1) [OF _ same(1-10)] spare_heap [OF same(4,8,10)]
  by (simp add: empty_heap_def interned_def plenty_def answers_def)

text \<open>
  What the operating system must grant: the thread-specific key, the signal handler, the thread of
  the collector, the barrier, and the program itself as a library.
\<close>

definition os_grants :: "os_results \<Rightarrow> bool" where
  "os_grants os \<longleftrightarrow> key_create os = 0 \<and> sigaction_res os = 0 \<and> heap_thread_start os = 0 \<and>
     barrier_init os = 0 \<and> dlopen_ok os"

text \<open>Memory for the bootstrap: answers of malloc, none a failure, and a first region.\<close>

definition startup_memory :: "nat \<Rightarrow> rt \<Rightarrow> bool" where
  "startup_memory n s \<longleftrightarrow> answers n s \<and> fst (mmap (mmaps s)) \<noteq> MAP_FAILED"

lemma first_thread_step:
  assumes fresh: "fresh_process s" and room: "startup_memory (2 + n) s" "n \<le> 255"
  shows "\<exists>s1. pup_heap_thread_init (s\<lparr>heap := (heap s)\<lparr>region_list := NULL, thread_list := NULL\<rparr>\<rparr>) =
      Ret True s1 \<and> empty_heap n (env s) s1"
proof -
  let ?s0 = "s\<lparr>heap := (heap s)\<lparr>region_list := NULL, thread_list := NULL\<rparr>\<rparr>"
  have wf: "heap_wf ?s0"
    by (rule heap_wf_cong [of s]) (use fresh in \<open>simp_all add: fresh_process_def\<close>)
  obtain r j q j' t where m: "mallocs s = (r, j) # (q, j') # t" "r \<noteq> NULL" "q \<noteq> NULL"
      "n \<le> length t" "NULL \<notin> fst ` set t"
    using room(1) by (cases "mallocs s"; cases "tl (mallocs s)") (auto simp: startup_memory_def answers_def)
  from thread_init_step [OF wf, of r j "(q, j') # t"] m room(1) obtain s1
    where s1: "pup_heap_thread_init ?s0 = Ret True s1" "heap_wf s1" "thread_ready s1" "255 \<le> spare s1"
      "mallocs s1 = t"
    by (auto simp: startup_memory_def answers_def)
  note fr = thread_init_frame [OF s1(1)]
  have "attrs_wf s1"
    using fr(1) fresh by (auto simp: attrs_wf_def fresh_process_def attr_chain_def)
  then have "memory_ok s1"
    using s1 by (simp add: memory_ok_def)
  then have "empty_heap n (env s) s1"
    using fr fresh s1(4,5) m(4,5) room(2)
    by (simp add: empty_heap_def fresh_process_def interned_def plenty_def answers_def)
  with s1(1) show ?thesis by blast
qed

lemma heap_init_step:
  assumes fresh: "fresh_process s" and room: "startup_memory (3 + n) s" "Suc n \<le> 255"
  shows "if os_grants os then achieves (pup_heap_init os s) (\<lambda>res s'. res = 0 \<and> empty_heap n (env s) s')
    else pup_heap_init os s = Aborted \<or> (\<exists>res s'. pup_heap_init os s = Ret res s' \<and> res \<noteq> 0)"
proof (cases "key_create os = 0")
  case True
  have "startup_memory (2 + Suc n) s"
    using room(1) by (simp add: startup_memory_def answers_def)
  from first_thread_step [OF fresh this room(2)] obtain s1 where
    s1: "pup_heap_thread_init (s\<lparr>heap := (heap s)\<lparr>region_list := NULL, thread_list := NULL\<rparr>\<rparr>) = Ret True s1"
    and e1: "empty_heap (Suc n) (env s) s1"
    by blast
  have mem: "memory_ok s1" and left: "plenty (Suc n) s1"
    using e1 by (simp_all add: empty_heap_def)
  obtain q j t where m: "malloc (mallocs s1) = (q, j, t)"
    by (cases "malloc (mallocs s1)")
  have q: "q \<noteq> NULL"
    using plenty_malloc [OF left m] .
  have "plenty n (s1\<lparr>mallocs := t\<rparr>)"
    using plenty_uses [of 1 n s1 "s1\<lparr>mallocs := t\<rparr>"] left uses_malloc [OF m, of "s1\<lparr>mallocs := t\<rparr>" 0] by simp
  then have e2: "empty_heap n (env s) (s1\<lparr>mallocs := t\<rparr>)"
    using memory_ok_mallocs [OF mem m] e1 by (simp add: empty_heap_def interned_def)
  have set: "empty_heap n (env s) (s1\<lparr>mallocs := t, gc := g\<rparr>)" for g
    by (rule empty_heap_cong [OF e2]) simp_all
  obtain s2 where s2: "pup_heap_thread_destroy (munmap_ok os) s1 = Ret () s2"
    using thread_init_undone [OF s1] by blast
  show ?thesis
    using True s1 m q s2 set
    by (simp add: pup_heap_init_def setup_signal_handling_def pup_gc_state_create_def set_gc_state_def
        achieves_def abort_on_def os_grants_def)
qed (simp add: pup_heap_init_def os_grants_def)

text \<open>\<open>Object\<close> and \<open>Class\<close> themselves.\<close>

lemma root_class_step:
  assumes mem: "memory_ok s" and room: "plenty (Suc (Suc n)) s"
  shows "achieves
    (andthen (pup_internal_class_allocate_instance NULL s) (\<lambda>class s.
     andthen (pup_internal_class_init class super scp (Some nm) (Some a) df g s) (\<lambda>_ s. Ret class s)))
    (\<lambda>p s'. memory_ok s' \<and> p \<noteq> NULL \<and> p \<notin> dom (objects s) \<and>
       objects s' = (objects s)(p \<mapsto> new_object NULL (my_mark s) (ClassBody \<lparr>superclass = super, name = Some nm,
         method_list_head = NULL, scope = scp, allocate_instance = Some a, destroy_instance = df,
         gc_copy_instance = g\<rparr>)) \<and>
       methods s' = methods s \<and> unwinds s' = unwinds s \<and> sym_tab s' = sym_tab s \<and> env s' = env s \<and> plenty n s')"
proof -
  have "plenty 1 s"
    by (rule plenty_less [OF room]) simp
  with class_allocate_step [OF mem, of NULL] obtain p s1 where
    s1: "pup_internal_class_allocate_instance NULL s = Ret p s1" and st: "obj_step s p NULL (ClassBody zero_class) s1"
    by blast
  have o: "objects s1 p = Some (new_object NULL (my_mark s) (ClassBody zero_class))" "memory_ok s1"
    using st by (simp_all add: obj_step_def)
  have "plenty (1 + n) s1"
    using obj_step_plenty [OF st room] by simp
  moreover from this have "plenty 1 s1"
    by (rule plenty_less) simp
  moreover note class_init_named [OF o(2,1) _ this, of zero_class super scp nm a df g]
  ultimately show ?thesis
    using s1 st plenty_uses [of 1 n s1] by (auto simp: achieves_def obj_step_def new_object_def)
qed

definition root_object :: "runtime_env \<Rightarrow> class_spec" where
  "root_object e = \<lparr>spec_ptr = class_object e, spec_type = class_class e,
     spec_body = \<lparr>superclass = NULL, name = Some ''Object'', method_list_head = NULL, scope = NULL,
       allocate_instance = Some Alloc_object, destroy_instance = Some Destroy_object,
       gc_copy_instance = Some Copy_object\<rparr>,
     spec_supers = [class_object e], spec_methods = [], spec_consts = []\<rparr>"

definition root_class :: "runtime_env \<Rightarrow> class_spec" where
  "root_class e = \<lparr>spec_ptr = class_class e, spec_type = class_class e,
     spec_body = \<lparr>superclass = class_object e, name = Some ''Class'', method_list_head = NULL,
       scope = class_object e, allocate_instance = Some Alloc_class, destroy_instance = Some Destroy_class,
       gc_copy_instance = Some Copy_class\<rparr>,
     spec_supers = [class_class e, class_object e], spec_methods = [], spec_consts = []\<rparr>"

lemma obj_init_step:
  assumes mem: "memory_ok s" and ob: "objects s p = Some ob" "attr_list_head ob = NULL"
  shows "obj_init p t s = Ret () (s\<lparr>objects := (objects s)(p \<mapsto> ob\<lparr>otype := t\<rparr>)\<rparr>)"
    and "memory_ok (s\<lparr>objects := (objects s)(p \<mapsto> ob\<lparr>otype := t\<rparr>)\<rparr>)"
proof -
  have "ob\<lparr>otype := t, attr_list_head := NULL\<rparr> = ob\<lparr>otype := t\<rparr>"
    using ob(2) by (cases ob) simp
  then show "obj_init p t s = Ret () (s\<lparr>objects := (objects s)(p \<mapsto> ob\<lparr>otype := t\<rparr>)\<rparr>)"
    using ob(1) by (simp add: obj_init_def with_object_def)
  show "memory_ok (s\<lparr>objects := (objects s)(p \<mapsto> ob\<lparr>otype := t\<rparr>)\<rparr>)"
    by (rule memory_ok_body(1) [OF mem ob(1)]) simp
qed

lemma root_world:
  assumes mem: "memory_ok s" and ss: "interned s []" and un: "unwinds s = Map.empty"
    and room: "plenty n s" "n < 2 ^ 31 - 2"
    and e: "env s = e" and ptrs: "class_object e \<noteq> class_class e" "class_object e \<noteq> NULL" "class_class e \<noteq> NULL"
    and objs: "objects s =
      [class_object e \<mapsto> (new_object (class_class e) m (ClassBody (spec_body (root_object e)))),
       class_class e \<mapsto> (new_object (class_class e) m' (ClassBody (spec_body (root_class e))))]"
  shows "world n [] e [root_object e, root_class e] [] s"
proof -
  have at: "class_at s = [class_object e \<mapsto> spec_body (root_object e), class_class e \<mapsto> spec_body (root_class e)]"
    by (rule ext) (simp add: class_at_def the_class_def objs new_object_def)
  note wf = two_classes_wf [OF at ptrs]
  have attr: "attr_of s p k = NULL" if "p \<in> {class_object e, class_class e}" for p k
    using that objs by (auto simp: attr_of_def pup_iv_get_def find_attr_def new_object_def search.simps)
  have "shows_class s [] (root_object e)" "shows_class s [] (root_class e)"
    using wf attr objs ptrs
    by (simp_all add: shows_class_def class_shown_def root_object_def root_class_def new_object_def
        methods_of_def consts_of_def fun_eq_iff)
  moreover have "rt_ok s"
    using mem ss wf(1) by (auto simp: rt_ok_def root_object_def root_class_def)
  moreover have "heap_typed s"
  proof -
    have "hook_of s (class_class e) = Some Alloc_class"
      using at ptrs by (simp add: hook_of_def root_class_def)
    then have "fits (hook_of s (otype ob)) (body ob)" if "objects s p = Some ob" for p ob
      using that objs by (auto simp: new_object_def fits_def split: if_splits)
    moreover have "value_ok s (attr_of s p k)" if "p \<in> dom (objects s)" for p k
      using that attr objs by (auto split: if_splits)
    ultimately show ?thesis
      using un by (auto simp: heap_typed_def)
  qed
  ultimately show ?thesis
    using ss room e ptrs by (simp add: world_def) (simp add: root_object_def root_class_def)
qed

section \<open>The whole bootstrap\<close>

text \<open>The rules above with the symbols left out, for the turns of \<open>runtime_init\<close>.\<close>

definition a_world ::
    "nat \<Rightarrow> runtime_env \<Rightarrow> class_spec list \<Rightarrow> (ptr \<times> ptr) list \<Rightarrow> rt \<Rightarrow> bool" where
  "a_world n e W os s \<longleftrightarrow> (\<exists>ss. world n ss e W os s)"

definition with_methods :: "(string \<times> pup_method) list \<Rightarrow> class_spec \<Rightarrow> class_spec" where
  "with_methods L sp = sp\<lparr>spec_methods := spec_methods sp @ L\<rparr>"

definition with_const :: "string \<Rightarrow> ptr \<Rightarrow> class_spec \<Rightarrow> class_spec" where
  "with_const nm v sp = sp\<lparr>spec_consts := (nm, v) # spec_consts sp\<rparr>"

lemma with_simps [simp]:
  "spec_ptr (with_methods L sp) = spec_ptr sp" "spec_type (with_methods L sp) = spec_type sp"
  "spec_body (with_methods L sp) = spec_body sp" "spec_supers (with_methods L sp) = spec_supers sp"
  "spec_methods (with_methods L sp) = spec_methods sp @ L" "spec_consts (with_methods L sp) = spec_consts sp"
  "spec_ptr (with_const nm v sp) = spec_ptr sp" "spec_type (with_const nm v sp) = spec_type sp"
  "spec_body (with_const nm v sp) = spec_body sp" "spec_supers (with_const nm v sp) = spec_supers sp"
  "spec_methods (with_const nm v sp) = spec_methods sp" "spec_consts (with_const nm v sp) = (nm, v) # spec_consts sp"
  by (simp_all add: with_methods_def with_const_def)

lemma with_methods_append [simp]: "with_methods M (with_methods L sp) = with_methods (L @ M) sp"
  by (simp add: with_methods_def)

lemma a_world_env: "a_world n e W os s \<Longrightarrow> env s = e"
  by (auto simp: a_world_def world_def)

lemma a_world_define:
  assumes w: "a_world n e (V @ sp # W) os s" and n: "2 \<le> n" and q: "q = spec_ptr sp"
  shows "\<exists>s'. define_named q nm f s = Ret () s' \<and> a_world (n - 2) e (V @ with_methods [(nm, f)] sp # W) os s'"
proof -
  obtain m ss where m: "n = Suc (Suc m)" and w': "world n ss e (V @ sp # W) os s"
    using n w by (auto simp: a_world_def dest!: le_Suc_ex)
  from world_define_named [OF w' [unfolded m], of nm f] q m show ?thesis
    by (auto simp: a_world_def with_methods_def)
qed

fun define_list :: "ptr \<Rightarrow> (string \<times> pup_method) list \<Rightarrow> rt \<Rightarrow> (unit, rt) outcome" where
  "define_list q [] s = Ret () s"
| "define_list q ((nm, f) # L) s = andthen (define_named q nm f s) (\<lambda>_ s. define_list q L s)"

lemma define_list_eta:
  "define_list q [] = Ret ()"
  "define_list q ((nm, f) # L) = (\<lambda>s. andthen (define_named q nm f s) (\<lambda>_. define_list q L))"
  by (rule ext, simp)+

lemma andthen_return: "andthen m Ret = m"
  by (cases m) simp_all

lemma class_inits:
  "andthen (pup_class_class_init q s) (\<lambda>_ s. pup_object_class_init q s) =
     define_list q [(''new'', Class_new), (''allocate'', Object_allocate), (''to_s'', Class_to_s),
      (''initialize'', Object_initialize), (''raise'', Object_raise), (''puts'', Object_puts),
      (''=='', Object_op_equals)] s"
  "pup_exception_class_init q s =
     define_list q [(''initialize'', Exception_initialize), (''message'', Exception_message)] s"
  by (simp_all add: pup_class_class_init_def pup_object_class_init_def pup_exception_class_init_def
      andthen_assoc andthen_return define_list_eta del: define_list.simps)

lemma a_world_define_list:
  assumes "a_world n e (V @ sp # W) os s" and "2 * length L \<le> n" and "q = spec_ptr sp"
  shows "\<exists>s'. define_list q L s = Ret () s' \<and> a_world (n - 2 * length L) e (V @ with_methods L sp # W) os s'"
  using assms
proof (induction L arbitrary: n sp s)
  case Nil
  then show ?case by (simp add: with_methods_def)
next
  case (Cons x L)
  obtain nm f where x: "x = (nm, f)"
    by (cases x)
  have n: "2 \<le> n" "2 * length L \<le> n - 2" "n - 2 - 2 * length L = n - 2 * length (x # L)"
    using Cons.prems(2) by simp_all
  obtain s1 where s1: "define_named q nm f s = Ret () s1" "a_world (n - 2) e (V @ with_methods [(nm, f)] sp # W) os s1"
    using a_world_define [OF Cons.prems(1) n(1) Cons.prems(3)] by blast
  from Cons.IH [OF s1(2) n(2)] Cons.prems(3) n(3) s1(1) show ?case
    by (simp add: x)
qed

corollary achieves_define_list:
  assumes "a_world n e (V @ sp # W) os s" and "2 * length L \<le> n" and "q = spec_ptr sp"
  shows "achieves (define_list q L s) (\<lambda>_. a_world (n - 2 * length L) e (V @ with_methods L sp # W) os)"
  using a_world_define_list [OF assms] by (auto simp: achieves_def)

lemma a_world_const:
  assumes w: "a_world n e (sp # W) os s" and n: "2 \<le> n" and co: "class_object e = spec_ptr sp"
    and v: "v \<in> spec_ptr ` set (sp # W)"
  shows "achieves (set_constant nm v s) (\<lambda>_. a_world (n - 2) e (with_const nm v sp # W) os)"
proof -
  obtain m ss where m: "n = Suc (Suc m)" and w': "world n ss e ([] @ sp # W) os s"
    using n w by (auto simp: a_world_def dest!: le_Suc_ex)
  have "v \<in> spec_ptr ` set ([] @ sp # W)"
    using v by simp
  from world_set_constant [OF w' [unfolded m] co this, of nm] m show ?thesis
    by (auto simp: a_world_def with_const_def elim!: achieves_weaken)
qed

lemma a_world_set_env: "a_world n e W os s \<Longrightarrow> a_world n (f e) W os (set_env f s)"
  unfolding a_world_def by (elim exE, rule exI, rule world_set_env)

lemma a_world_create_object:
  assumes w: "a_world n e W os s" and n: "1 \<le> n" and sp: "sp \<in> set W" and q: "q = spec_ptr sp"
    and hook: "allocate_instance (spec_body sp) = Some Alloc_object"
  shows "achieves (pup_create_object q s) (\<lambda>p. a_world (n - 1) e W ((p, spec_ptr sp) # os))"
proof -
  obtain m ss where m: "n = Suc m" and w': "world n ss e W os s"
    using n w by (auto simp: a_world_def dest!: le_Suc_ex)
  from world_create_object [OF w' [unfolded m] sp hook] m q show ?thesis
    by (auto simp: a_world_def elim!: achieves_weaken)
qed

lemma a_world_create_class:
  assumes w: "a_world n e W os s" and n: "2 \<le> n" and cr: "creator W e" and par: "par \<in> set W"
    and q: "q = spec_ptr par"
  shows "achieves
    (pup_internal_create_class (pup_invoke code (Suc (Suc d))) q scp (Some nm) (Some a) df g s)
    (\<lambda>p. a_world (n - 2) e (W @ [new_class e par scp nm a df g p]) os)"
proof -
  obtain m ss where m: "n = Suc (Suc m)" and w': "world n ss e W os s"
    using n w by (auto simp: a_world_def dest!: le_Suc_ex)
  show ?thesis
    unfolding q
    by (rule achieves_weaken [OF world_create_class [OF w' [unfolded m] cr par]]) (auto simp: a_world_def m)
qed

lemma a_world_add_class:
  assumes create: "achieves (create s) (\<lambda>p. a_world n e (ob # W @ [sp p]) os)" and n: "2 \<le> n"
    and co: "\<And>p. class_object (field p e) = spec_ptr ob" and ptr: "\<And>p. spec_ptr (sp p) = p"
  shows "achieves (add_class field nm create s)
    (\<lambda>_ s'. \<exists>p. a_world (n - 2) (field p e) (with_const nm p ob # W @ [sp p]) os s')"
  unfolding add_class_def
proof (rule achieves_andthen [OF create])
  fix p s1
  assume "a_world n e (ob # W @ [sp p]) os s1"
  have "p \<in> spec_ptr ` set (ob # W @ [sp p])"
    by (simp add: ptr)
  from a_world_const [OF a_world_set_env [OF \<open>a_world n e (ob # W @ [sp p]) os s1\<close>, of "field p"] n co this, of nm]
  show "achieves (set_constant nm p (set_env (field p) s1))
      (\<lambda>_ s'. \<exists>p. a_world (n - 2) (field p e) (with_const nm p ob # W @ [sp p]) os s')"
    by (rule achieves_weaken) blast
qed

text \<open>\<open>Object\<close> and \<open>Class\<close>, with the methods of all classes and the first two constants.\<close>

definition object_methods :: "(string \<times> pup_method) list" where
  "object_methods =
     [(''new'', Class_new), (''allocate'', Object_allocate), (''to_s'', Class_to_s),
      (''initialize'', Object_initialize), (''raise'', Object_raise), (''puts'', Object_puts),
      (''=='', Object_op_equals)]"

lemma root_classes_step:
  assumes e0: "empty_heap (4 + n) e0 s" and n: "n < 2 ^ 31 - 2"
  shows "achieves
     (andthen (pup_bootstrap_create_classobject s) (\<lambda>co s.
      andthen (pup_bootstrap_create_classclass co (set_env (class_object_update (\<lambda>_. co)) s)) (\<lambda>cc s.
      andthen (obj_init co cc (set_env (class_class_update (\<lambda>_. cc)) s)) (\<lambda>_ s.
      andthen (obj_init cc cc s) (\<lambda>_ s. Ret (co, cc) s)))))
     (\<lambda>(co, cc) s'. \<exists>e. class_object e = co \<and> class_class e = cc \<and>
        a_world n e [root_object e, root_class e] [] s')"
proof -
  have s: "memory_ok s" "objects s = Map.empty" "methods s = Map.empty" "interned s []" "plenty (4 + n) s"
      "unwinds s = Map.empty"
    using e0 by (simp_all add: empty_heap_def)
  show ?thesis
    unfolding pup_bootstrap_create_classobject_def
  proof (rule achieves_andthen [OF root_class_step [OF s(1), of "2 + n"]], goal_cases)
    case 1
    show "plenty (Suc (Suc (2 + n))) s"
      using s(5) by (simp add: plenty_def answers_def)
  next
    case (2 co s1)
    let ?s1 = "set_env (class_object_update (\<lambda>_. co)) s1"
    have s1: "memory_ok ?s1" "plenty (Suc (Suc n)) ?s1"
      using 2 memory_ok_cong(1) [of s1 ?s1] by (simp_all add: set_env_def plenty_def answers_def)
    show ?case
      unfolding pup_bootstrap_create_classclass_def
    proof (rule achieves_andthen [OF root_class_step [OF s1]], goal_cases)
      case (1 cc s2)
      let ?s2 = "set_env (class_class_update (\<lambda>_. cc)) s2" and ?e = "class_class_update (\<lambda>_. cc) (env s2)"
      have mem: "memory_ok ?s2"
        using 1 memory_ok_cong(1) [of s2 ?s2] by (simp add: set_env_def)
      have e: "class_object ?e = co" "class_class ?e = cc"
        using 1 by (simp_all add: set_env_def)
      have ne: "co \<noteq> cc" "co \<noteq> NULL" "cc \<noteq> NULL"
        using 1 2 s(2) by (auto simp: set_env_def)
      let ?oc = "new_object NULL (my_mark s) (ClassBody (spec_body (root_object ?e)))"
      let ?cc = "new_object NULL (my_mark ?s1) (ClassBody (spec_body (root_class ?e)))"
      have objs: "objects ?s2 = [co \<mapsto> ?oc, cc \<mapsto> ?cc]"
        using 1 2 s(2) e by (simp add: set_env_def root_object_def root_class_def)
      let ?s3 = "?s2\<lparr>objects := (objects ?s2)(co \<mapsto> ?oc\<lparr>otype := cc\<rparr>)\<rparr>"
      have o3: "objects ?s2 co = Some ?oc" "attr_list_head ?oc = NULL"
        using objs ne by (simp_all add: new_object_def)
      note i3 = obj_init_step [OF mem o3, of cc]
      let ?s4 = "?s3\<lparr>objects := (objects ?s3)(cc \<mapsto> ?cc\<lparr>otype := cc\<rparr>)\<rparr>"
      have o4: "objects ?s3 cc = Some ?cc" "attr_list_head ?cc = NULL"
        using objs ne by (simp_all add: new_object_def)
      note i4 = obj_init_step [OF i3(2) o4, of cc]
      have "world n [] ?e [root_object ?e, root_class ?e] [] ?s4"
      proof (rule root_world [OF i4(2)])
        show "objects ?s4 =
          [class_object ?e \<mapsto> new_object (class_class ?e) (my_mark s) (ClassBody (spec_body (root_object ?e))),
           class_class ?e \<mapsto> new_object (class_class ?e) (my_mark ?s1) (ClassBody (spec_body (root_class ?e)))]"
          using objs e ne by (simp add: new_object_def)
      qed (use 1 2 s e ne n in \<open>simp_all add: set_env_def interned_def plenty_def answers_def\<close>)
      then have "\<exists>e. class_object e = co \<and> class_class e = cc \<and>
          a_world n e [root_object e, root_class e] [] ?s4"
        using e by (intro exI [of _ ?e]) (auto simp: a_world_def)
      then show ?case
        by (simp only: i3(1) i4(1) andthen.simps achieves_Ret prod.case)
    qed
  qed
qed

lemma init_root_step:
  assumes e0: "empty_heap (22 + n) e0 s" and n: "n < 1000"
  shows "achieves (init_root s) (\<lambda>_ s'. \<exists>e. a_world n e
     [with_const ''Class'' (class_class e) (with_const ''Object'' (class_object e)
        (with_methods object_methods (root_object e))), root_class e] [] s')"
proof -
  have e0': "empty_heap (4 + (18 + n)) e0 s" "18 + n < 2 ^ 31 - 2"
    using e0 n by (simp_all add: add.assoc [symmetric])
  have init: "init_root s =
     andthen (andthen (pup_bootstrap_create_classobject s) (\<lambda>co s.
      andthen (pup_bootstrap_create_classclass co (set_env (class_object_update (\<lambda>_. co)) s)) (\<lambda>cc s.
      andthen (obj_init co cc (set_env (class_class_update (\<lambda>_. cc)) s)) (\<lambda>_ s.
      andthen (obj_init cc cc s) (\<lambda>_ s. Ret (co, cc) s)))))
     (\<lambda>(co, cc) s.
      andthen (andthen (pup_class_class_init co s) (\<lambda>_ s. pup_object_class_init co s)) (\<lambda>_ s.
      andthen (set_constant ''Object'' co s) (\<lambda>_ s. set_constant ''Class'' cc s)))"
    by (simp add: init_root_def andthen_assoc)
  show ?thesis
    unfolding init class_inits
  proof (rule achieves_andthen [OF root_classes_step [OF e0']], goal_cases)
    case (1 p s1)
    then obtain co cc e where p: "p = (co, cc)" "class_object e = co" "class_class e = cc"
      and w: "a_world (18 + n) e ([] @ root_object e # [root_class e]) [] s1"
      by auto
    have q: "co = spec_ptr (root_object e)"
      by (simp add: p(2) root_object_def)
    note meths = achieves_define_list [OF w _ q, of object_methods]
    show ?case
      unfolding p(1) prod.case
    proof (rule achieves_andthen [OF meths [unfolded object_methods_def]], goal_cases)
      case (2 u s2)
      then have w2: "a_world (4 + n) e (with_methods object_methods (root_object e) # [root_class e]) [] s2"
        by (simp add: object_methods_def)
      have co: "class_object e = spec_ptr (with_methods object_methods (root_object e))"
        by (simp add: root_object_def)
      show ?case
      proof (rule achieves_andthen [OF a_world_const [OF w2 _ co]], goal_cases)
        case 2
        show ?case
          by (simp add: p(2) root_object_def)
      next
        case (3 u s3)
        then have "achieves (set_constant ''Class'' cc s3)
            (\<lambda>_. a_world n e (with_const ''Class'' cc (with_const ''Object'' co
              (with_methods object_methods (root_object e))) # [root_class e]) [])"
          using a_world_const [of "2 + n" e
              "with_const ''Object'' co (with_methods object_methods (root_object e))" "[root_class e]" "[]"
              s3 cc "''Class''"] co p(3) by (simp add: root_class_def)
        then show ?case
          by (rule achieves_weaken) (rule exI [of _ e], simp add: p(2,3))
      qed simp
    qed simp
  qed
qed

text \<open>
  The classes of a new runtime, from its environment: the first \<open>k\<close> of the nine, with \<open>M\<close> the
  methods of \<open>Exception\<close>.
\<close>

definition class_constants :: "runtime_env \<Rightarrow> (string \<times> ptr) list" where
  "class_constants e =
     [(''Object'', class_object e), (''Class'', class_class e), (''String'', class_string e),
      (''Exception'', class_exception e), (''StandardError'', class_standarderror e),
      (''RuntimeError'', class_runtimeerror e), (''TrueClass'', class_true e),
      (''FalseClass'', class_false e), (''Fixnum'', class_fixnum e)]"

definition object_spec :: "nat \<Rightarrow> runtime_env \<Rightarrow> class_spec" where
  "object_spec k e =
     (root_object e)\<lparr>spec_methods := object_methods, spec_consts := rev (take k (class_constants e))\<rparr>"

definition plain_spec :: "runtime_env \<Rightarrow> class_spec \<Rightarrow> string \<Rightarrow> ptr \<Rightarrow> class_spec" where
  "plain_spec e par nm p =
     new_class e par NULL nm Alloc_object (Some Destroy_object) (Some Copy_object) p"

definition exception_spec :: "runtime_env \<Rightarrow> class_spec" where
  "exception_spec e = plain_spec e (root_object e) ''Exception'' (class_exception e)"

definition standarderror_spec :: "runtime_env \<Rightarrow> class_spec" where
  "standarderror_spec e = plain_spec e (exception_spec e) ''StandardError'' (class_standarderror e)"

definition fixnum_methods :: "(string \<times> pup_method) list" where
  "fixnum_methods = [(''+'', Fixnum_plus), (''=='', Fixnum_op_equals), (''<'', Fixnum_op_lessthan)]"

definition initial_classes :: "nat \<Rightarrow> (string \<times> pup_method) list \<Rightarrow> runtime_env \<Rightarrow> class_spec list" where
  "initial_classes k M e = take k
     [object_spec k e, root_class e,
      new_class e (root_object e) NULL ''String'' Alloc_string (Some Destroy_string) (Some Copy_indeterminate)
        (class_string e),
      with_methods M (exception_spec e), standarderror_spec e,
      plain_spec e (standarderror_spec e) ''RuntimeError'' (class_runtimeerror e),
      plain_spec e (root_object e) ''TrueClass'' (class_true e),
      plain_spec e (root_object e) ''FalseClass'' (class_false e),
      with_methods fixnum_methods (new_class e (root_object e) NULL ''Fixnum'' Alloc_fixnum
        (Some Destroy_fixnum) (Some Copy_indeterminate) (class_fixnum e))]"

lemmas spec_defs = object_spec_def class_constants_def plain_spec_def exception_spec_def standarderror_spec_def
  new_class_def root_object_def root_class_def with_const_def with_methods_def

lemma creator_root:
  assumes "W = ob # root_class e # V" and "spec_ptr ob = class_object e" and "spec_methods ob = object_methods"
  shows "creator W e"
proof -
  have "first_in (\<lambda>sp. map_of (spec_methods sp) nm) [root_class e, ob] = map_of object_methods nm" for nm
    using assms(3) by (simp add: root_class_def split: option.split)
  then show ?thesis
    unfolding creator_def using assms
    by (intro bexI [of _ "root_class e"] exI [of _ "[root_class e, ob]"])
      (simp_all add: root_class_def object_methods_def)
qed

lemma initial_creator: "2 \<le> k \<Longrightarrow> creator (initial_classes k M e) e"
  by (rule creator_root [of _ "object_spec k e" e "tl (tl (initial_classes k M e))"])
    (auto simp: initial_classes_def take_Cons' spec_defs)

lemma class_turn:
  assumes w: "a_world n e (initial_classes k M e) os s" and n: "4 \<le> n" and k: "2 \<le> k"
    and create: "create s = pup_internal_create_class (pup_invoke code (Suc (Suc d))) q NULL (Some nm')
      (Some a) df g s"
    and par: "par \<in> set (initial_classes k M e)" "q = spec_ptr par"
    and field: "\<And>p. class_object (field p e) = class_object e"
    and grown: "\<And>p. with_const nm p (object_spec k e) #
      tl (initial_classes k M e) @ [new_class e par NULL nm' a df g p] = initial_classes (Suc k) M (field p e)"
  shows "achieves (add_class field nm create s)
    (\<lambda>_ s'. \<exists>p. a_world (n - 4) (field p e) (initial_classes (Suc k) M (field p e)) os s')"
proof -
  have hd: "initial_classes k M e = object_spec k e # tl (initial_classes k M e)"
    using k by (auto simp: initial_classes_def take_Cons')
  have n2: "2 \<le> n" "2 \<le> n - 2" "n - 2 - 2 = n - 4"
    using n by simp_all
  have "achieves (create s) (\<lambda>p. a_world (n - 2) e
      (object_spec k e # tl (initial_classes k M e) @ [new_class e par NULL nm' a df g p]) os)"
    unfolding create using a_world_create_class [OF w n2(1) initial_creator [OF k] par, of code d NULL nm' a df g]
    by (subst (asm) hd) (simp only: append_Cons)
  then have "achieves (add_class field nm create s) (\<lambda>_ s'. \<exists>p. a_world (n - 2 - 2) (field p e)
      (with_const nm p (object_spec k e) # tl (initial_classes k M e) @ [new_class e par NULL nm' a df g p]) os s')"
    by (rule a_world_add_class) (use n2(2) field in \<open>simp_all add: object_spec_def root_object_def new_class_def\<close>)
  then show ?thesis
    by (simp only: grown n2(3))
qed

definition staged :: "nat \<Rightarrow> nat \<Rightarrow> (ptr \<times> ptr) list \<Rightarrow> rt \<Rightarrow> bool" where
  "staged n k os s \<longleftrightarrow> (\<exists>e. a_world n e (initial_classes k [] e) os s)"

lemma staged_turn:
  assumes st: "staged n k os s" and n: "4 \<le> n" and k: "2 \<le> k"
    and create: "create s = pup_internal_create_class (pup_invoke code (Suc (Suc d))) (q (env s)) NULL (Some nm')
      (Some a) df g s"
    and par: "\<And>e. par e \<in> set (initial_classes k [] e)" "\<And>e. q e = spec_ptr (par e)"
    and field: "\<And>p e. class_object (field p e) = class_object e"
    and grown: "\<And>p e. with_const nm p (object_spec k e) #
      tl (initial_classes k [] e) @ [new_class e (par e) NULL nm' a df g p] = initial_classes j [] (field p e)"
    and j: "j = Suc k"
  shows "achieves (add_class field nm create s) (\<lambda>_. staged (n - 4) j os)"
proof -
  obtain e where w: "a_world n e (initial_classes k [] e) os s"
    using st by (auto simp: staged_def)
  note turn = class_turn [where create = create and q = "q e" and par = "par e" and field = field and nm = nm,
      OF w n k create [unfolded a_world_env [OF w]] par(1) par(2) field grown [unfolded j]]
  show ?thesis
    by (rule achieves_weaken [OF turn]) (auto simp: staged_def j)
qed

lemmas creates = pup_create_class_def pup_bootstrap_create_classstring_def

lemma stage_string:
  assumes "staged n 2 os s" and "4 \<le> n"
  shows "achieves (add_class (\<lambda>c. class_string_update (\<lambda>_. c)) ''String''
    (pup_bootstrap_create_classstring (pup_invoke code (Suc (Suc d)))) s) (\<lambda>_. staged (n - 4) 3 os)"
  by (rule staged_turn [where par = "\<lambda>e. object_spec 2 e", OF assms])
    (simp_all add: creates initial_classes_def spec_defs)

lemma stage_exception:
  assumes "staged n 3 os s" and "4 \<le> n"
  shows "achieves (add_class (\<lambda>c. class_exception_update (\<lambda>_. c)) ''Exception''
    (\<lambda>s. pup_create_class (pup_invoke code (Suc (Suc d))) (class_object (env s)) NULL (Some ''Exception'') s) s) (\<lambda>_. staged (n - 4) 4 os)"
  by (rule staged_turn [where par = "\<lambda>e. object_spec 3 e", OF assms])
    (simp_all add: creates initial_classes_def spec_defs)

lemma stage_standarderror:
  assumes "staged n 4 os s" and "4 \<le> n"
  shows "achieves (add_class (\<lambda>c. class_standarderror_update (\<lambda>_. c)) ''StandardError''
    (\<lambda>s. pup_create_class (pup_invoke code (Suc (Suc d))) (class_exception (env s)) NULL (Some ''StandardError'') s) s) (\<lambda>_. staged (n - 4) 5 os)"
  by (rule staged_turn [where par = "\<lambda>e. exception_spec e", OF assms])
    (simp_all add: creates initial_classes_def spec_defs)

lemma stage_runtimeerror:
  assumes "staged n 5 os s" and "4 \<le> n"
  shows "achieves (add_class (\<lambda>c. class_runtimeerror_update (\<lambda>_. c)) ''RuntimeError''
    (\<lambda>s. pup_create_class (pup_invoke code (Suc (Suc d))) (class_standarderror (env s)) NULL (Some ''RuntimeError'') s) s) (\<lambda>_. staged (n - 4) 6 os)"
  by (rule staged_turn [where par = "\<lambda>e. standarderror_spec e", OF assms])
    (simp_all add: creates initial_classes_def spec_defs)

lemma stage_true:
  assumes "staged n 6 os s" and "4 \<le> n"
  shows "achieves (add_class (\<lambda>c. class_true_update (\<lambda>_. c)) ''TrueClass''
    (\<lambda>s. pup_create_class (pup_invoke code (Suc (Suc d))) (class_object (env s)) NULL (Some ''TrueClass'') s) s) (\<lambda>_. staged (n - 4) 7 os)"
  by (rule staged_turn [where par = "\<lambda>e. object_spec 6 e", OF assms])
    (simp_all add: creates initial_classes_def spec_defs)

lemma stage_false:
  assumes "staged n 7 os s" and "4 \<le> n"
  shows "achieves (add_class (\<lambda>c. class_false_update (\<lambda>_. c)) ''FalseClass''
    (\<lambda>s. pup_create_class (pup_invoke code (Suc (Suc d))) (class_object (env s)) NULL (Some ''FalseClass'') s) s) (\<lambda>_. staged (n - 4) 8 os)"
  by (rule staged_turn [where par = "\<lambda>e. object_spec 7 e", OF assms])
    (simp_all add: creates initial_classes_def spec_defs)


text \<open>The two objects, the methods of \<open>Exception\<close>, and \<open>Fixnum\<close>.\<close>

definition initial_objects :: "runtime_env \<Rightarrow> (ptr \<times> ptr) list" where
  "initial_objects e = [(object_false e, class_false e), (object_true e, class_true e)]"

definition exception_methods :: "(string \<times> pup_method) list" where
  "exception_methods = [(''initialize'', Exception_initialize), (''message'', Exception_message)]"

lemma stage_objects:
  assumes "staged n 8 [] s" and n: "2 \<le> n"
  shows "achieves
    (andthen (pup_create_object (class_true (env s)) s) (\<lambda>t s.
     andthen (pup_create_object (class_false (env s)) (set_env (object_true_update (\<lambda>_. t)) s)) (\<lambda>f s.
     Ret () (set_env (object_false_update (\<lambda>_. f)) s))))
    (\<lambda>_ s'. \<exists>e. a_world (n - 2) e (initial_classes 8 [] e) (initial_objects e) s')"
proof -
  obtain e where w: "a_world n e (initial_classes 8 [] e) [] s"
    using assms(1) by (auto simp: staged_def)
  let ?t = "plain_spec e (root_object e) ''TrueClass'' (class_true e)"
  let ?f = "plain_spec e (root_object e) ''FalseClass'' (class_false e)"
  have t: "?t \<in> set (initial_classes 8 [] e)" "?f \<in> set (initial_classes 8 [] e)"
    by (simp_all add: initial_classes_def)
  have p: "class_true (env s) = spec_ptr ?t" "allocate_instance (spec_body ?t) = Some Alloc_object"
    "class_false e = spec_ptr ?f" "allocate_instance (spec_body ?f) = Some Alloc_object"
    using a_world_env [OF w] by (simp_all add: spec_defs)
  have n': "1 \<le> n" "1 \<le> n - 1" "n - 1 - 1 = n - 2"
    using n by simp_all
  show ?thesis
  proof (rule achieves_andthen [OF a_world_create_object [OF w n'(1) t(1) p(1,2)]])
    fix q s1
    let ?e1 = "object_true_update (\<lambda>_. q) e"
    assume w1: "a_world (n - 1) e (initial_classes 8 [] e) [(q, spec_ptr ?t)] s1"
    have w1': "a_world (n - 1) ?e1 (initial_classes 8 [] e) [(q, spec_ptr ?t)] (set_env (object_true_update (\<lambda>_. q)) s1)"
      by (rule a_world_set_env [OF w1])
    have pf: "class_false (env s1) = spec_ptr ?f"
      using a_world_env [OF w1] p(3) by simp
    show "achieves
      (andthen (pup_create_object (class_false (env s1)) (set_env (object_true_update (\<lambda>_. q)) s1)) (\<lambda>f s.
       Ret () (set_env (object_false_update (\<lambda>_. f)) s)))
      (\<lambda>_ s'. \<exists>e. a_world (n - 2) e (initial_classes 8 [] e) (initial_objects e) s')"
    proof (rule achieves_andthen [OF a_world_create_object [OF w1' n'(2) t(2) pf p(4)]])
      fix r s2
      assume "a_world (n - 1 - 1) ?e1 (initial_classes 8 [] e) [(r, spec_ptr ?f), (q, spec_ptr ?t)] s2"
      from a_world_set_env [OF this, of "object_false_update (\<lambda>_. r)"]
      have "a_world (n - 2) (?e1\<lparr>object_false := r\<rparr>) (initial_classes 8 [] (?e1\<lparr>object_false := r\<rparr>))
          (initial_objects (?e1\<lparr>object_false := r\<rparr>)) (set_env (object_false_update (\<lambda>_. r)) s2)"
        unfolding n'(3) by (simp add: initial_classes_def initial_objects_def spec_defs)
      then show "achieves (Ret () (set_env (object_false_update (\<lambda>_. r)) s2))
          (\<lambda>_ s'. \<exists>e. a_world (n - 2) e (initial_classes 8 [] e) (initial_objects e) s')"
        by auto
    qed
  qed
qed

lemma stage_exception_methods:
  assumes w: "a_world n e (initial_classes 8 [] e) os s" and n: "4 \<le> n"
  shows "achieves (pup_exception_class_init (class_exception (env s)) s)
    (\<lambda>_. a_world (n - 4) e (initial_classes 8 exception_methods e) os)"
proof -
  have split: "initial_classes 8 M e = take 3 (initial_classes 8 [] e) @ with_methods M (exception_spec e) #
      drop 4 (initial_classes 8 [] e)" for M
    by (simp add: initial_classes_def)
  have w': "a_world n e (take 3 (initial_classes 8 [] e) @ with_methods [] (exception_spec e) #
      drop 4 (initial_classes 8 [] e)) os s"
    using w by (simp only: split [of "[]", symmetric])
  have q: "class_exception (env s) = spec_ptr (with_methods [] (exception_spec e))"
    using a_world_env [OF w] by (simp add: spec_defs)
  from achieves_define_list [OF w' _ q, of exception_methods] n show ?thesis
    by (simp add: class_inits exception_methods_def split [of "_ # _"])
qed

lemma stage_fixnum:
  assumes w: "a_world n e (initial_classes 8 M e) os s" and n: "10 \<le> n"
  shows "achieves (add_class (\<lambda>c. class_fixnum_update (\<lambda>_. c)) ''Fixnum''
      (pup_bootstrap_create_classfixnum (pup_invoke code (Suc (Suc d)))) s)
    (\<lambda>_ s'. \<exists>e. a_world (n - 10) e (initial_classes 9 M e) os s' \<and> initial_objects (env s) = initial_objects e)"
proof -
  let ?inv = "pup_invoke code (Suc (Suc d))"
  let ?new = "new_class e (object_spec 8 e) NULL ''Fixnum'' Alloc_fixnum (Some Destroy_fixnum) (Some Copy_indeterminate)"
  have hd: "initial_classes 8 M e = object_spec 8 e # tl (initial_classes 8 M e)"
    by (simp add: initial_classes_def)
  have co: "class_object (env s) = spec_ptr (object_spec 8 e)" "object_spec 8 e \<in> set (initial_classes 8 M e)"
    using a_world_env [OF w] by (simp_all add: initial_classes_def spec_defs)
  have n': "2 \<le> n" "6 \<le> n - 2" "2 \<le> n - 8" "n - 2 - 6 = n - 8" "n - 8 - 2 = n - 10"
    using n by simp_all
  have create: "pup_bootstrap_create_classfixnum ?inv s =
      andthen (pup_internal_create_class ?inv (class_object (env s)) NULL (Some ''Fixnum'')
        (Some Alloc_fixnum) (Some Destroy_fixnum) (Some Copy_indeterminate) s) (\<lambda>c s.
      andthen (define_list c fixnum_methods s) (\<lambda>_ s. Ret c s))"
    by (simp add: pup_bootstrap_create_classfixnum_def fixnum_methods_def andthen_assoc)
  have "achieves (pup_bootstrap_create_classfixnum ?inv s)
    (\<lambda>p. a_world (n - 8) e (object_spec 8 e # tl (initial_classes 8 M e) @ [with_methods fixnum_methods (?new p)]) os)"
    unfolding create
  proof (rule achieves_andthen [OF a_world_create_class [OF w n'(1) initial_creator co(2,1)]])
    fix p s1
    assume w1: "a_world (n - 2) e (initial_classes 8 M e @ [?new p]) os s1"
    have p: "p = spec_ptr (?new p)"
      by (simp add: new_class_def)
    from achieves_define_list [OF w1 _ p, of fixnum_methods] n'(2,4)
    have "achieves (define_list p fixnum_methods s1)
        (\<lambda>_. a_world (n - 8) e (initial_classes 8 M e @ [with_methods fixnum_methods (?new p)]) os)"
      by (simp add: fixnum_methods_def)
    then show "achieves (andthen (define_list p fixnum_methods s1) (\<lambda>_ s. Ret p s))
        (\<lambda>p. a_world (n - 8) e (object_spec 8 e # tl (initial_classes 8 M e) @ [with_methods fixnum_methods (?new p)]) os)"
      by (rule achieves_andthen) (simp, subst (asm) hd, simp)
  qed simp
  then have "achieves (add_class (\<lambda>c. class_fixnum_update (\<lambda>_. c)) ''Fixnum'' (pup_bootstrap_create_classfixnum ?inv) s)
    (\<lambda>_ s'. \<exists>p. a_world (n - 8 - 2) (e\<lparr>class_fixnum := p\<rparr>) (with_const ''Fixnum'' p (object_spec 8 e) #
       tl (initial_classes 8 M e) @ [with_methods fixnum_methods (?new p)]) os s')"
    by (rule a_world_add_class) (use n'(3) in \<open>simp_all add: spec_defs\<close>)
  moreover have "with_const ''Fixnum'' p (object_spec 8 e) #
       tl (initial_classes 8 M e) @ [with_methods fixnum_methods (?new p)] =
       initial_classes 9 M (e\<lparr>class_fixnum := p\<rparr>)" for p
    by (simp add: initial_classes_def spec_defs fixnum_methods_def)
  ultimately have "achieves (add_class (\<lambda>c. class_fixnum_update (\<lambda>_. c)) ''Fixnum''
      (pup_bootstrap_create_classfixnum ?inv) s)
    (\<lambda>_ s'. \<exists>p. a_world (n - 10) (e\<lparr>class_fixnum := p\<rparr>) (initial_classes 9 M (e\<lparr>class_fixnum := p\<rparr>)) os s')"
    by (simp only: n'(5))
  then show ?thesis
    by (rule achieves_weaken)
      (elim exE, rule exI, erule conjI, simp add: initial_objects_def a_world_env [OF w])
qed

text \<open>A runtime as \<open>runtime_init\<close> leaves it, with the symbols \<open>ss\<close> and memory for \<open>m\<close> more allocations.\<close>

definition booted :: "nat \<Rightarrow> string list \<Rightarrow> rt \<Rightarrow> bool" where
  "booted m ss s \<longleftrightarrow>
     world m ss (env s) (initial_classes 9 exception_methods (env s)) (initial_objects (env s)) s"

lemma init_root_staged:
  assumes "empty_heap (22 + n) e0 s" and "n < 1000"
  shows "achieves (init_root s) (\<lambda>_. staged n 2 [])"
proof -
  have eq: "[with_const ''Class'' (class_class e) (with_const ''Object'' (class_object e)
      (with_methods object_methods (root_object e))), root_class e] = initial_classes 2 [] e" for e
    by (simp add: initial_classes_def spec_defs)
  show ?thesis
    by (rule achieves_weaken [OF init_root_step [OF assms]]) (auto simp: staged_def eq)
qed

lemma booted_typed:
  assumes "booted m ss s"
  shows "typed s"
proof -
  have w: "world m ss (env s) (initial_classes 9 exception_methods (env s)) (initial_objects (env s)) s"
    using assms by (simp add: booted_def)
  note hook = world_hook [OF w]
  have hooks: "hook_of s (class_string (env s)) = Some Alloc_string"
      "hook_of s (class_fixnum (env s)) = Some Alloc_fixnum"
      "hook_of s (class_runtimeerror (env s)) = Some Alloc_object"
    using hook [of "initial_classes 9 exception_methods (env s) ! 2"]
      hook [of "initial_classes 9 exception_methods (env s) ! 8"]
      hook [of "initial_classes 9 exception_methods (env s) ! 5"]
    by (simp_all add: initial_classes_def spec_defs)
  moreover have "value_ok s (object_true (env s))" "value_ok s (object_false (env s))"
    by (rule world_value [OF w], simp add: initial_objects_def)+
  ultimately show ?thesis
    using world_parts(1,8) [OF w] by (simp add: typed_def env_typed_def)
qed

lemma booted_ready:
  assumes "booted m ss s"
  shows "creation_ready s ss" "errors_ok s"
proof -
  have w: "world m ss (env s) (initial_classes 9 exception_methods (env s)) (initial_objects (env s)) s"
    using assms by (simp add: booted_def)
  show "creation_ready s ss"
    by (rule world_ready [OF w initial_creator]) simp
  let ?r = "plain_spec (env s) (standarderror_spec (env s)) ''RuntimeError'' (class_runtimeerror (env s))"
  have "?r \<in> set (initial_classes 9 exception_methods (env s))"
    by (simp add: initial_classes_def)
  then have "class_shown s ?r"
    using world_parts(7) [OF w] by (simp add: shows_class_def)
  then obtain ob c where ob: "objects s (class_runtimeerror (env s)) = Some ob" "body ob = ClassBody c"
      "c\<lparr>method_list_head := NULL\<rparr> = spec_body ?r"
    by (auto simp: class_shown_def spec_defs)
  have "allocate_instance c = allocate_instance (spec_body ?r)"
    unfolding ob(3) [symmetric] by simp
  with ob show "errors_ok s"
    by (auto simp: errors_ok_def class_at_Some spec_defs)
qed

lemma runtime_init_step:
  assumes fresh: "fresh_process s" and room: "startup_memory (65 + m) s" and m: "m \<le> 190"
  shows "if os_grants os
    then achieves (runtime_init os (pup_invoke code (Suc (Suc d))) s)
      (\<lambda>_ s'. \<exists>ss. booted m ss s' \<and> typed s' \<and> creation_ready s' ss \<and> errors_ok s')
    else runtime_init os (pup_invoke code (Suc (Suc d))) s = Aborted"
proof -
  let ?inv = "pup_invoke code (Suc (Suc d))"
  have "startup_memory (3 + (22 + (40 + m))) s" "Suc (22 + (40 + m)) \<le> 255"
    using room m by simp_all
  note heap = heap_init_step [OF fresh this, of os]
  have last: "achieves
     (andthen (andthen (pup_create_object (class_true (env s)) s) (\<lambda>t s.
        andthen (pup_create_object (class_false (env s)) (set_env (object_true_update (\<lambda>_. t)) s)) (\<lambda>f s.
        Ret () (set_env (object_false_update (\<lambda>_. f)) s)))) (\<lambda>_ s.
      andthen (pup_exception_class_init (class_exception (env s)) s) (\<lambda>_ s.
      add_class (\<lambda>c. class_fixnum_update (\<lambda>_. c)) ''Fixnum'' (pup_bootstrap_create_classfixnum ?inv) s)))
     (\<lambda>_ s'. \<exists>ss. booted m ss s')"
    if st: "staged (16 + m) 8 [] s" for s
  proof (rule achieves_andthen [OF stage_objects [OF st]], goal_cases)
    case (2 u s1)
    then obtain e where w1: "a_world (14 + m) e (initial_classes 8 [] e) (initial_objects e) s1"
      by auto
    show ?case
    proof (rule achieves_andthen [OF stage_exception_methods [OF w1]], goal_cases)
      case (2 u s2)
      then have w2: "a_world (10 + m) e (initial_classes 8 exception_methods e) (initial_objects e) s2"
        by simp
      show ?case
      proof (rule achieves_weaken [OF stage_fixnum [OF w2]], goal_cases)
        case (2 u s3)
        then obtain e' where "a_world m e' (initial_classes 9 exception_methods e') (initial_objects e') s3"
          using a_world_env [OF w2] by auto
        with a_world_env [OF this] show ?case
          by (auto simp: booted_def a_world_def)
      qed simp
    qed simp
  qed simp
  show ?thesis
  proof (cases "os_grants os")
    case True
    with heap have "achieves (pup_heap_init os s) (\<lambda>res s'. res = 0 \<and> empty_heap (22 + (40 + m)) (env s) s')"
      by simp
    then have "achieves (runtime_init os ?inv s) (\<lambda>_ s'. \<exists>ss. booted m ss s' \<and> typed s' \<and> creation_ready s' ss \<and> errors_ok s')"
      unfolding runtime_init_def
      apply (rule achieves_andthen)
      apply (rule achieves_abort_on, simp)
      apply (rule achieves_andthen, rule init_root_staged [where n = "40 + m"], simp, use m in simp)
      apply (rule achieves_andthen, erule stage_string, simp)
      apply (rule achieves_andthen, erule stage_exception, simp)
      apply (rule achieves_andthen, erule stage_standarderror, simp)
      apply (rule achieves_andthen, erule stage_runtimeerror, simp)
      apply (rule achieves_andthen, erule stage_true, simp)
      apply (rule achieves_andthen, erule stage_false, simp)
      apply (rule achieves_weaken [where P = "\<lambda>_ s'. \<exists>ss. booted m ss s'"])
      subgoal for _ _ _ _ _ _ _ _ _ _ _ _ _ _ _ sn
        using last [of sn] by (simp add: andthen_assoc set_env_def)
      subgoal using booted_ready booted_typed by blast
      done
    with True show ?thesis by simp
  next
    case False
    with heap show ?thesis
      by (auto simp: runtime_init_def)
  qed
qed

section \<open>Properties\<close>


text \<open>A process with 80 answers of malloc and a megabyte of mmap, on a system where every call succeeds.\<close>

definition demo_os :: os_results where
  "demo_os = \<lparr>key_create = 0, sigaction_res = 0, attr_init = 0, thread_create = 0, attr_destroy = 0,
     thread_cancel = 0, thread_join = 0, barrier_init = 0, dlopen_ok = True, munmap_ok = (\<lambda>_. True)\<rparr>"

definition demo_code :: compiled where
  "demo_code n invoke target argc argv s = Ret target s"

definition demo_process :: rt where
  "demo_process = blank\<lparr>mallocs := demo_tape @ [(266240, 0), (270336, 0), (274432, 0), (278528, 0),
     (282624, 0), (286720, 0), (290816, 0), (294912, 0), (299008, 0), (303104, 0), (307200, 0), (311296, 0),
     (315392, 0), (319488, 0), (323584, 0), (327680, 0)]\<rparr>"

lemma demo_process_fresh: "fresh_process demo_process" "startup_memory (65 + 15) demo_process"
proof -
  have "mapped 1048576 \<inter> occupied demo_process = {}"
    by (auto simp: mapped_def occupied_def demo_process_def blank_def region_addresses_def demo_tape_def)
  then have "heap_wf demo_process"
    by (simp add: heap_wf_def demo_process_def blank_def malloced_def region_addresses_def mapped_def MAP_FAILED_def
        demo_tape_def)
  then show "fresh_process demo_process"
    by (simp add: fresh_process_def demo_process_def blank_def interned_def sym_table_is_def)
  show "startup_memory (65 + 15) demo_process"
    by (simp add: startup_memory_def answers_def demo_process_def blank_def demo_tape_def MAP_FAILED_def)
qed

lemma demo_os_grants: "os_grants demo_os"
  by (simp add: os_grants_def heap_thread_start_def demo_os_def)


text \<open>A small runtime that can make classes: \<open>Object\<close> with its methods, and \<open>Class\<close>.\<close>

definition demo_env :: runtime_env where
  "demo_env = (env blank)\<lparr>class_object := 1048585, class_class := 1048681\<rparr>"

definition demo_root :: rt where
  "demo_root = two_classes\<lparr>env := demo_env, objects :=
     [1048585 \<mapsto> \<lparr>otype = 1048681, attr_list_head = 0, gc_mark = 0, body = ClassBody demo_object_class\<rparr>,
      1048681 \<mapsto> \<lparr>otype = 1048681, attr_list_head = 0, gc_mark = 0, body = ClassBody demo_class_class\<rparr>]\<rparr>"

definition demo_ready :: rt where
  "demo_ready = (case define_list 1048585 object_methods demo_root of Ret u s \<Rightarrow> s | _ \<Rightarrow> demo_root)"

lemma two_classes_symtab: "sym_tab two_classes = \<lparr>next_sym = 1, st_head = 0, st_entries = Map.empty\<rparr>"
  by (simp add: two_classes_def class_eval boot_eval zero_object_def)

lemma two_classes_unwinds: "unwinds two_classes = Map.empty"
  by (simp add: two_classes_def class_eval boot_eval zero_object_def)

lemma demo_root_world: "world 40 [] demo_env [root_object demo_env, root_class demo_env] [] demo_root"
proof -
  have "memory_ok (two_classes\<lparr>env := demo_env\<rparr>)"
    by (rule memory_ok_cong [OF two_classes_ok(1)]) simp_all
  note m1 = memory_ok_body(1) [OF this, of 1048585 _
      "\<lparr>otype = 1048681, attr_list_head = 0, gc_mark = 0, body = ClassBody demo_object_class\<rparr>"]
  note m2 = memory_ok_body(1) [OF m1, of _ 1048681 _
      "\<lparr>otype = 1048681, attr_list_head = 0, gc_mark = 0, body = ClassBody demo_class_class\<rparr>"]
  have "memory_ok demo_root"
    using m2 by (simp add: two_classes_at demo_root_def fun_upd_twist)
  moreover have "interned demo_root []" "unwinds demo_root = Map.empty" "plenty 40 demo_root"
    by (simp_all add: demo_root_def interned_def plenty_def answers_def two_classes_at two_classes_spare demo_tape_def
        two_classes_symtab two_classes_unwinds sym_table_is_def)
  ultimately show ?thesis
    by (rule root_world [where m = 0 and m' = 0])
      (simp_all add: demo_root_def demo_env_def new_object_def root_object_def root_class_def
        demo_object_class_def demo_class_class_def)
qed

lemma demo_ready_ok:
  "\<exists>ss. creation_ready demo_ready ss" "plenty 2 demo_ready" "mro demo_ready 1048585 [1048585]"
proof -
  have w: "a_world 40 demo_env ([] @ root_object demo_env # [root_class demo_env]) [] demo_root"
    using demo_root_world by (auto simp: a_world_def)
  have q: "1048585 = spec_ptr (root_object demo_env)"
    by (simp add: root_object_def demo_env_def)
  obtain s where "define_list 1048585 object_methods demo_root = Ret () s"
      "a_world 26 demo_env ([] @ with_methods object_methods (root_object demo_env) # [root_class demo_env]) [] s"
    using a_world_define_list [OF w _ q, of object_methods] by (auto simp: object_methods_def)
  then obtain ss where r: "world 26 ss demo_env
      [with_methods object_methods (root_object demo_env), root_class demo_env] [] demo_ready"
    by (auto simp: a_world_def demo_ready_def)
  have "creator [with_methods object_methods (root_object demo_env), root_class demo_env] demo_env"
    by (rule creator_root [OF refl]) (simp_all add: root_object_def)
  then show "\<exists>ss. creation_ready demo_ready ss"
    using world_ready [OF r] by blast
  show "plenty 2 demo_ready"
    by (rule plenty_less [OF world_parts(5) [OF r]]) simp
  show "mro demo_ready 1048585 [1048585]"
    using world_parts(7) [OF r, of "with_methods object_methods (root_object demo_env)"]
    by (simp add: shows_class_def root_object_def demo_env_def)
qed

text \<open>C15: A new class.  In a runtime where \<open>new\<close>, \<open>allocate\<close> and \<open>initialize\<close> are the built-in methods
  and there is memory, \<open>pup_internal_create_class\<close>, for all its trips through the dispatcher, makes one
  fresh class object with exactly the superclass, scope, name and hooks given, an empty method table and no constants; its superclasses are those of its parent, and every other
  class keeps its superclasses, methods and constants.\<close>

theorem create_class_adds_one:
  assumes "creation_ready s ss" and "plenty 2 s" and "mro s super cs" and "super \<noteq> NULL"
  shows "\<exists>p s'. pup_internal_create_class (pup_invoke code (Suc (Suc d))) super scp (Some nm) (Some a) df g s = Ret p s' \<and>
    class_added s p \<lparr>superclass = super, name = Some nm, method_list_head = NULL, scope = scp,
      allocate_instance = Some a, destroy_instance = df, gc_copy_instance = g\<rparr> cs s'"
  using create_class_step [OF assms] by blast

lemma create_class_adds_one_witness:
  "\<exists>ss. creation_ready demo_ready ss \<and>
    (\<exists>p s'. pup_internal_create_class (pup_invoke demo_code (Suc (Suc 0))) 1048585 NULL (Some ''A'')
         (Some Alloc_object) None None demo_ready = Ret p s' \<and>
       class_added demo_ready p \<lparr>superclass = 1048585, name = Some ''A'', method_list_head = NULL, scope = NULL,
         allocate_instance = Some Alloc_object, destroy_instance = None, gc_copy_instance = None\<rparr> [1048585] s')"
proof -
  obtain ss where ss: "creation_ready demo_ready ss"
    using demo_ready_ok(1) by blast
  have "(1048585 :: ptr) \<noteq> NULL"
    by simp
  from create_class_adds_one [OF ss demo_ready_ok(2,3) this] ss show ?thesis
    by blast
qed

end
