(* ===== verification/Soundness.thy ===== *)
theory Soundness
  imports Bootstrap
begin

text \<open>
  Type soundness of dispatch, from the rules of Typing: whatever \<open>pup_invoke\<close> runs keeps a typed
  runtime typed, and a runtime is typed when \<open>runtime_init\<close> returns.
\<close>

section \<open>Compiled code\<close>

text \<open>
  Compiled code reaches the objects only through the functions of the runtime, and these are sound
  one by one, so that code put together from them is.  Here is a method that stores a new string in
  an instance variable of its receiver, reads it back and has it printed.
\<close>

definition greeter :: compiled where
  "greeter n invoke target argc argv s =
     andthen (pup_string_new_cstr (Some ''hello'') s) (\<lambda>v s.
     andthen (pup_env_str_to_sym ''@greeting'' s) (\<lambda>k s.
     andthen (pup_iv_set target k v s) (\<lambda>_ s.
     andthen (pup_iv_get target k s) (\<lambda>w s.
     invoke_named invoke target ''puts'' 1 (Some [w]) s))))"

lemma greeter_typed: "code_typed greeter"
  unfolding code_typed_def keeps_types_def greeter_def
proof (intro allI impI, rule sound_andthen [OF string_new_sound], assumption,
    rule sound_andthen [OF str_to_sym_sound], assumption, goal_cases)
  case (1 n g p x argv s v s1 k s2)
  have p: "value_ok s2 p"
    by (rule value_grows [OF grows_trans [OF 1(6,9)] 1(3)])
  show ?case
  proof (rule sound_andthen [OF iv_set_sound [OF 1(8) value_grows [OF 1(9,7)]]], goal_cases)
    case (1 u s3)
    have p3: "value_ok s3 p"
      by (rule value_grows [OF 1(2) p])
    show ?case
    proof (rule sound_andthen [OF iv_get_sound [OF 1(1)]])
      fix w s4
      assume s4: "typed s4" "grows s3 s4" "value_ok s4 w"
      have "args_ok s4 (Some [w])"
        using s4(3) by (simp add: args_ok_def)
      then show "sound val s4 (invoke_named g p ''puts'' 1 (Some [w]) s4)"
        by (rule invoke_named_sound [OF \<open>dispatches_typed g\<close> s4(1) value_grows [OF s4(2) p3]])
    qed
  qed
qed

section \<open>Subclasses of Fixnum\<close>

text \<open>
  Types do not save every method: a class made by \<open>pup_create_class\<close> has the hook of \<open>Object\<close>, so an
  instance of a subclass of \<open>Fixnum\<close> is a plain object, which finds \<open>+\<close> all the same; the sum of
  two of them reads behind both.
\<close>

lemma subclass_of_fixnum_reads_past:
  assumes ok: "typed s" and c: "hook_of s c = Some Alloc_object"
    and p: "objects s p = Some ob" "otype ob = c" "p \<noteq> NULL"
    and q: "objects s q = Some ob'" "otype ob' = c"
    and plus: "mro s c cs" "first_in (\<lambda>c. own_method s c k) cs = Some Fixnum_plus"
  shows "pup_invoke code (Suc d) p k 1 (Some [q]) s = Undef"
proof -
  have "cs \<noteq> []"
    using plus(2) by auto
  then have "pup_invoke code (Suc d) p k 1 (Some [q]) s = pup_fixnum_plus p 1 (Some [q]) s"
    using invoke_found [OF typedD(4) [OF ok] p(1,3), of cs code d k 1 "Some [q]"] plus p(2)
    by (simp add: call_method_def)
  moreover have "body ob = PlainBody"
    using heap_typedD(1) [OF typedD(5) [OF ok] p(1)] c p(2) by (simp add: fits_def)
  then have "fixnum_at s p = None"
    using p(1) by (simp add: fixnum_at_def)
  ultimately show ?thesis
    using p(1,2) q by (simp add: pup_fixnum_plus_def with_one_arg_pass)
qed

section \<open>Properties\<close>

text \<open>C5: Type soundness of dispatch.  Let every object have a class whose hook makes objects of its
  shape, and every reference be \<open>NULL\<close> or to an object.  Whatever method \<open>pup_invoke\<close> finds, built in
  or compiled from calls that are sound, when it returns or raises, at any depth of the stack, the
  runtime is well formed and typed again; every object is still there, of the same class and with
  the same value, a class has the methods it had and a string its symbol; and the result is a reference.\<close>

theorem dispatch_keeps_types:
  assumes "typed s" and "code_typed code" and "value_ok s p" and "args_ok s argv"
  shows "case pup_invoke code d p k argc argv s of
      Ret x s' \<Rightarrow> typed s' \<and> grows s s' \<and> value_ok s' x
    | Raised e s' \<Rightarrow> typed s' \<and> grows s s'
    | _ \<Rightarrow> True"
proof -
  have "keeps_types (\<lambda>p. pup_invoke code d p k)"
    using invoke_sound [OF assms(2)] by (simp add: dispatches_typed_def)
  from keeps_typesD [OF this assms(1,3,4)] show ?thesis
    by (simp add: sound_def)
qed

lemma dispatch_keeps_types_witness:
  "achieves (runtime_init demo_os (pup_invoke greeter 2) demo_process)
    (\<lambda>_ s. case pup_invoke greeter 9 (class_object (env s)) 5 1 (Some [class_string (env s)]) s of
        Ret x s' \<Rightarrow> typed s' \<and> grows s s' \<and> value_ok s' x
      | Raised e s' \<Rightarrow> typed s' \<and> grows s s'
      | _ \<Rightarrow> True)"
proof -
  have boot: "achieves (runtime_init demo_os (pup_invoke greeter 2) demo_process)
      (\<lambda>_ s. \<exists>ss. booted 15 ss s \<and> typed s \<and> creation_ready s ss \<and> errors_ok s)"
    using runtime_init_step [OF demo_process_fresh, of demo_os greeter 0]
    by (simp add: demo_os_grants numeral_2_eq_2)
  show ?thesis
  proof (rule achieves_weaken [OF boot], elim exE conjE)
    fix u s ss
    assume s: "booted 15 ss s" "typed s"
    have "value_ok s (class_object (env s))" "args_ok s (Some [class_string (env s)])"
      using world_value [OF s(1) [unfolded booted_def], of "class_object (env s)"]
        world_value [OF s(1) [unfolded booted_def], of "class_string (env s)"]
      by (simp_all add: initial_classes_def spec_defs args_ok_def)
    then show "case pup_invoke greeter 9 (class_object (env s)) 5 1 (Some [class_string (env s)]) s of
        Ret x s' \<Rightarrow> typed s' \<and> grows s s' \<and> value_ok s' x
      | Raised e s' \<Rightarrow> typed s' \<and> grows s s'
      | _ \<Rightarrow> True"
      by (rule dispatch_keeps_types [OF s(2) greeter_typed])
  qed
qed

end
