(* ===== verification/Definedness.thy ===== *)
theory Definedness
  imports Soundness
begin

text \<open>
  Where the built-in methods have undefined behaviour: with memory to be had, in a typed runtime and
  for arguments that are objects, in the cases of \<open>goes_wrong\<close> and in no others.
\<close>

section \<open>Operations that are defined\<close>

text \<open>
  \<open>fit n s\<close>: a typed runtime with memory and symbols for \<open>n\<close> more allocations.  \<open>defined k P s m\<close>:
  \<open>m\<close>, run in \<open>s\<close>, needs at most \<open>k\<close> of them to be defined and to come to an end.
\<close>

definition fit :: "nat \<Rightarrow> rt \<Rightarrow> bool" where
  "fit n s \<longleftrightarrow> typed s \<and> plenty n s \<and> (\<forall>ss. interned s ss \<longrightarrow> length ss + n < 2 ^ 31 - 2)"

definition defined :: "nat \<Rightarrow> ('a \<Rightarrow> rt \<Rightarrow> bool) \<Rightarrow> rt \<Rightarrow> ('a, rt) outcome \<Rightarrow> bool" where
  "defined k P s m \<longleftrightarrow>
     (\<forall>n. fit (k + n) s \<longrightarrow>
        (case m of
           Ret x s' \<Rightarrow> fit n s' \<and> grows s s' \<and> P x s'
         | Undef \<Rightarrow> False
         | Diverged \<Rightarrow> False
         | _ \<Rightarrow> True))"

lemma fitD:
  assumes "fit n s"
  shows "typed s" "plenty n s" "interned s ss \<Longrightarrow> length ss + n < 2 ^ 31 - 2"
  using assms by (simp_all add: fit_def)

lemma fit_less: "fit n s \<Longrightarrow> m \<le> n \<Longrightarrow> fit m s"
  unfolding fit_def using plenty_less by fastforce

lemma fit_errors:
  assumes "fit n s"
  shows "rt_ok s" "errors_ok s" "room_for_symbols s"
proof -
  show "rt_ok s"
    by (rule typedD [OF fitD(1) [OF assms]])
  show "room_for_symbols s"
    using fitD(3) [OF assms] by (force simp: room_for_symbols_def)
  show "errors_ok s"
    using runtimeerror_hook [OF fitD(1) [OF assms]]
    by (auto simp: errors_ok_def hook_of_def split: option.splits)
qed

lemma defined_fit: "defined k P s m \<Longrightarrow> fit k s \<Longrightarrow> m \<noteq> Undef \<and> m \<noteq> Diverged"
  unfolding defined_def by (drule spec [of _ 0]) (auto split: outcome.splits)

lemma defined_Ret: "P x s \<Longrightarrow> defined k P s (Ret x s)"
  by (auto simp: defined_def grows_refl elim: fit_less)

lemma defined_Aborted: "defined k P s Aborted"
  by (simp add: defined_def)

lemma defined_Raised: "(fit k s \<Longrightarrow> \<exists>e s'. m = Raised e s') \<Longrightarrow> defined k P s m"
  unfolding defined_def using fit_less [of _ s k] by fastforce

lemma defined_more:
  assumes "defined k P s m" and "k \<le> l"
  shows "defined l P s m"
  unfolding defined_def
proof (intro allI impI)
  fix n
  assume "fit (l + n) s"
  then have "fit (k + (l - k + n)) s"
    using assms(2) by simp
  with assms(1) have "case m of Ret x s' \<Rightarrow> fit (l - k + n) s' \<and> grows s s' \<and> P x s' | Undef \<Rightarrow> False
      | Diverged \<Rightarrow> False | _ \<Rightarrow> True"
    unfolding defined_def by blast
  then show "case m of Ret x s' \<Rightarrow> fit n s' \<and> grows s s' \<and> P x s' | Undef \<Rightarrow> False | Diverged \<Rightarrow> False | _ \<Rightarrow> True"
    using fit_less [of "l - k + n" _ n] by (simp split: outcome.splits)
qed

lemma defined_andthen:
  assumes m: "defined k P s m"
    and f: "\<And>x s'. typed s' \<Longrightarrow> grows s s' \<Longrightarrow> P x s' \<Longrightarrow> defined l Q s' (f x s')"
  shows "defined (k + l) Q s (andthen m f)"
  unfolding defined_def
proof (intro allI impI)
  fix n
  assume "fit (k + l + n) s"
  then have "fit (k + (l + n)) s"
    by (simp add: add.assoc)
  with m have r: "case m of Ret x s' \<Rightarrow> fit (l + n) s' \<and> grows s s' \<and> P x s' | Undef \<Rightarrow> False | Diverged \<Rightarrow> False | _ \<Rightarrow> True"
    unfolding defined_def by blast
  show "case andthen m f of Ret x s' \<Rightarrow> fit n s' \<and> grows s s' \<and> Q x s' | Undef \<Rightarrow> False | Diverged \<Rightarrow> False | _ \<Rightarrow> True"
  proof (cases m)
    case (Ret x s')
    with r have s': "fit (l + n) s'" "grows s s'" "P x s'"
      by simp_all
    with f [OF fitD(1) [OF s'(1)] s'(2,3)]
    have "case f x s' of Ret y t \<Rightarrow> fit n t \<and> grows s' t \<and> Q y t | Undef \<Rightarrow> False | Diverged \<Rightarrow> False | _ \<Rightarrow> True"
      unfolding defined_def by blast
    then show ?thesis
      using Ret grows_trans [OF s'(2)] by (simp split: outcome.splits)
  qed (use r in simp_all)
qed

lemma defined_then:
  assumes "defined k P s m" and "k \<le> n"
    and "\<And>x s'. typed s' \<Longrightarrow> grows s s' \<Longrightarrow> P x s' \<Longrightarrow> defined (n - k) Q s' (f x s')"
  shows "defined n Q s (andthen m f)"
  using defined_andthen [OF assms(1,3)] assms(2) by simp

text \<open>An operation that returns, by what is known of its soundness and its use of memory.\<close>

lemma defined_returns:
  assumes snd: "sound Q s m"
    and run: "fit k s \<Longrightarrow> \<exists>x s'. m = Ret x s' \<and> uses_at_most k s s' \<and> P x s' \<and>
      (\<forall>ss'. interned s' ss' \<longrightarrow> (\<exists>ss. interned s ss \<and> length ss' \<le> length ss + k))"
  shows "defined k P s m"
  unfolding defined_def
proof (intro allI impI)
  fix n
  assume n: "fit (k + n) s"
  then obtain x s' where s': "m = Ret x s'" "uses_at_most k s s'" "P x s'"
      "\<And>ss'. interned s' ss' \<Longrightarrow> \<exists>ss. interned s ss \<and> length ss' \<le> length ss + k"
    using run fit_less [of "k + n" s k] by auto
  have "plenty n s'"
    by (rule plenty_uses [OF fitD(2) [OF n] s'(2)])
  moreover have "length ss' + n < 2 ^ 31 - 2" if "interned s' ss'" for ss'
    using s'(4) [OF that] fitD(3) [OF n] by fastforce
  ultimately have "fit n s'"
    using snd s'(1) by (simp add: fit_def sound_def)
  then show "case m of Ret x s' \<Rightarrow> fit n s' \<and> grows s s' \<and> P x s' | Undef \<Rightarrow> False | Diverged \<Rightarrow> False | _ \<Rightarrow> True"
    using s'(1,3) snd by (simp add: sound_def)
qed

section \<open>The functions of the runtime\<close>

text \<open>A reference that is not \<open>NULL\<close>.\<close>

abbreviation obj :: "ptr \<Rightarrow> rt \<Rightarrow> bool" where
  "obj p s \<equiv> p \<in> dom (objects s)"

lemma obj_grows: "grows s s' \<Longrightarrow> obj p s \<Longrightarrow> obj p s'"
  using same_kinds_dom [of s s'] unfolding grows_def by blast

lemma defined_str_to_sym:
  assumes ok: "typed s"
  shows "defined 1 any s (pup_env_str_to_sym x s)"
proof (rule defined_returns [OF str_to_sym_sound [OF ok]])
  assume f: "fit 1 s"
  obtain ss where ss: "interned s ss"
    using typedD(1) [OF ok] by (auto simp: rt_ok_def)
  have "fst (malloc (mallocs s)) \<noteq> NULL"
    using plenty_malloc [of 0 s] fitD(2) [OF f] by (cases "malloc (mallocs s)") auto
  then have "x \<in> set ss \<or> fst (malloc (mallocs s)) \<noteq> NULL \<and> length ss < 2 ^ 31 - 2"
    using fitD(3) [OF f ss] by simp
  from str_to_sym_step [OF typedD(2) [OF ok] ss this] obtain s' where
    s': "pup_env_str_to_sym x s = Ret (symbol_in ss x) s'" "sym_step s ss x s'"
    by blast
  have "length (snd (intern x ss)) \<le> length ss + 1"
    by (cases "index_of x ss") (simp_all add: intern_def)
  then have "\<exists>ts. interned s ts \<and> length ss' \<le> length ts + 1" if "interned s' ss'" for ss'
    using that s'(2) ss interned_unique [of s' ss' "snd (intern x ss)"] by (auto simp: sym_step_def)
  with s' show "\<exists>y s'. pup_env_str_to_sym x s = Ret y s' \<and> uses_at_most 1 s s' \<and> True \<and>
      (\<forall>ss'. interned s' ss' \<longrightarrow> (\<exists>ss. interned s ss \<and> length ss' \<le> length ss + 1))"
    by (auto simp: sym_step_def)
qed

lemma same_symbols:
  "sym_tab s' = sym_tab s \<Longrightarrow> \<forall>ss'. interned s' ss' \<longrightarrow> (\<exists>ss. interned s ss \<and> length ss' \<le> length ss + k)"
  by (auto simp: interned_def)

lemma defined_iv_get:
  assumes "typed s" and "obj p s"
  shows "defined 0 val s (pup_iv_get p k s)"
  unfolding iv_get_attr_of [OF typedD(3) [OF assms(1)] assms(2)]
  by (rule defined_Ret, rule heap_typedD(2) [OF typedD(5) [OF assms(1)] assms(2)])

lemma defined_iv_set:
  assumes ok: "typed s" and p: "obj p s" and v: "value_ok s v"
  shows "defined 1 any s (pup_iv_set p k v s)"
proof (rule defined_returns [OF iv_set_sound [OF ok v]])
  assume "fit 1 s"
  then have "plenty 1 s"
    by (rule fitD)
  with iv_set_step [OF typedD(2) [OF ok] p, of k v] obtain s' where
    s': "pup_iv_set p k v s = Ret () s'" "attr_step s p k v s'" by blast
  then have "uses_at_most 1 s s'" "sym_tab s' = sym_tab s"
    by (simp_all add: attr_step_def same_but_attrs_def)
  with s'(1) same_symbols show "\<exists>x s'. pup_iv_set p k v s = Ret x s' \<and> uses_at_most 1 s s' \<and> True \<and>
      (\<forall>ss'. interned s' ss' \<longrightarrow> (\<exists>ss. interned s ss \<and> length ss' \<le> length ss + 1))"
    by blast
qed

lemma defined_string_new:
  assumes ok: "typed s"
  shows "defined 2 val s (pup_string_new_cstr (Some x) s)"
proof (rule defined_returns [OF string_new_sound [OF ok]])
  assume "fit 2 s"
  then have "plenty 2 s"
    by (rule fitD)
  with string_new_step [OF typedD(2) [OF ok], of x] obtain p s' where
    s': "pup_string_new_cstr (Some x) s = Ret p s'" "str_step s p x s'" by blast
  then have "uses_at_most 2 s s'" "sym_tab s' = sym_tab s" "value_ok s' p"
    by (auto simp: str_step_def value_ok_def)
  with s'(1) same_symbols show "\<exists>p s'. pup_string_new_cstr (Some x) s = Ret p s' \<and> uses_at_most 2 s s' \<and>
      value_ok s' p \<and> (\<forall>ss'. interned s' ss' \<longrightarrow> (\<exists>ss. interned s ss \<and> length ss' \<le> length ss + 2))"
    by blast
qed

text \<open>Objects and fixnums, which are blocks of the heap.\<close>

lemma defined_object:
  assumes snd: "sound val s m" and m: "plenty 1 s \<Longrightarrow> \<exists>p s'. m = Ret p s' \<and> obj_step s p cl b s'"
  shows "defined 1 val s m"
proof (rule defined_returns [OF snd])
  assume "fit 1 s"
  then obtain p s' where s': "m = Ret p s'" "obj_step s p cl b s'"
    using m fitD(2) by blast
  then have "uses_at_most 1 s s'" "sym_tab s' = sym_tab s" "value_ok s' p"
    by (auto simp: obj_step_def value_ok_def)
  with s'(1) same_symbols show "\<exists>p s'. m = Ret p s' \<and> uses_at_most 1 s s' \<and>
      value_ok s' p \<and> (\<forall>ss'. interned s' ss' \<longrightarrow> (\<exists>ss. interned s ss \<and> length ss' \<le> length ss + 1))"
    by blast
qed

lemma defined_raise: "typed s \<Longrightarrow> 1 \<le> n \<Longrightarrow> defined n P s (pup_raise x s)"
  by (rule defined_more [OF defined_Raised]) (use raise_step [OF typedD(1) fitD(2)] in blast)

lemma defined_error:
  assumes "6 \<le> n" and "\<And>s. rt_ok s \<Longrightarrow> errors_ok s \<Longrightarrow> plenty 6 s \<Longrightarrow> room_for_symbols s \<Longrightarrow> raises_error txt s (m s)"
  shows "defined n P s (m s)"
proof (rule defined_more [OF defined_Raised assms(1)])
  assume "fit 6 s"
  from assms(2) [OF fit_errors(1,2) [OF this] fitD(2) [OF this] fit_errors(3) [OF this]]
  show "\<exists>e s'. m s = Raised e s'"
    by (auto simp: raises_error_def)
qed

lemma defined_raise_runtimeerror:
  assumes "6 \<le> n"
  shows "defined n P s (pup_raise_runtimeerror x s)" "defined n P s (raise_runtimeerrorf m s)"
proof -
  show "defined n P s (raise_runtimeerrorf m s)"
    by (rule defined_error [OF assms raise_runtimeerror_step(2)])
  show "defined n P s (pup_raise_runtimeerror x s)"
  proof (cases x)
    case None
    then show ?thesis
      by (simp add: pup_raise_runtimeerror_def pup_new_runtimeerror_def runtimeerror_via_def defined_Aborted)
  next
    case (Some m)
    then show ?thesis
      using defined_error [OF assms raise_runtimeerror_step(1)] by simp
  qed
qed

lemma defined_arity_fails:
  assumes "n \<noteq> m" and "6 \<le> k"
  shows "defined k P s (pup_arity_check n m s)"
  using assms(1) unfolding pup_arity_check_def
  by (simp only: if_True not_False_eq_True) (rule defined_raise_runtimeerror [OF assms(2)])

lemma arity_passes [simp]: "pup_arity_check n n s = Ret () s"
  by (simp add: pup_arity_check_def)

subsection \<open>Reading\<close>

lemma object_class:
  assumes "typed s" and "objects s p = Some ob"
  shows "otype ob \<in> dom (class_at s)"
  using heap_typedD(1) [OF typedD(5) [OF assms(1)] assms(2)]
  by (auto simp: fits_def hook_of_def split: option.splits)

lemma defined_type_name:
  assumes "typed s" and "objects s p = Some ob"
  shows "defined n any s (pup_object_type_name p s)" "defined n any s (pup_type_name (otype ob) s)"
proof -
  obtain c where c: "class_at s (otype ob) = Some c"
    using object_class [OF assms] by blast
  then have "\<exists>x. pup_type_name (otype ob) s = Ret x s"
    by (simp add: pup_type_name_def split: option.split)
  moreover from this have "\<exists>x. pup_object_type_name p s = Ret x s"
    using assms(2) by (simp add: pup_object_type_name_def)
  ultimately show "defined n any s (pup_object_type_name p s)" "defined n any s (pup_type_name (otype ob) s)"
    by (auto simp: defined_Ret)
qed

lemma defined_kindof:
  assumes "typed s" and "objects s p = Some ob"
  shows "defined n any s (pup_object_kindof p c s)"
proof -
  obtain cs where cs: "mro s (otype ob) cs"
    using class_of_object [OF assms] by blast
  with assms(2) ancestor_walk_mro [OF cs, of c] show ?thesis
    by (simp add: pup_object_kindof_def pup_is_descendant_or_same_def abort_on_def defined_Aborted defined_Ret)
qed

lemma string_body:
  assumes "typed s" and "objects s p = Some ob" and "otype ob = class_string (env s)"
  shows "\<exists>v. body ob = StringBody v"
proof -
  have "hook_of s (class_string (env s)) = Some Alloc_string"
    using typedD(6) [OF assms(1)] by (simp add: env_typed_def)
  then show ?thesis
    using heap_typedD(1) [OF typedD(5) [OF assms(1)] assms(2)] assms(3) by (simp add: fits_def)
qed

lemma defined_strdup:
  assumes ok: "typed s" and n: "1 \<le> n"
  shows "defined n (\<lambda>x _. x \<noteq> None) s (strdup_ret (Some x) s)"
proof (rule defined_more [OF defined_returns [OF strdup_sound [OF ok]] n])
  obtain p junk t where m: "malloc (mallocs s) = (p, junk, t)"
    by (cases "malloc (mallocs s)")
  assume "fit 1 s"
  then have "plenty (Suc 0) s"
    using fitD(2) by simp
  from plenty_malloc [OF this m] m have "strdup_ret (Some x) s = Ret (Some x) (s\<lparr>mallocs := t\<rparr>)"
    by (simp add: strdup_ret_def strdup_def)
  moreover have "uses_at_most 1 s (s\<lparr>mallocs := t\<rparr>)"
    using uses_malloc [OF m, of "s\<lparr>mallocs := t\<rparr>" 0] by simp
  ultimately show "\<exists>y s'. strdup_ret (Some x) s = Ret y s' \<and> uses_at_most 1 s s' \<and> y \<noteq> None \<and>
      (\<forall>ss'. interned s' ss' \<longrightarrow> (\<exists>ss. interned s ss \<and> length ss' \<le> length ss + 1))"
    using same_symbols [where s' = "s\<lparr>mallocs := t\<rparr>" and s = s and k = 1] by simp
qed

lemma defined_string_value:
  assumes ok: "typed s" and ob: "objects s p = Some ob"
  shows "defined 6 any s (pup_string_value p s)"
proof (cases "otype ob = class_string (env s)")
  case True
  with string_body [OF ok ob] ob show ?thesis
    by (auto simp: pup_string_value_def pup_is_string_def pup_object_instanceof_def pup_string_value_unsafe_def
        defined_Ret)
next
  case False
  have "defined 6 any s (andthen (pup_object_type_name p s) (\<lambda>n s.
      raise_runtimeerrorf (''String expected, '' @ n @ '' given'') s))"
    by (rule defined_then [OF defined_type_name(1) [OF ok ob, of 0]], simp, rule defined_raise_runtimeerror, simp)
  with False ob show ?thesis
    by (simp add: pup_string_value_def pup_is_string_def pup_object_instanceof_def)
qed

lemma defined_message_get:
  assumes "typed s" and "obj p s"
  shows "defined 1 val s (pup_exception_message_get p s)"
  unfolding pup_exception_message_get_def
  by (rule defined_then [OF defined_str_to_sym [OF assms(1)]], simp, rule defined_more [OF defined_iv_get])
    (use obj_grows [OF _ assms(2)] in simp_all)

lemma defined_exception_text:
  assumes ok: "typed s" and p: "obj p s"
  shows "defined 7 any s (exception_text p s)"
  unfolding exception_text_def
proof (rule defined_then [OF defined_message_get [OF ok p]], goal_cases)
  case (2 msg s')
  obtain ob where ob: "objects s' p = Some ob"
    using obj_grows [OF 2(2) p] by blast
  have "defined 6 any s' (pup_string_value msg s')" if "msg \<noteq> NULL"
    using 2(1,3) that by (auto simp: value_ok_def intro: defined_string_value)
  moreover have "defined 6 any s' (andthen (pup_object_type_name p s') (\<lambda>n s. Ret (Some n) s))"
    by (rule defined_then [OF defined_type_name(1) [OF 2(1) ob, of 0]]) (simp_all add: defined_Ret)
  ultimately show ?case
    by simp
qed simp

text \<open>The text of an object is found unless the object is a string without text.\<close>

definition textless :: "rt \<Rightarrow> ptr \<Rightarrow> bool" where
  "textless s p \<longleftrightarrow>
     (\<exists>ob. objects s p = Some ob \<and> otype ob = class_string (env s) \<and> body ob = StringBody None)"

lemma defined_default_text:
  assumes "typed s" and "objects s p = Some ob"
  shows "defined 1 (\<lambda>x _. x \<noteq> None) s (andthen (pup_default_obj_cstr p s) (\<lambda>b s. strdup_ret (Some b) s))"
proof -
  have "defined 0 any s (pup_default_obj_cstr p s)"
    unfolding pup_default_obj_cstr_def
    by (rule defined_then [OF defined_type_name(1) [OF assms, of 0]]) (simp_all add: defined_Ret)
  then show ?thesis
    by (rule defined_then) (simp, rule defined_strdup, assumption, simp)
qed

lemma defined_stringify:
  assumes ok: "typed s" and ob: "objects s p = Some ob" and t: "\<not> textless s p"
  shows "defined 8 (\<lambda>x _. x \<noteq> None) s (pup_stringify p s)"
proof (cases "otype ob = class_string (env s)")
  case True
  with string_body [OF ok ob] t ob obtain x where "body ob = StringBody (Some x)"
    by (auto simp: textless_def)
  with True ob defined_strdup [OF ok, of 8 x] show ?thesis
    by (simp add: pup_stringify_def pup_is_string_def pup_object_instanceof_def pup_string_value_unsafe_def)
next
  case False
  let ?is_exc = "otype ob = class_exception (env s)"
  have "pup_stringify p s =
      andthen (if ?is_exc then exception_text p s else Ret None s) (\<lambda>msg s.
        if msg \<noteq> None then strdup_ret msg s
        else andthen (pup_default_obj_cstr p s) (\<lambda>b s. strdup_ret (Some b) s))"
    using False ob
    by (simp add: pup_stringify_def pup_is_string_def pup_object_instanceof_def pup_instanceof_exception_def)
  moreover have "defined 7 any s (if ?is_exc then exception_text p s else Ret None s)"
    using defined_exception_text [OF ok] ob by (auto simp: defined_Ret)
  then have "defined 8 (\<lambda>x _. x \<noteq> None) s (andthen (if ?is_exc then exception_text p s else Ret None s) (\<lambda>msg s.
        if msg \<noteq> None then strdup_ret msg s
        else andthen (pup_default_obj_cstr p s) (\<lambda>b s. strdup_ret (Some b) s)))"
  proof (rule defined_then, goal_cases)
    case (2 msg s')
    then obtain ob' where "objects s' p = Some ob'"
      using obj_grows [of s s' p] ob by blast
    then show ?case
      using 2(1) defined_strdup [of s' 1] defined_default_text [of s' p ob'] by auto
  qed simp
  ultimately show ?thesis
    by simp
qed

lemma stringify_textless: "textless s p \<Longrightarrow> pup_stringify p s = Undef"
  by (auto simp: textless_def pup_stringify_def pup_is_string_def pup_object_instanceof_def
      pup_string_value_unsafe_def strdup_ret_def)

section \<open>The methods\<close>

text \<open>A call with one argument, or with another number of them.\<close>

lemma defined_one_arg:
  assumes args: "ucast argc = (1 :: i32) \<longrightarrow> xs \<noteq> []"
    and body: "ucast argc = (1 :: i32) \<Longrightarrow> defined n val s (m (hd xs) s)" and n: "6 \<le> n"
  shows "defined n val s (with_one_arg argc (Some xs) m s)"
proof (cases "ucast argc = (1 :: i32)")
  case True
  with args body show ?thesis
    by (cases xs) (simp_all add: with_one_arg_def nth_arg_def)
next
  case False
  have "defined n (\<lambda>_ _. False) s (pup_arity_check 1 (ucast argc) s)"
    by (rule defined_arity_fails) (use False n in auto)
  from defined_then [OF this, of n] show ?thesis
    unfolding with_one_arg_def by simp
qed

lemma defined_object_raise:
  assumes ok: "typed s" and args: "ucast argc = (1 :: i32) \<longrightarrow> xs \<noteq> []" "set xs \<subseteq> dom (objects s)"
  shows "defined 6 val s (pup_object_raise p argc (Some xs) s)"
  unfolding pup_object_raise_def
proof (rule defined_one_arg [OF args(1)])
  assume "ucast argc = (1 :: i32)"
  with args obtain ob where ob: "objects s (hd xs) = Some ob"
    by (cases xs) auto
  show "defined 6 val s (andthen (pup_object_kindof (hd xs) (class_exception (env s)) s) (\<lambda>is_exc s.
      if is_exc then pup_raise (hd xs) s
      else andthen (pup_is_string (hd xs) s) (\<lambda>is_str s.
        if is_str then andthen (pup_string_value_unsafe (hd xs) s) (\<lambda>v s. pup_raise_runtimeerror v s)
        else pup_raise_runtimeerror (Some ''exception class/object expected'') s)))"
  proof (rule defined_then [OF defined_kindof [OF ok ob, of 0]], goal_cases)
    case (2 is_exc s')
    then obtain ob' where ob': "objects s' (hd xs) = Some ob'"
      using obj_grows [of s s' "hd xs"] ob by blast
    have "defined 6 val s' (andthen (pup_is_string (hd xs) s') (\<lambda>is_str s.
        if is_str then andthen (pup_string_value_unsafe (hd xs) s) (\<lambda>v s. pup_raise_runtimeerror v s)
        else pup_raise_runtimeerror (Some ''exception class/object expected'') s))"
      using string_body [OF 2(1) ob'] ob'
      by (auto simp: pup_is_string_def pup_object_instanceof_def pup_string_value_unsafe_def
          defined_raise_runtimeerror)
    then show ?case
      by (auto intro: defined_raise [OF 2(1)])
  qed simp
qed simp

lemma defined_printed: "typed s \<Longrightarrow> defined n val s (Ret NULL (s\<lparr>stdout := out\<rparr>))"
proof (rule defined_more [OF defined_returns [OF printed_sound, where k = 0]])
  show "\<exists>x s'. Ret NULL (s\<lparr>stdout := out\<rparr>) = Ret x s' \<and> uses_at_most 0 s s' \<and> value_ok s' x \<and>
      (\<forall>ss'. interned s' ss' \<longrightarrow> (\<exists>ss. interned s ss \<and> length ss' \<le> length ss + 0))"
    using same_symbols [where s' = "s\<lparr>stdout := out\<rparr>" and s = s and k = 0] uses_none [of "s\<lparr>stdout := out\<rparr>" s 0] spare_heap [of "s\<lparr>stdout := out\<rparr>" s]
    by simp
qed simp_all

lemma defined_puts:
  assumes ok: "typed s" and args: "ucast argc = (1 :: i32) \<longrightarrow> xs \<noteq> []" "set xs \<subseteq> dom (objects s)"
    and full: "\<not> (ucast argc = (1 :: i32) \<and> textless s (hd xs))"
  shows "defined 8 val s (pup_puts p argc (Some xs) s)"
proof -
  have "defined 8 val s (with_one_arg argc (Some xs) (\<lambda>a s. andthen (pup_stringify a s) (\<lambda>x s.
      case x of None \<Rightarrow> Undef | Some line \<Rightarrow> Ret NULL (s\<lparr>stdout := stdout s @ [line]\<rparr>))) s)"
  proof (rule defined_one_arg [OF args(1)])
    assume one: "ucast argc = (1 :: i32)"
    with args obtain ob where ob: "objects s (hd xs) = Some ob"
      by (cases xs) auto
    have "\<not> textless s (hd xs)"
      using full one by blast
    from defined_stringify [OF ok ob this]
    show "defined 8 val s (andthen (pup_stringify (hd xs) s) (\<lambda>x s.
        case x of None \<Rightarrow> Undef | Some line \<Rightarrow> Ret NULL (s\<lparr>stdout := stdout s @ [line]\<rparr>)))"
      by (rule defined_then) (auto simp: defined_printed)
  qed simp
  then show ?thesis
    by (simp add: pup_puts_def with_one_arg_def)
qed

lemma defined_exception_initialize:
  assumes ok: "typed s" and p: "obj p s" and args: "ucast argc = (1 :: i32) \<longrightarrow> xs \<noteq> []" "set xs \<subseteq> dom (objects s)"
  shows "defined 6 val s (pup_exception_initialize p argc (Some xs) s)"
proof (cases "argc = 1")
  case True
  with args obtain a where a: "nth_arg (Some xs) 0 = Some a" "obj a s"
    by (cases xs) (auto simp: nth_arg_def)
  have "defined 6 any s (pup_exception_message_set p a s)"
    unfolding pup_exception_message_set_def
  proof (rule defined_then [OF defined_str_to_sym [OF ok]], goal_cases)
    case (2 k s')
    have "value_ok s' a"
      using obj_grows [OF 2(2) a(2)] by (simp add: value_ok_def)
    from defined_more [OF defined_iv_set [OF 2(1) obj_grows [OF 2(2) p] this]] show ?case
      by simp
  qed simp
  then have "defined 6 val s (andthen (pup_exception_message_set p a s) (\<lambda>_ s. Ret NULL s))"
    by (rule defined_then) (simp_all add: defined_Ret)
  with True a show ?thesis
    by (simp add: pup_exception_initialize_def)
next
  case False
  have "defined 6 any s (pup_arity_check 1 (ucast argc) s)"
    using defined_arity_fails [of 1 "ucast argc" 6] by (cases "1 = (ucast argc :: i32)") (auto simp: defined_Ret)
  then have "defined 6 val s (andthen (pup_arity_check 1 (ucast argc) s) (\<lambda>_ s. Ret NULL s))"
    by (rule defined_then) (simp_all add: defined_Ret)
  with False show ?thesis
    by (simp add: pup_exception_initialize_def defined_Ret)
qed

lemma fixnum_hook_error:
  "errors_ok s \<Longrightarrow> fixnum_allocate_instance cl s =
     andthen (make_error ''you can't call 'new' on Fixnum'' s) (\<lambda>e s. pup_raise e s)"
  by (auto simp: fixnum_allocate_instance_def make_error_def runtimeerror_via_def errors_ok_def create_via_object)

lemma defined_allocate:
  assumes ok: "typed s" and c: "class_at s p \<noteq> None"
  shows "defined 6 val s (pup_class_allocate_instance p s)"
proof -
  note mem = typedD(2) [OF ok]
  obtain c where c: "class_at s p = Some c"
    using c by blast
  then have "p \<noteq> NULL"
    using mem heap_wf_tapes(4) [of s] by (auto simp: class_at_Some memory_ok_def)
  with c have run: "pup_class_allocate_instance p s =
      (case allocate_instance c of None \<Rightarrow> Aborted | Some a \<Rightarrow> run_alloc_fn fixnum_allocate_instance a p s)"
    by (simp add: pup_class_allocate_instance_def allocate_via_def)
  show ?thesis
  proof (cases "allocate_instance c")
    case None
    with run show ?thesis by (simp add: defined_Aborted)
  next
    case (Some a)
    have "defined 6 val s (pup_class_allocate_instance p s)" if a: "a \<noteq> Alloc_fixnum"
    proof -
      obtain b where b: "plenty 1 s \<Longrightarrow> \<exists>q s'. pup_class_allocate_instance p s = Ret q s' \<and> obj_step s q p b s'"
        using run Some a object_allocate_step [OF mem, of p] class_allocate_step [OF mem, of p]
          string_allocate_step [OF mem, of p]
        by (cases a) (auto simp: run_alloc_fn_def)
      have "defined 1 val s (pup_class_allocate_instance p s)"
        by (rule defined_object [OF class_allocate_sound [OF ok] b])
      then show ?thesis
        by (rule defined_more) simp
    qed
    moreover
    have "defined 6 val s (fixnum_allocate_instance p s)"
      by (rule defined_error, simp, subst fixnum_hook_error, assumption, rule raise_made_error)
    then have "defined 6 val s (pup_class_allocate_instance p s)" if "a = Alloc_fixnum"
      using run Some that by (simp add: run_alloc_fn_def)
    ultimately show ?thesis
      by blast
  qed
qed

lemma string_of_NULL:
  assumes "fit 1 s"
  shows "pup_string_new_cstr None s = Undef"
proof -
  obtain p junk t where m: "malloc (mallocs s) = (p, junk, t)"
    by (cases "malloc (mallocs s)")
  have "plenty (Suc 0) s"
    using fitD(2) [OF assms] by simp
  from plenty_malloc [OF this m] m show ?thesis
    by (simp add: pup_string_new_cstr_def)
qed

text \<open>Two objects of one class are both fixnums, or neither is.\<close>

abbreviation same_class_objs :: "rt \<Rightarrow> ptr \<Rightarrow> ptr \<Rightarrow> bool" where
  "same_class_objs s p q \<equiv> map_option otype (objects s p) = map_option otype (objects s q)"

lemma both_fixnums:
  assumes ok: "typed s" and p: "fixnum_at s p = Some x" and q: "objects s q = Some ob"
    and same: "same_class_objs s p q"
  shows "\<exists>y. fixnum_at s q = Some y"
proof -
  obtain ob' where ob': "objects s p = Some ob'" "body ob' = FixnumBody x"
    using p by (auto simp: fixnum_at_Some)
  have "otype ob' = otype ob"
    using ob'(1) q same by simp
  then have "fits (hook_of s (otype ob)) (FixnumBody x)" "fits (hook_of s (otype ob)) (body ob)"
    using heap_typedD(1) [OF typedD(5) [OF ok]] ob' q by fastforce+
  then have "\<exists>y. body ob = FixnumBody y"
    by (auto simp: fits_def split: option.splits alloc_fn.splits)
  with q show ?thesis
    by (auto simp: fixnum_at_def)
qed

lemma defined_fixnum_compare:
  assumes ok: "typed s" and p: "obj p s" and args: "ucast argc = (1 :: i32) \<longrightarrow> xs \<noteq> []" "set xs \<subseteq> dom (objects s)"
    and good: "\<not> (ucast argc = (1 :: i32) \<and> same_class_objs s p (hd xs) \<and> fixnum_at s p = None)"
  shows "defined 6 val s (fixnum_compare cmp p argc (Some xs) s)"
  unfolding fixnum_compare_def
proof (rule defined_one_arg [OF args(1)])
  assume one: "ucast argc = (1 :: i32)"
  with args obtain rob where rob: "objects s (hd xs) = Some rob"
    by (cases xs) auto
  obtain tob where tob: "objects s p = Some tob"
    using p by blast
  show "defined 6 val s (deref (objects s p) (\<lambda>tob. deref (objects s (hd xs)) (\<lambda>rob.
       if otype tob \<noteq> otype rob then Ret (object_false (env s)) s
       else
         deref (fixnum_at s p) (\<lambda>l. deref (fixnum_at s (hd xs)) (\<lambda>r.
           Ret (truth (cmp l r) s) s)))))"
  proof (cases "otype tob = otype rob")
    case True
    then obtain x where x: "fixnum_at s p = Some x"
      using good one tob rob by auto
    from both_fixnums [OF ok x rob] True tob rob obtain y where "fixnum_at s (hd xs) = Some y"
      by auto
    with True x tob rob truth_ok [OF ok] show ?thesis
      by (simp add: defined_Ret)
  next
    case False
    with tob rob truth_ok [OF ok, of False] show ?thesis
      by (simp add: defined_Ret truth_def)
  qed
qed simp

lemma defined_fixnum_plus:
  assumes ok: "typed s" and p: "obj p s" and args: "ucast argc = (1 :: i32) \<longrightarrow> xs \<noteq> []" "set xs \<subseteq> dom (objects s)"
    and good: "ucast argc = (1 :: i32) \<longrightarrow> same_class_objs s p (hd xs) \<longrightarrow>
      (\<exists>x y v. fixnum_at s p = Some x \<and> fixnum_at s (hd xs) = Some y \<and> int_add x y = Some v)"
  shows "defined 6 val s (pup_fixnum_plus p argc (Some xs) s)"
  unfolding pup_fixnum_plus_def
proof (rule defined_one_arg [OF args(1)])
  assume one: "ucast argc = (1 :: i32)"
  with args obtain rob where rob: "objects s (hd xs) = Some rob"
    by (cases xs) auto
  obtain tob where tob: "objects s p = Some tob"
    using p by blast
  show "defined 6 val s (deref (objects s p) (\<lambda>tob. deref (objects s (hd xs)) (\<lambda>rob.
       if otype tob \<noteq> otype rob then
         andthen (pup_type_name (otype rob) s) (\<lambda>n s.
           raise_runtimeerrorf (n @ '' can't be coerced into Fixnum'') s)
       else
         deref (fixnum_at s p) (\<lambda>l. deref (fixnum_at s (hd xs)) (\<lambda>r.
         deref (int_add l r) (\<lambda>v. pup_fixnum_create v s))))))"
  proof (cases "otype tob = otype rob")
    case True
    with good one tob rob obtain x y v where
      v: "fixnum_at s p = Some x" "fixnum_at s (hd xs) = Some y" "int_add x y = Some v"
      by auto
    have "defined 1 val s (pup_fixnum_create v s)"
      by (rule defined_object [OF fixnum_create_sound [OF ok]])
        (use fixnum_create_step [OF typedD(2) [OF ok], of v] in blast)
    from defined_more [OF this, of 6] True tob rob v show ?thesis
      by simp
  next
    case False
    have "defined 6 val s (andthen (pup_type_name (otype rob) s) (\<lambda>n s.
           raise_runtimeerrorf (n @ '' can't be coerced into Fixnum'') s))"
      by (rule defined_then [OF defined_type_name(2) [OF ok rob, of 0]], simp, rule defined_raise_runtimeerror, simp)
    with False tob rob show ?thesis
      by simp
  qed
qed simp

lemma defined_undefined_method:
  assumes ok: "typed s" and p: "obj p s"
  shows "defined 7 val s (undefined_method p k s)"
proof -
  obtain ss xs where "sym_table_is (sym_tab s) xs ss"
    using typedD(1) [OF ok] by (auto simp: rt_ok_def interned_def)
  moreover have "unat (ucast k :: i32) < 2 ^ LENGTH(32)"
    by (rule unsigned_less)
  ultimately have "\<exists>x. pup_env_sym_to_str (ucast k) s = Ret x s"
    using pup_sym_to_str_spec [of "sym_tab s" xs ss "unat (ucast k :: i32)"] by (simp add: pup_env_sym_to_str_def)
  then obtain x where x: "pup_env_sym_to_str (ucast k) s = Ret x s"
    by blast
  have "defined 1 (\<lambda>x _. x \<noteq> None) s (sym_name (ucast k) s)"
    unfolding sym_name_def x andthen.simps by (cases x; simp only: option.case; rule defined_strdup [OF ok], simp)
  then show ?thesis
    unfolding undefined_method_def
  proof (rule defined_then, goal_cases)
    case (2 nm s')
    then obtain ob where ob: "objects s' p = Some ob"
      using obj_grows [OF 2(2) p] by blast
    have "defined 6 val s' (andthen (pup_object_type_name p s') (\<lambda>n s. case nm of None \<Rightarrow> Undef | Some m \<Rightarrow>
        pup_raise_runtimeerror (Some (buffered 256 (''undefined method `'' @ m @ [CHR 0x27] @ '' for '' @ n))) s))"
      by (rule defined_then [OF defined_type_name(1) [OF 2(1) ob, of 0]])
        (use 2(3) defined_raise_runtimeerror(1) [of 6] in auto)
    then show ?case by simp
  qed simp
qed

section \<open>Where a built-in method goes wrong\<close>

text \<open>
  What each method gets wrong: \<open>allocate\<close> and the \<open>to_s\<close> of a class take any receiver for a class, and
  a class that \<open>new\<close> made has no name; \<open>puts\<close> copies the text of a string that has none; a fixnum
  operation takes two objects of one class for fixnums, and a sum may overflow.
\<close>

definition goes_wrong :: "rt \<Rightarrow> pup_method \<Rightarrow> ptr \<Rightarrow> i64 \<Rightarrow> ptr list \<Rightarrow> bool" where
  "goes_wrong s f p argc xs \<longleftrightarrow>
     (case f of
        Object_allocate \<Rightarrow> class_at s p = None
      | Class_to_s \<Rightarrow> (case class_at s p of None \<Rightarrow> True | Some c \<Rightarrow> name c = None)
      | Object_puts \<Rightarrow> ucast argc = (1 :: i32) \<and> textless s (hd xs)
      | Fixnum_plus \<Rightarrow> ucast argc = (1 :: i32) \<and> same_class_objs s p (hd xs) \<and>
          (case (fixnum_at s p, fixnum_at s (hd xs)) of
             (Some x, Some y) \<Rightarrow> int_add x y = None
           | _ \<Rightarrow> True)
      | Fixnum_op_equals \<Rightarrow> ucast argc = (1 :: i32) \<and> same_class_objs s p (hd xs) \<and> fixnum_at s p = None
      | Fixnum_op_lessthan \<Rightarrow> ucast argc = (1 :: i32) \<and> same_class_objs s p (hd xs) \<and> fixnum_at s p = None
      | _ \<Rightarrow> False)"

text \<open>\<open>Class.new\<close> and compiled code run other methods.\<close>

definition runs_others :: "pup_method \<Rightarrow> bool" where
  "runs_others f \<longleftrightarrow> (case f of Class_new \<Rightarrow> True | Compiled n \<Rightarrow> True | _ \<Rightarrow> False)"

lemma method_defined:
  assumes ok: "typed s" and p: "obj p s" and args: "ucast argc = (1 :: i32) \<longrightarrow> xs \<noteq> []" "set xs \<subseteq> dom (objects s)"
    and f: "\<not> runs_others f" and good: "\<not> goes_wrong s f p argc xs"
  shows "defined 9 val s (call_method code g f p argc (Some xs) s)"
proof (cases f)
  case Object_op_equals
  have "defined 9 val s (pup_object_op_equals p argc (Some xs) s)"
    unfolding pup_object_op_equals_def
    by (rule defined_one_arg [OF args(1)]) (simp_all add: defined_Ret truth_ok [OF ok])
  with Object_op_equals show ?thesis
    by (simp add: call_method_def)
next
  case Object_allocate
  with good defined_more [OF defined_allocate [OF ok], of p 9] show ?thesis
    by (simp add: call_method_def pup_object_allocate_def goes_wrong_def)
next
  case Class_to_s
  with good obtain c nm where "class_at s p = Some c" "name c = Some nm"
    by (auto simp: goes_wrong_def split: option.splits)
  with Class_to_s defined_more [OF defined_string_new [OF ok], of 9 nm] show ?thesis
    by (simp add: call_method_def pup_class_to_s_def)
next
  case Object_puts
  with good have "\<not> (ucast argc = (1 :: i32) \<and> textless s (hd xs))"
    by (simp add: goes_wrong_def)
  from defined_more [OF defined_puts [OF ok args this], of 9 p] Object_puts show ?thesis
    by (simp add: call_method_def)
next
  case Fixnum_plus
  with good have "ucast argc = (1 :: i32) \<longrightarrow> same_class_objs s p (hd xs) \<longrightarrow>
      (\<exists>x y v. fixnum_at s p = Some x \<and> fixnum_at s (hd xs) = Some y \<and> int_add x y = Some v)"
    by (auto simp: goes_wrong_def split: option.splits)
  from defined_more [OF defined_fixnum_plus [OF ok p args this], of 9] Fixnum_plus show ?thesis
    by (simp add: call_method_def)
next
  case Fixnum_op_equals
  with good have "\<not> (ucast argc = (1 :: i32) \<and> same_class_objs s p (hd xs) \<and> fixnum_at s p = None)"
    by (simp add: goes_wrong_def)
  from defined_more [OF defined_fixnum_compare [OF ok p args this], of 9 "(=)"] Fixnum_op_equals show ?thesis
    by (simp add: call_method_def pup_fixnum_op_equals_def)
next
  case Fixnum_op_lessthan
  with good have "\<not> (ucast argc = (1 :: i32) \<and> same_class_objs s p (hd xs) \<and> fixnum_at s p = None)"
    by (simp add: goes_wrong_def)
  from defined_more [OF defined_fixnum_compare [OF ok p args this], of 9 "(<s)"] Fixnum_op_lessthan show ?thesis
    by (simp add: call_method_def pup_fixnum_op_lessthan_def)
next
  case Object_raise
  with defined_more [OF defined_object_raise [OF ok args], of 9 p] show ?thesis
    by (simp add: call_method_def)
next
  case Exception_initialize
  with defined_more [OF defined_exception_initialize [OF ok p args], of 9] show ?thesis
    by (simp add: call_method_def)
next
  case Exception_message
  with defined_more [OF defined_message_get [OF ok p], of 9] show ?thesis
    by (simp add: call_method_def pup_exception_message_def)
qed (use f in \<open>simp_all add: call_method_def pup_object_initialize_def defined_Ret runs_others_def\<close>)

lemma one_arg_run:
  "ucast argc = (1 :: i32) \<Longrightarrow> xs \<noteq> [] \<Longrightarrow> with_one_arg argc (Some xs) m s = m (hd xs) s"
  by (cases xs) (simp_all add: with_one_arg_def nth_arg_def)

lemma method_wrong:
  assumes ok: "typed s" and room: "fit 1 s" and p: "obj p s"
    and args: "ucast argc = (1 :: i32) \<longrightarrow> xs \<noteq> []" "set xs \<subseteq> dom (objects s)"
    and bad: "goes_wrong s f p argc xs"
  shows "call_method code g f p argc (Some xs) s = Undef"
proof (cases f)
  case Object_allocate
  with bad p typedD(2) [OF ok] heap_wf_tapes(4) [of s] show ?thesis
    by (auto simp: goes_wrong_def call_method_def pup_object_allocate_def pup_class_allocate_instance_def
        allocate_via_def abort_on_def memory_ok_def)
next
  case Class_to_s
  with bad string_of_NULL [OF room] show ?thesis
    by (simp add: goes_wrong_def call_method_def pup_class_to_s_def deref_def split: option.splits)
next
  case Object_puts
  with bad have one: "ucast argc = (1 :: i32)" "textless s (hd xs)"
    by (simp_all add: goes_wrong_def)
  with args(1) obtain a ys where "xs = a # ys"
    by (cases xs) auto
  with Object_puts one show ?thesis
    by (simp add: call_method_def pup_puts_def nth_arg_def stringify_textless)
next
  case Fixnum_plus
  with bad have "ucast argc = (1 :: i32)" "same_class_objs s p (hd xs)"
      "case (fixnum_at s p, fixnum_at s (hd xs)) of (Some x, Some y) \<Rightarrow> int_add x y = None | _ \<Rightarrow> True"
    by (simp_all add: goes_wrong_def)
  with Fixnum_plus args(1) show ?thesis
    by (auto simp: call_method_def pup_fixnum_plus_def one_arg_run deref_def split: option.splits)
next
  case Fixnum_op_equals
  with bad args(1) show ?thesis
    by (auto simp: goes_wrong_def call_method_def pup_fixnum_op_equals_def fixnum_compare_def one_arg_run
        deref_def split: option.splits)
next
  case Fixnum_op_lessthan
  with bad args(1) show ?thesis
    by (auto simp: goes_wrong_def call_method_def pup_fixnum_op_lessthan_def fixnum_compare_def one_arg_run
        deref_def split: option.splits)
qed (use bad in \<open>simp_all add: goes_wrong_def\<close>)

text \<open>
  The bootstrap gives the methods of \<open>Class\<close> to \<open>Object\<close>, so that every object finds the \<open>to_s\<close> of
  classes: sent to an object that is no class, as \<open>true\<close>, it reads behind it.
\<close>

lemma to_s_of_true_undefined:
  assumes "booted m ss s"
  shows "invoke_named (pup_invoke code (Suc d)) (object_true (env s)) ''to_s'' argc argv s = Undef"
proof -
  have w: "world m ss (env s) (initial_classes 9 exception_methods (env s)) (initial_objects (env s)) s"
    using assms by (simp add: booted_def)
  let ?W = "initial_classes 9 exception_methods (env s)"
  let ?sp = "plain_spec (env s) (root_object (env s)) ''TrueClass'' (class_true (env s))"
  have sp: "?sp \<in> set ?W" "object_spec 9 (env s) \<in> set ?W"
    by (simp_all add: initial_classes_def)
  obtain ob where ob: "objects s (object_true (env s)) = Some ob" "otype ob = class_true (env s)"
    using w by (auto simp: world_def initial_objects_def)
  have "hook_of s (class_true (env s)) = Some Alloc_object"
    using world_hook [OF w sp(1)] by (simp add: spec_defs)
  with heap_typedD(1) [OF world_parts(8) [OF w] ob(1)] ob(2) have "body ob = PlainBody"
    by (simp add: fits_def)
  with ob(1) have none: "class_at s (object_true (env s)) = None"
    by (simp add: class_at_def the_class_def)
  have "first_in (\<lambda>sp. map_of (spec_methods sp) ''to_s'') [?sp, object_spec 9 (env s)] = Some Class_to_s"
    by (simp add: spec_defs object_methods_def)
  from world_finds [OF w sp(1) _ _ _ this] sp have "finds s ss (class_true (env s)) ''to_s'' Class_to_s"
    by (simp add: spec_defs)
  with invoke_named_found [OF world_parts(1,4) [OF w] ob(1), of "''to_s''" Class_to_s] ob(2) none show ?thesis
    by (simp add: call_method_def pup_class_to_s_def)
qed

section \<open>Properties\<close>

text \<open>C6: Where dispatch is undefined.  Send any message to an object of a typed runtime with memory and
  symbols for nine allocations, with objects for arguments, as many as \<open>argc\<close> says.  If no class has
  the method, the call is defined and comes to an end.  If the method found is a built-in one that does
  not run others, the call comes to an end, and it is undefined behaviour exactly when the method goes
  wrong: \<open>allocate\<close> or the \<open>to_s\<close> of a class on what is no class, or on a class without a name; \<open>puts\<close>
  of a string without text; a fixnum operation on two objects of one class that are no fixnums, or a
  sum that overflows.\<close>

theorem dispatch_undefined_exactly:
  assumes "fit 9 s" and "objects s p = Some ob" and "mro s (otype ob) cs"
    and "ucast argc = (1 :: i32) \<longrightarrow> xs \<noteq> []" and "set xs \<subseteq> dom (objects s)"
  shows "case first_in (\<lambda>c. own_method s c k) cs of
      None \<Rightarrow> pup_invoke code (Suc d) p k argc (Some xs) s \<notin> {Undef, Diverged}
    | Some f \<Rightarrow> \<not> runs_others f \<longrightarrow>
        pup_invoke code (Suc d) p k argc (Some xs) s \<noteq> Diverged \<and>
        (pup_invoke code (Suc d) p k argc (Some xs) s = Undef \<longleftrightarrow> goes_wrong s f p argc xs)"
proof -
  have ok: "typed s" and p: "obj p s"
    using fitD(1) [OF assms(1)] assms(2) by blast+
  have "cs \<noteq> []"
    using class_of_object [OF ok assms(2)] assms(3) chain_unique by (fastforce simp: mro_def)
  moreover have "p \<noteq> NULL"
    using typedD(2) [OF ok] assms(2) heap_wf_tapes(4) [of s] by (auto simp: memory_ok_def)
  ultimately have run: "pup_invoke code (Suc d) p k argc (Some xs) s =
    (case first_in (\<lambda>c. own_method s c k) cs of
       None \<Rightarrow> undefined_method p k s
     | Some f \<Rightarrow> call_method code (pup_invoke code d) f p argc (Some xs) s)"
    by (intro invoke_found [OF typedD(4) [OF ok] assms(2) _ assms(3)])
  have fit: "fit 7 s" "fit 1 s"
    by (rule fit_less [OF assms(1)], simp)+
  show ?thesis
  proof (cases "first_in (\<lambda>c. own_method s c k) cs")
    case None
    with defined_fit [OF defined_undefined_method [OF ok p] fit(1)] run show ?thesis
      by simp
  next
    case (Some f)
    note wrong = method_wrong [OF ok fit(2) p assms(4,5)]
      and right = defined_fit [OF method_defined [OF ok p assms(4,5)] assms(1)]
    show ?thesis
      using Some run wrong [of f code "pup_invoke code d"] right [of f code "pup_invoke code d"]
      by (cases "goes_wrong s f p argc xs") simp_all
  qed
qed

text \<open>After the bootstrap, \<open>puts\<close> of the class \<open>String\<close> is defined.\<close>

lemma booted_puts:
  assumes "booted m ss s"
  shows "finds s ss (class_class (env s)) ''puts'' Object_puts"
    and "map_option otype (objects s (class_object (env s))) = Some (class_class (env s))"
    and "\<exists>ob. objects s (class_string (env s)) = Some ob \<and> otype ob \<noteq> class_string (env s)"
proof -
  have w: "world m ss (env s) (initial_classes 9 exception_methods (env s)) (initial_objects (env s)) s"
    using assms by (simp add: booted_def)
  let ?W = "initial_classes 9 exception_methods (env s)"
  have sp: "root_class (env s) \<in> set ?W" "object_spec 9 (env s) \<in> set ?W" "?W ! 2 \<in> set ?W"
    by (simp_all add: initial_classes_def)
  have "first_in (\<lambda>sp. map_of (spec_methods sp) ''puts'') [root_class (env s), object_spec 9 (env s)] = Some Object_puts"
    by (simp add: spec_defs object_methods_def)
  from world_finds [OF w sp(1) _ _ _ this] sp show "finds s ss (class_class (env s)) ''puts'' Object_puts"
    by (simp add: spec_defs)
  show "map_option otype (objects s (class_object (env s))) = Some (class_class (env s))"
    using world_parts(7) [OF w sp(2)] by (auto simp: shows_class_def class_shown_def spec_defs)
  have "class_string (env s) \<noteq> class_class (env s)"
    using w by (auto simp: world_def initial_classes_def spec_defs)
  then show "\<exists>ob. objects s (class_string (env s)) = Some ob \<and> otype ob \<noteq> class_string (env s)"
    using world_parts(7) [OF w sp(3)]
    by (auto simp: shows_class_def class_shown_def spec_defs initial_classes_def)
qed

lemma booted_fit: "booted m ss s \<Longrightarrow> n \<le> m \<Longrightarrow> fit n s"
  unfolding fit_def using booted_typed plenty_less interned_unique
  by (fastforce simp: booted_def world_def)

lemma dispatch_undefined_exactly_witness:
  "achieves (runtime_init demo_os (pup_invoke demo_code 2) demo_process) (\<lambda>_ s. \<exists>ss. interned s ss \<and>
     pup_invoke demo_code 9 (class_object (env s)) (scast (symbol_in ss ''puts'')) 1
       (Some [class_string (env s)]) s \<notin> {Undef, Diverged})"
proof -
  have "achieves (runtime_init demo_os (pup_invoke demo_code 2) demo_process)
      (\<lambda>_ s. \<exists>ss. booted 15 ss s \<and> typed s \<and> creation_ready s ss \<and> errors_ok s)"
    using runtime_init_step [OF demo_process_fresh, of demo_os demo_code 0]
    by (simp add: demo_os_grants numeral_2_eq_2)
  then show ?thesis
  proof (rule achieves_weaken, elim exE conjE)
    fix u s ss
    assume s: "booted 15 ss s"
    have fit: "fit 9 s"
      by (rule booted_fit [OF s]) simp
    obtain cs where cs: "mro s (class_class (env s)) cs"
        "first_in (\<lambda>c. own_method s c (scast (symbol_in ss ''puts''))) cs = Some Object_puts"
      using booted_puts(1) [OF s] by (auto simp: finds_def)
    obtain ob so where ob: "objects s (class_object (env s)) = Some ob" "otype ob = class_class (env s)"
        and so: "objects s (class_string (env s)) = Some so" "otype so \<noteq> class_string (env s)"
      using booted_puts(2,3) [OF s] by auto
    have ss: "interned s ss"
      using s by (simp add: booted_def world_def)
    have "\<not> goes_wrong s Object_puts (class_object (env s)) 1 [class_string (env s)]"
      using so by (simp add: goes_wrong_def textless_def)
    with dispatch_undefined_exactly [OF fit ob(1), where cs = cs and argc = 1 and xs = "[class_string (env s)]"
        and k = "scast (symbol_in ss ''puts'')" and code = demo_code and d = 8] cs ob(2) so(1) ss
    show "\<exists>ss. interned s ss \<and> pup_invoke demo_code 9 (class_object (env s)) (scast (symbol_in ss ''puts''))
        1 (Some [class_string (env s)]) s \<notin> {Undef, Diverged}"
      by (intro exI [of _ ss]) (auto simp: runs_others_def)
  qed
qed

end
