(* ===== verification/Shared_Lists.thy ===== *)
theory Shared_Lists
  imports Collect
begin

text \<open>
  The lists that threads share: the full regions (heap.c) and the full segments of references
  (gc.c).  Mutators push, the collector alone takes from the front, each with a loop around a
  compare-and-swap of the head.  Here the threads are interleaved: a thread is at one of the atomic
  accesses to shared memory in these loops, and a step is one access by one thread.
\<close>

section \<open>The accesses\<close>

text \<open>
  The accesses to one of the lists, the limit of its loop that pushes (\<open>None\<close> where there is none), and
  for the statements about it where its head is (\<open>stack_top\<close>), the next of each node (\<open>nexts\<close>), and
  in which memories it is there (\<open>ready\<close>).
\<close>

record shared_list =
  load_head :: "rt \<Rightarrow> (ptr, rt) outcome"
  store_next :: "ptr \<Rightarrow> ptr \<Rightarrow> rt \<Rightarrow> (unit, rt) outcome"
  load_next :: "ptr \<Rightarrow> rt \<Rightarrow> (ptr, rt) outcome"
  swap_head :: "ptr \<Rightarrow> ptr \<Rightarrow> rt \<Rightarrow> (bool, rt) outcome"
  turns :: "nat option"
  stack_top :: "rt \<Rightarrow> ptr"
  nexts :: "rt \<Rightarrow> ptr \<rightharpoonup> ptr"
  ready :: "rt \<Rightarrow> bool"

definition region_stack :: shared_list where
  "region_stack = \<lparr>load_head = global_heap_head, store_next = set_region_next, load_next = load_region_next,
     swap_head = swap_heap_region_head, turns = Some 1000, stack_top = (\<lambda>s. region_list (heap s)),
     nexts = (\<lambda>s p. map_option region_next (regions (heap s) p)), ready = (\<lambda>_. True)\<rparr>"

definition segment_stack :: shared_list where
  "segment_stack = \<lparr>load_head = get_ref_queue_head, store_next = pup_refqueuesegment_set_next,
     load_next = pup_refqueuesegment_get_next, swap_head = compare_and_swap_ref_queue_head, turns = None,
     stack_top = (\<lambda>s. case gc s of None \<Rightarrow> NULL | Some g \<Rightarrow> reference_queue_head g),
     nexts = (\<lambda>s p. map_option next_segment (segments s p)), ready = (\<lambda>s. gc s \<noteq> None)\<rparr>"

text \<open>
  Where a thread is.  To push \<open>p\<close> it loads the head, stores it in \<open>p\<close> and swaps; \<open>limit\<close> is what is
  left of the limit of \<open>pup_heap_add_to_global_heap\<close>, and \<open>None\<close> where there is none.  To steal, it
  loads the head, loads the next of a head that is not \<open>NULL\<close>, and swaps; \<open>Got\<close> holds the result.
\<close>

datatype pc =
    Idle
  | Push ptr "nat option"
  | Link ptr "nat option" ptr
  | Swap_in ptr "nat option" ptr
  | Steal
  | Step_over ptr
  | Swap_out ptr ptr
  | Got ptr

definition swap_failed :: "ptr \<Rightarrow> nat option \<Rightarrow> rt \<Rightarrow> (pc, rt) outcome" where
  "swap_failed p limit s =
     (case limit of
        None \<Rightarrow> Ret (Push p None) s
      | Some k \<Rightarrow> abort_on (k - 1 = 0) (Ret (Push p (Some (k - 1))) s))"

fun thread_step :: "shared_list \<Rightarrow> pc \<Rightarrow> rt \<Rightarrow> (pc, rt) outcome" where
  "thread_step L Idle s = Ret Idle s"
| "thread_step L (Push p limit) s = andthen (load_head L s) (\<lambda>old s. Ret (Link p limit old) s)"
| "thread_step L (Link p limit old) s =
     andthen (store_next L p old s) (\<lambda>_ s. Ret (Swap_in p limit old) s)"
| "thread_step L (Swap_in p limit old) s =
     andthen (swap_head L old p s) (\<lambda>ok s. if ok then Ret Idle s else swap_failed p limit s)"
| "thread_step L Steal s =
     andthen (load_head L s) (\<lambda>r s. Ret (if r = NULL then Got NULL else Step_over r) s)"
| "thread_step L (Step_over r) s = andthen (load_next L r s) (\<lambda>nx s. Ret (Swap_out r nx) s)"
| "thread_step L (Swap_out r nx) s =
     andthen (swap_head L r nx s) (\<lambda>ok s. Ret (if ok then Got r else Steal) s)"
| "thread_step L (Got r) s = Ret (Got r) s"

text \<open>A thread that runs alone for \<open>n\<close> steps.\<close>

fun run_alone :: "shared_list \<Rightarrow> nat \<Rightarrow> pc \<Rightarrow> rt \<Rightarrow> (pc, rt) outcome" where
  "run_alone L 0 pc s = Ret pc s"
| "run_alone L (Suc n) pc s = andthen (thread_step L pc s) (run_alone L n)"

text \<open>These are the loops of the sequential model: alone, a thread does what they do.\<close>

lemma run_alone_push_region:
  "run_alone region_stack 3 (Push r (Some 1000)) s =
     andthen (pup_heap_add_to_global_heap r s) (\<lambda>_ s. Ret Idle s)"
  by (cases "regions (heap s) r")
    (simp_all add: numeral_3_eq_3 region_stack_def global_heap_head_def set_region_next_def with_region_def
      swap_heap_region_head_def add_to_global_heap_once)

lemma run_alone_push_segment:
  assumes "gc s = Some g" and "segments s p = Some sg"
  shows "run_alone segment_stack 3 (Push p None) s =
    andthen (add_segment_to_global_queue p s) (\<lambda>_ s. Ret Idle s)"
  using assms
  by (simp add: numeral_3_eq_3 segment_stack_def get_ref_queue_head_def pup_refqueuesegment_set_next_def
      with_segment_def compare_and_swap_ref_queue_head_def add_segment_once)

section \<open>Threads\<close>

text \<open>
  Memory and the place of each thread.  A thread that is idle may begin to push a node nobody has:
  one that is not on the list and in no thread's hands.  The collector may begin to steal when it
  is idle or done with what it got, and may let go of it (it frees it).  All other work of a thread
  (\<open>elsewhere\<close>: allocation, new nodes, freed nodes) leaves the head and the next of the nodes that are
  on the list or about to be on it.
\<close>

record conc =
  mem :: rt
  pcs :: "u64 \<Rightarrow> pc"

fun holding :: "pc \<Rightarrow> ptr set" where
  "holding (Push p limit) = {p}"
| "holding (Link p limit old) = {p}"
| "holding (Swap_in p limit old) = {p}"
| "holding (Got r) = {r} - {NULL}"
| "holding pc = {}"

fun busy :: "pc \<Rightarrow> bool" where
  "busy Idle = False"
| "busy (Got r) = False"
| "busy pc = True"

text \<open>A thread that is pushing \<open>p\<close>.\<close>

fun pushing :: "ptr \<Rightarrow> nat option \<Rightarrow> pc \<Rightarrow> bool" where
  "pushing p limit (Push q l) \<longleftrightarrow> q = p \<and> l = limit"
| "pushing p limit (Link q l old) \<longleftrightarrow> q = p \<and> l = limit"
| "pushing p limit (Swap_in q l old) \<longleftrightarrow> q = p \<and> l = limit"
| "pushing p limit pc \<longleftrightarrow> False"

fun pushes :: "pc \<Rightarrow> ptr option" where
  "pushes (Push p limit) = Some p"
| "pushes (Link p limit old) = Some p"
| "pushes (Swap_in p limit old) = Some p"
| "pushes pc = None"

text \<open>The nodes on the list, from its head on.\<close>

definition listed :: "shared_list \<Rightarrow> rt \<Rightarrow> ptr list \<Rightarrow> bool" where
  "listed L s xs \<longleftrightarrow> chain (nexts L s) id (stack_top L s) xs"

inductive stack_step :: "shared_list \<Rightarrow> u64 \<Rightarrow> conc \<Rightarrow> conc \<Rightarrow> bool" for L collector where
  access: "busy (pcs c t) \<Longrightarrow> thread_step L (pcs c t) (mem c) = Ret pc' s' \<Longrightarrow>
     stack_step L collector c \<lparr>mem = s', pcs = (pcs c)(t := pc')\<rparr>"
| begin_push: "pcs c t = Idle \<Longrightarrow> p \<noteq> NULL \<Longrightarrow> p \<in> dom (nexts L (mem c)) \<Longrightarrow>
     listed L (mem c) xs \<Longrightarrow> p \<notin> set xs \<Longrightarrow> (\<And>u. p \<notin> holding (pcs c u)) \<Longrightarrow>
     stack_step L collector c (c\<lparr>pcs := (pcs c)(t := Push p (turns L))\<rparr>)"
| begin_steal: "\<not> busy (pcs c collector) \<Longrightarrow>
     stack_step L collector c (c\<lparr>pcs := (pcs c)(collector := Steal)\<rparr>)"
| let_go: "pcs c collector = Got r \<Longrightarrow>
     stack_step L collector c (c\<lparr>pcs := (pcs c)(collector := Idle)\<rparr>)"
| elsewhere: "ready L s' \<Longrightarrow> stack_top L s' = stack_top L (mem c) \<Longrightarrow> listed L (mem c) xs \<Longrightarrow>
     (\<And>p t limit. p \<in> set xs \<or> pushing p limit (pcs c t) \<Longrightarrow> nexts L s' p = nexts L (mem c) p) \<Longrightarrow>
     stack_step L collector c (c\<lparr>mem := s'\<rparr>)"

text \<open>What can be reached from the memory \<open>s0\<close> with all threads idle.\<close>

inductive stack_reachable :: "shared_list \<Rightarrow> u64 \<Rightarrow> rt \<Rightarrow> conc \<Rightarrow> bool" for L collector s0 where
  start: "stack_reachable L collector s0 \<lparr>mem = s0, pcs = (\<lambda>_. Idle)\<rparr>"
| step: "stack_reachable L collector s0 c \<Longrightarrow> stack_step L collector c c' \<Longrightarrow>
     stack_reachable L collector s0 c'"

section \<open>The interface of a shared list\<close>

text \<open>What the accesses do to head and nexts.\<close>

locale shared_stack =
  fixes L :: shared_list
  assumes loads_head: "ready L s \<Longrightarrow> load_head L s = Ret (stack_top L s) s"
    and loads_next: "ready L s \<Longrightarrow> nexts L s p = Some n \<Longrightarrow> load_next L p s = Ret n s"
    and stores_next: "ready L s \<Longrightarrow> p \<in> dom (nexts L s) \<Longrightarrow>
      \<exists>s'. store_next L p n s = Ret () s' \<and> ready L s' \<and> nexts L s' = (nexts L s)(p \<mapsto> n) \<and> stack_top L s' = stack_top L s"
    and swaps_head: "ready L s \<Longrightarrow>
      \<exists>s'. swap_head L old new s = Ret (stack_top L s = old) s' \<and> ready L s' \<and> nexts L s' = nexts L s \<and>
        stack_top L s' = (if stack_top L s = old then new else stack_top L s)"

text \<open>
  The invariant: the list ends; a node in a thread's hands is off the list and in no other's; before
  the swap of a push the node points to the head that was loaded; only the collector steals, and
  the head it has seen is still on the list, with the next it has read.
\<close>

definition pc_ok :: "(ptr \<rightharpoonup> ptr) \<Rightarrow> ptr list \<Rightarrow> pc \<Rightarrow> bool" where
  "pc_ok m xs pc \<longleftrightarrow>
     holding pc \<inter> set xs = {} \<and>
     (case pc of
        Push p limit \<Rightarrow> p \<noteq> NULL \<and> p \<in> dom m
      | Link p limit old \<Rightarrow> p \<noteq> NULL \<and> p \<in> dom m
      | Swap_in p limit old \<Rightarrow> p \<noteq> NULL \<and> m p = Some old
      | Step_over r \<Rightarrow> r \<in> set xs
      | Swap_out r nx \<Rightarrow> r \<in> set xs \<and> m r = Some nx
      | _ \<Rightarrow> True)"

fun stealing :: "pc \<Rightarrow> bool" where
  "stealing Steal = True"
| "stealing (Step_over r) = True"
| "stealing (Swap_out r nx) = True"
| "stealing (Got r) = True"
| "stealing pc = False"

definition stack_inv :: "shared_list \<Rightarrow> u64 \<Rightarrow> conc \<Rightarrow> ptr list \<Rightarrow> bool" where
  "stack_inv L collector c xs \<longleftrightarrow>
     listed L (mem c) xs \<and> (\<forall>t. pc_ok (nexts L (mem c)) xs (pcs c t)) \<and>
     (\<forall>t. stealing (pcs c t) \<longrightarrow> t = collector) \<and>
     (\<forall>t u. t \<noteq> u \<longrightarrow> holding (pcs c t) \<inter> holding (pcs c u) = {})"

text \<open>
  What a step is for the abstract stack: nothing, and then nobody lets go of the node it is pushing
  and the collector gets none; or the push of the node its thread was pushing; or the removal of
  the top by the collector, which gets it.
\<close>

definition no_effect :: "pc \<Rightarrow> pc \<Rightarrow> bool" where
  "no_effect pc pc' \<longleftrightarrow>
     (pushes pc \<noteq> None \<longrightarrow> pushes pc' = pushes pc) \<and> (\<forall>r. pc' = Got r \<longrightarrow> r = NULL \<or> pc = Got r)"

definition stack_effect :: "conc \<Rightarrow> conc \<Rightarrow> u64 \<Rightarrow> ptr list \<Rightarrow> ptr list \<Rightarrow> bool" where
  "stack_effect c c' collector xs xs' \<longleftrightarrow>
     xs' = xs \<and> (\<forall>t. no_effect (pcs c t) (pcs c' t)) \<or>
     (\<exists>t p limit old. pcs c t = Swap_in p limit old \<and> pcs c' t = Idle \<and> xs' = p # xs) \<or>
     (\<exists>r nx. pcs c collector = Swap_out r nx \<and> pcs c' collector = Got r \<and> xs = r # xs')"

lemma no_effect_refl [simp]: "no_effect pc pc"
  by (simp add: no_effect_def)

lemma step_no_effect:
  "thread_step L pc s = Ret pc' s' \<Longrightarrow> \<not> (\<exists>p limit old r nx. pc = Swap_in p limit old \<or> pc = Swap_out r nx) \<Longrightarrow>
     no_effect pc pc'"
  by (cases pc) (auto simp: no_effect_def outcome_simps split: if_splits)

lemma pc_ok_other:
  assumes "pc_ok m xs pc" and "holding pc \<inter> set xs' = {}" and "stealing pc \<Longrightarrow> set xs \<subseteq> set xs'"
    and "\<And>p. p \<in> holding pc \<union> set xs \<Longrightarrow> m' p = m p"
  shows "pc_ok m' xs' pc"
  using assms by (cases pc) (auto simp: pc_ok_def dom_def)

text \<open>One thread moves: what is left to show about it and about the others.\<close>

lemma stack_inv_moved:
  assumes inv: "stack_inv L collector c xs" and lst: "listed L s' xs'"
    and own: "pc_ok (nexts L s') xs' pc'" "stealing pc' \<Longrightarrow> t = collector"
    and hold: "holding pc' \<subseteq> holding (pcs c t) \<union> set xs - {NULL}"
    and others: "\<And>u. u \<noteq> t \<Longrightarrow> pc_ok (nexts L (mem c)) xs (pcs c u) \<Longrightarrow>
      pc_ok (nexts L s') xs' (pcs c u)"
  shows "stack_inv L collector \<lparr>mem = s', pcs = (pcs c)(t := pc')\<rparr> xs'"
proof -
  have ok: "pc_ok (nexts L (mem c)) xs (pcs c u)" for u
    using inv by (simp add: stack_inv_def)
  have "holding (pcs c u) \<inter> (holding (pcs c t) \<union> set xs) = {}" if "u \<noteq> t" for u
    using inv ok [of u] that unfolding stack_inv_def pc_ok_def by blast
  then have "holding pc' \<inter> holding (pcs c u) = {}" if "u \<noteq> t" for u
    using hold that by blast
  then show ?thesis
    using inv lst own others ok by (auto simp: stack_inv_def Int_commute)
qed

context shared_stack
begin

lemma step_push:
  assumes g: "ready L (mem c)" and inv: "stack_inv L collector c xs" and pc: "pcs c t = Push p limit"
    and st: "thread_step L (pcs c t) (mem c) = Ret pc' s'"
  shows "ready L s' \<and> stack_inv L collector \<lparr>mem = s', pcs = (pcs c)(t := pc')\<rparr> xs"
proof -
  have e: "s' = mem c" "pc' = Link p limit (stack_top L (mem c))"
    using st pc loads_head [OF g] by auto
  have "pc_ok (nexts L (mem c)) xs (Push p limit)" "listed L (mem c) xs"
    using inv pc unfolding stack_inv_def by metis+
  then show ?thesis
    unfolding e using g pc by (intro conjI stack_inv_moved [OF inv]) (auto simp: pc_ok_def)
qed

lemma step_link:
  assumes g: "ready L (mem c)" and inv: "stack_inv L collector c xs" and pc: "pcs c t = Link p limit old"
    and st: "thread_step L (pcs c t) (mem c) = Ret pc' s'"
  shows "ready L s' \<and> stack_inv L collector \<lparr>mem = s', pcs = (pcs c)(t := pc')\<rparr> xs"
proof -
  have own: "pc_ok (nexts L (mem c)) xs (Link p limit old)" and lst: "listed L (mem c) xs"
    using inv pc unfolding stack_inv_def by metis+
  have p: "p \<noteq> NULL" "p \<in> dom (nexts L (mem c))" "p \<notin> set xs"
    using own by (auto simp: pc_ok_def)
  obtain s1 where s1: "store_next L p old (mem c) = Ret () s1" "ready L s1"
      "nexts L s1 = (nexts L (mem c))(p \<mapsto> old)" "stack_top L s1 = stack_top L (mem c)"
    using stores_next [OF g p(2)] by blast
  have e: "s' = s1" "pc' = Swap_in p limit old"
    using st pc s1(1) by auto
  have apart: "p \<notin> holding (pcs c u)" if "u \<noteq> t" for u
    using inv pc that unfolding stack_inv_def by (metis disjoint_iff holding.simps(2) singletonI)
  show ?thesis
    unfolding e
  proof (intro conjI stack_inv_moved [OF inv])
    show "listed L s1 xs"
      using lst s1(3,4) p(3) by (simp add: listed_def)
    show "pc_ok (nexts L s1) xs (Swap_in p limit old)"
      using own s1(3) by (simp add: pc_ok_def)
    show "pc_ok (nexts L s1) xs (pcs c u)" if "u \<noteq> t" "pc_ok (nexts L (mem c)) xs (pcs c u)" for u
      by (rule pc_ok_other [OF that(2)]) (use that(2) s1(3) p(3) apart [OF that(1)] in \<open>auto simp: pc_ok_def\<close>)
  qed (use s1(2) p(1) pc in auto)
qed

lemma step_swap_in:
  assumes g: "ready L (mem c)" and inv: "stack_inv L collector c xs" and pc: "pcs c t = Swap_in p limit old"
    and st: "thread_step L (pcs c t) (mem c) = Ret pc' s'"
  shows "ready L s' \<and> (no_effect (pcs c t) pc' \<and> stack_inv L collector \<lparr>mem = s', pcs = (pcs c)(t := pc')\<rparr> xs \<or>
    pc' = Idle \<and> stack_inv L collector \<lparr>mem = s', pcs = (pcs c)(t := pc')\<rparr> (p # xs))"
proof -
  have own: "pc_ok (nexts L (mem c)) xs (Swap_in p limit old)" and lst: "listed L (mem c) xs"
    using inv pc unfolding stack_inv_def by metis+
  have p: "p \<noteq> NULL" "nexts L (mem c) p = Some old" "p \<notin> set xs"
    using own by (auto simp: pc_ok_def)
  obtain s1 where s1: "swap_head L old p (mem c) = Ret (stack_top L (mem c) = old) s1" "ready L s1"
      "nexts L s1 = nexts L (mem c)"
      "stack_top L s1 = (if stack_top L (mem c) = old then p else stack_top L (mem c))"
    using swaps_head [OF g] by blast
  have apart: "p \<notin> holding (pcs c u)" if "u \<noteq> t" for u
    using inv pc that unfolding stack_inv_def by (metis disjoint_iff holding.simps(3) singletonI)
  show ?thesis
  proof (cases "stack_top L (mem c) = old")
    case True
    then have e: "s' = s1" "pc' = Idle"
      using st pc s1(1) by auto
    have "stack_inv L collector \<lparr>mem = s1, pcs = (pcs c)(t := Idle)\<rparr> (p # xs)"
    proof (intro stack_inv_moved [OF inv])
      show "listed L s1 (p # xs)"
        using lst s1(3,4) p True by (simp add: listed_def)
      show "pc_ok (nexts L s1) (p # xs) (pcs c u)" if "u \<noteq> t" "pc_ok (nexts L (mem c)) xs (pcs c u)" for u
        by (rule pc_ok_other [OF that(2)]) (use that(2) s1(3) apart [OF that(1)] in \<open>auto simp: pc_ok_def\<close>)
    qed (simp_all add: pc_ok_def)
    with e s1(2) show ?thesis by simp
  next
    case False
    then have e: "s' = s1" "\<exists>l. pc' = Push p l"
      using st pc s1(1) by (auto simp: swap_failed_def outcome_simps split: option.splits)
    then have "stack_inv L collector \<lparr>mem = s', pcs = (pcs c)(t := pc')\<rparr> xs"
      using lst s1(3,4) False own pc
      by (intro stack_inv_moved [OF inv]) (auto simp: listed_def pc_ok_def)
    moreover have "no_effect (pcs c t) pc'"
      using e(2) pc by (auto simp: no_effect_def)
    ultimately show ?thesis
      using e s1(2) by simp
  qed
qed

lemma step_steal:
  assumes g: "ready L (mem c)" and inv: "stack_inv L collector c xs" and pc: "pcs c t = Steal"
    and st: "thread_step L (pcs c t) (mem c) = Ret pc' s'"
  shows "ready L s' \<and> stack_inv L collector \<lparr>mem = s', pcs = (pcs c)(t := pc')\<rparr> xs"
proof -
  have e: "s' = mem c" "pc' = (if stack_top L (mem c) = NULL then Got NULL else Step_over (stack_top L (mem c)))"
    using st pc loads_head [OF g] by (auto split: if_splits)
  have lst: "listed L (mem c) xs" and t: "t = collector"
    using inv pc unfolding stack_inv_def by (auto dest: spec [of _ t])
  have "stack_top L (mem c) \<noteq> NULL \<Longrightarrow> stack_top L (mem c) \<in> set xs"
    using lst by (cases xs) (auto simp: listed_def)
  then show ?thesis
    unfolding e using g lst t by (intro conjI stack_inv_moved [OF inv]) (auto simp: pc_ok_def)
qed

lemma step_step_over:
  assumes g: "ready L (mem c)" and inv: "stack_inv L collector c xs" and pc: "pcs c t = Step_over r"
    and st: "thread_step L (pcs c t) (mem c) = Ret pc' s'"
  shows "ready L s' \<and> stack_inv L collector \<lparr>mem = s', pcs = (pcs c)(t := pc')\<rparr> xs"
proof -
  have own: "pc_ok (nexts L (mem c)) xs (Step_over r)" and lst: "listed L (mem c) xs"
    using inv pc unfolding stack_inv_def by metis+
  then have r: "r \<in> set xs"
    by (simp add: pc_ok_def)
  then obtain nx where nx: "nexts L (mem c) r = Some nx"
    using lst chain_in_dom [of "nexts L (mem c)" id "stack_top L (mem c)" xs r] by (auto simp: listed_def)
  have e: "s' = mem c" "pc' = Swap_out r nx"
    using st pc loads_next [OF g nx] by auto
  have t: "t = collector"
    using inv pc unfolding stack_inv_def by (auto dest: spec [of _ t])
  show ?thesis
    unfolding e using g lst r nx t by (intro conjI stack_inv_moved [OF inv]) (auto simp: pc_ok_def)
qed

lemma step_swap_out:
  assumes g: "ready L (mem c)" and inv: "stack_inv L collector c xs" and pc: "pcs c t = Swap_out r nx"
    and st: "thread_step L (pcs c t) (mem c) = Ret pc' s'"
  shows "ready L s' \<and> (no_effect (pcs c t) pc' \<and> stack_inv L collector \<lparr>mem = s', pcs = (pcs c)(t := pc')\<rparr> xs \<or>
    pc' = Got r \<and> t = collector \<and>
      (\<exists>ys. xs = r # ys \<and> stack_inv L collector \<lparr>mem = s', pcs = (pcs c)(t := pc')\<rparr> ys))"
proof -
  have own: "pc_ok (nexts L (mem c)) xs (Swap_out r nx)" and lst: "listed L (mem c) xs"
    using inv pc unfolding stack_inv_def by metis+
  then have r: "r \<in> set xs" "nexts L (mem c) r = Some nx" "r \<noteq> NULL"
    using chain_in_dom [of "nexts L (mem c)" id "stack_top L (mem c)" xs r] by (auto simp: pc_ok_def listed_def)
  have t: "t = collector" and alone: "\<And>u. u \<noteq> t \<Longrightarrow> \<not> stealing (pcs c u)"
    using inv pc unfolding stack_inv_def by (metis stealing.simps(3))+
  obtain s1 where s1: "swap_head L r nx (mem c) = Ret (stack_top L (mem c) = r) s1" "ready L s1"
      "nexts L s1 = nexts L (mem c)"
      "stack_top L s1 = (if stack_top L (mem c) = r then nx else stack_top L (mem c))"
    using swaps_head [OF g] by blast
  show ?thesis
  proof (cases "stack_top L (mem c) = r")
    case True
    then have e: "s' = s1" "pc' = Got r"
      using st pc s1(1) by auto
    obtain ys where ys: "xs = r # ys" "chain (nexts L (mem c)) id nx ys"
      using lst r True by (cases xs) (auto simp: listed_def)
    have "r \<notin> set ys"
      using chain_distinct [of "nexts L (mem c)" id "stack_top L (mem c)" xs] lst ys(1) by (simp add: listed_def)
    moreover have "stack_inv L collector \<lparr>mem = s1, pcs = (pcs c)(t := Got r)\<rparr> ys"
    proof (intro stack_inv_moved [OF inv])
      show "listed L s1 ys"
        using ys(2) s1(3,4) True by (simp add: listed_def)
      show "pc_ok (nexts L s1) ys (pcs c u)" if "u \<noteq> t" "pc_ok (nexts L (mem c)) xs (pcs c u)" for u
        by (rule pc_ok_other [OF that(2)]) (use that(2) s1(3) alone [OF that(1)] ys(1) in \<open>auto simp: pc_ok_def\<close>)
    qed (use calculation t r ys(1) in \<open>auto simp: pc_ok_def\<close>)
    ultimately show ?thesis
      using e s1(2) t ys(1) by simp
  next
    case False
    then have e: "s' = s1" "pc' = Steal"
      using st pc s1(1) by auto
    have "stack_inv L collector \<lparr>mem = s1, pcs = (pcs c)(t := Steal)\<rparr> xs"
      using lst s1(3,4) False t by (intro stack_inv_moved [OF inv]) (auto simp: listed_def pc_ok_def)
    with e s1(2) pc show ?thesis by (simp add: no_effect_def)
  qed
qed

lemma access_inv:
  assumes g: "ready L (mem c)" and inv: "stack_inv L collector c xs"
    and access: "c' = \<lparr>mem = s', pcs = (pcs c)(t := pc')\<rparr>" "pcs c t \<noteq> Idle" "\<And>r. pcs c t \<noteq> Got r"
    and run: "thread_step L (pcs c t) (mem c) = Ret pc' s'"
  shows "ready L (mem c') \<and> (\<exists>xs'. stack_inv L collector c' xs' \<and> stack_effect c c' collector xs xs')"
proof -
  have same: ?thesis
    if "ready L s' \<and> stack_inv L collector \<lparr>mem = s', pcs = (pcs c)(t := pc')\<rparr> xs" "no_effect (pcs c t) pc'"
    using that access(1) by (auto simp: stack_effect_def)
  note plain = step_no_effect [OF run]
  show ?thesis
  proof (cases "pcs c t")
    case (Push p limit)
    then show ?thesis using same step_push [OF g inv _ run] plain by simp
  next
    case (Link p limit old)
    then show ?thesis using same step_link [OF g inv _ run] plain by simp
  next
    case (Swap_in p limit old)
    from step_swap_in [OF g inv this run] same show ?thesis
    proof (elim conjE disjE, goal_cases)
      case 2
      then show ?case
        using access(1) Swap_in by (auto simp: stack_effect_def intro!: exI [of _ "p # xs"] exI [of _ t])
    qed simp
  next
    case Steal
    then show ?thesis using same step_steal [OF g inv _ run] plain by simp
  next
    case (Step_over r)
    then show ?thesis using same step_step_over [OF g inv _ run] plain by simp
  next
    case (Swap_out r nx)
    from step_swap_out [OF g inv this run] same show ?thesis
    proof (elim conjE disjE exE, goal_cases)
      case (2 ys)
      then show ?case
        using access(1) Swap_out by (auto simp: stack_effect_def intro!: exI [of _ ys])
    qed simp
  qed (use access(2,3) in auto)
qed

lemma step_inv:
  assumes g: "ready L (mem c)" and inv: "stack_inv L collector c xs" and st: "stack_step L collector c c'"
  shows "ready L (mem c') \<and> (\<exists>xs'. stack_inv L collector c' xs' \<and> stack_effect c c' collector xs xs')"
  using st
proof cases
  case (access t pc' s')
  show ?thesis
    by (rule access_inv [OF g inv access(1) _ _ access(3)]) (use access(2) in auto)
next
  case (begin_push t p ys)
  have "ys = xs"
    using begin_push(5) inv by (auto simp: stack_inv_def listed_def intro: chain_unique)
  then have "stack_inv L collector c' xs"
    using inv begin_push by (auto simp: stack_inv_def pc_ok_def)
  then show ?thesis
    using g begin_push(1,2) by (auto simp: stack_effect_def no_effect_def)
next
  case begin_steal
  then have "stack_inv L collector c' xs"
    using inv by (auto simp: stack_inv_def pc_ok_def)
  moreover have "no_effect (pcs c collector) Steal"
    using begin_steal(2) by (cases "pcs c collector") (simp_all add: no_effect_def)
  ultimately show ?thesis
    using g begin_steal(1) by (auto simp: stack_effect_def)
next
  case (let_go r)
  then have "stack_inv L collector c' xs"
    using inv by (auto simp: stack_inv_def pc_ok_def)
  then show ?thesis
    using g let_go(1,2) by (auto simp: stack_effect_def no_effect_def)
next
  case (elsewhere s' ys)
  have ys: "ys = xs"
    using elsewhere(4) inv by (auto simp: stack_inv_def listed_def intro: chain_unique)
  have "pc_ok (nexts L s') xs (pcs c t)" if "pc_ok (nexts L (mem c)) xs (pcs c t)" for t
    using that elsewhere(5) [of _ _ t] ys by (cases "pcs c t") (auto simp: pc_ok_def dom_def)
  moreover have "listed L s' xs"
    using elsewhere(3-5) ys chain_cong [of xs id "nexts L (mem c)" "nexts L s'"] by (simp add: listed_def)
  ultimately have "stack_inv L collector c' xs"
    using inv elsewhere(1) by (auto simp: stack_inv_def)
  then show ?thesis
    using elsewhere(1,2) by (auto simp: stack_effect_def)
qed

lemma reachable_inv:
  assumes "stack_reachable L collector s0 c" and "ready L s0" and "listed L s0 xs0"
  shows "ready L (mem c) \<and> (\<exists>xs. stack_inv L collector c xs)"
  using assms(1)
proof induction
  case start
  have "stack_inv L collector \<lparr>mem = s0, pcs = (\<lambda>_. Idle)\<rparr> xs0"
    using assms(3) by (simp add: stack_inv_def pc_ok_def)
  with assms(2) show ?case by auto
next
  case (step c c')
  then obtain xs where "ready L (mem c)" "stack_inv L collector c xs"
    by blast
  from step_inv [OF this step.hyps(2)] show ?case by blast
qed

text \<open>No access goes wrong: a thread that is busy can move, or its limit is used up.\<close>

lemma busy_moves:
  assumes g: "ready L (mem c)" and inv: "stack_inv L collector c xs" and b: "busy (pcs c t)"
  shows "(\<exists>pc' s'. thread_step L (pcs c t) (mem c) = Ret pc' s') \<or>
    thread_step L (pcs c t) (mem c) = Aborted \<and>
      (\<exists>p k old. pcs c t = Swap_in p (Some k) old \<and> k \<le> 1 \<and> stack_top L (mem c) \<noteq> old)"
proof -
  have own: "pc_ok (nexts L (mem c)) xs (pcs c t)" and lst: "listed L (mem c) xs"
    using inv by (auto simp: stack_inv_def)
  show ?thesis
  proof (cases "pcs c t")
    case (Link p limit old)
    then show ?thesis
      using own stores_next [OF g, of p old] by (auto simp: pc_ok_def)
  next
    case (Swap_in p limit old)
    then show ?thesis
      using swaps_head [OF g, of old p]
      by (cases "stack_top L (mem c) = old"; cases limit; cases "the limit \<le> 1")
        (auto simp: swap_failed_def abort_on_def)
  next
    case (Step_over r)
    then have "r \<in> set xs"
      using own by (simp add: pc_ok_def)
    then obtain nx where "nexts L (mem c) r = Some nx"
      using lst chain_in_dom [of "nexts L (mem c)" id "stack_top L (mem c)" xs r] by (auto simp: listed_def)
    with Step_over loads_next [OF g this] show ?thesis by auto
  next
    case (Swap_out r nx)
    then show ?thesis
      using swaps_head [OF g, of r nx] by auto
  qed (use b loads_head [OF g] in auto)
qed

text \<open>Alone, a push is done after three steps, and after five when its first swap must fail.\<close>

lemma alone_push:
  assumes g: "ready L s" and p: "p \<in> dom (nexts L s)"
  shows "\<exists>s'. run_alone L 3 (Push p limit) s = Ret Idle s' \<and> ready L s' \<and>
    nexts L s' = (nexts L s)(p \<mapsto> stack_top L s) \<and> stack_top L s' = p"
proof -
  obtain s1 where s1: "store_next L p (stack_top L s) s = Ret () s1" "ready L s1"
      "nexts L s1 = (nexts L s)(p \<mapsto> stack_top L s)" "stack_top L s1 = stack_top L s"
    using stores_next [OF g p] by blast
  obtain s2 where "swap_head L (stack_top L s) p s1 = Ret True s2" "ready L s2" "nexts L s2 = nexts L s1"
      "stack_top L s2 = p"
    using swaps_head [OF s1(2), of "stack_top L s" p] s1(4) by auto
  with s1 loads_head [OF g] show ?thesis
    by (simp add: numeral_3_eq_3)
qed

lemma alone_swap_in:
  assumes g: "ready L s" and p: "nexts L s p = Some old" and limit: "\<And>k. limit = Some k \<Longrightarrow> 2 \<le> k"
  shows "\<exists>n s'. n \<le> 4 \<and> run_alone L n (Swap_in p limit old) s = Ret Idle s' \<and>
    nexts L s' = (nexts L s)(p \<mapsto> stack_top L s) \<and> stack_top L s' = p"
proof -
  obtain s1 where s1: "swap_head L old p s = Ret (stack_top L s = old) s1" "ready L s1" "nexts L s1 = nexts L s"
      "stack_top L s1 = (if stack_top L s = old then p else stack_top L s)"
    using swaps_head [OF g] by blast
  show ?thesis
  proof (cases "stack_top L s = old")
    case True
    then have "run_alone L 1 (Swap_in p limit old) s = Ret Idle s1" "nexts L s1 = (nexts L s)(p \<mapsto> stack_top L s)"
      using s1 p by (auto simp: fun_eq_iff)
    with s1(4) True show ?thesis
      by (intro exI [of _ 1] exI [of _ s1]) simp
  next
    case False
    then obtain l where l: "thread_step L (Swap_in p limit old) s = Ret (Push p l) s1"
      using s1(1) limit by (cases limit) (auto simp: swap_failed_def abort_on_def)
    have "p \<in> dom (nexts L s1)"
      using p s1(3) by auto
    from alone_push [OF s1(2) this, of l] obtain s' where s': "run_alone L 3 (Push p l) s1 = Ret Idle s'"
        "nexts L s' = (nexts L s1)(p \<mapsto> stack_top L s1)" "stack_top L s' = p"
      by blast
    have "run_alone L (Suc 3) (Swap_in p limit old) s = Ret Idle s'"
      unfolding run_alone.simps l using s'(1) by simp
    with s'(2,3) s1(3,4) False show ?thesis
      by (intro exI [of _ "Suc 3"] exI [of _ s']) simp
  qed
qed

text \<open>So wherever the other threads have left the list, a push that is let run gets its node on top.\<close>

lemma alone_finishes:
  assumes g: "ready L (mem c)" and inv: "stack_inv L collector c xs" and pc: "pushing p limit (pcs c t)"
    and limit: "\<And>k. limit = Some k \<Longrightarrow> 2 \<le> k"
  shows "\<exists>n s'. n \<le> 5 \<and> run_alone L n (pcs c t) (mem c) = Ret Idle s' \<and> listed L s' (p # xs)"
proof -
  have own: "pc_ok (nexts L (mem c)) xs (pcs c t)" and lst: "listed L (mem c) xs"
    using inv by (auto simp: stack_inv_def)
  have p: "p \<noteq> NULL" "p \<in> dom (nexts L (mem c))" "p \<notin> set xs"
    using own pc by (cases "pcs c t"; auto simp: pc_ok_def)+
  have top: "listed L s' (p # xs)"
    if "nexts L s' = (nexts L (mem c))(p \<mapsto> stack_top L (mem c))" "stack_top L s' = p" for s'
    using that p lst by (simp add: listed_def)
  show ?thesis
  proof (cases "pcs c t")
    case (Push q l)
    with pc alone_push [OF g p(2), of l] top show ?thesis
      by (intro exI [of _ 3]) auto
  next
    case (Link q l old)
    then have q: "q = p" "l = limit"
      using pc by simp_all
    obtain s1 where s1: "store_next L p old (mem c) = Ret () s1" "ready L s1"
        "nexts L s1 = (nexts L (mem c))(p \<mapsto> old)" "stack_top L s1 = stack_top L (mem c)"
      using stores_next [OF g p(2)] by blast
    have "nexts L s1 p = Some old"
      using s1(3) by simp
    from alone_swap_in [OF s1(2) this limit] obtain n s' where "n \<le> 4"
        "run_alone L n (Swap_in p limit old) s1 = Ret Idle s'"
        "nexts L s' = (nexts L s1)(p \<mapsto> stack_top L s1)" "stack_top L s' = p"
      by blast
    with s1 top [of s'] Link q show ?thesis
      by (intro exI [of _ "Suc n"] exI [of _ s']) simp
  next
    case (Swap_in q l old)
    then have q: "q = p" "l = limit" "nexts L (mem c) p = Some old"
      using pc own by (auto simp: pc_ok_def)
    obtain n s' where "n \<le> 4" "run_alone L n (Swap_in p limit old) (mem c) = Ret Idle s'"
        "nexts L s' = (nexts L (mem c))(p \<mapsto> stack_top L (mem c))" "stack_top L s' = p"
      using alone_swap_in [OF g q(3) limit] by blast
    with top [of s'] Swap_in q show ?thesis
      by (intro exI [of _ n] exI [of _ s']) simp
  qed (use pc in auto)
qed

end

section \<open>The two lists\<close>

interpretation full_regions: shared_stack region_stack
proof
  fix s p n
  show "\<exists>s'. store_next region_stack p n s = Ret () s' \<and> ready region_stack s' \<and>
      nexts region_stack s' = (nexts region_stack s)(p \<mapsto> n) \<and> stack_top region_stack s' = stack_top region_stack s"
    if "p \<in> dom (nexts region_stack s)"
    using that by (auto simp: region_stack_def set_region_next_def with_region_def fun_eq_iff)
qed (auto simp: region_stack_def global_heap_head_def load_region_next_def swap_heap_region_head_def)

interpretation full_segments: shared_stack segment_stack
proof
  fix s p n
  show "\<exists>s'. store_next segment_stack p n s = Ret () s' \<and> ready segment_stack s' \<and>
      nexts segment_stack s' = (nexts segment_stack s)(p \<mapsto> n) \<and>
      stack_top segment_stack s' = stack_top segment_stack s"
    if "ready segment_stack s" "p \<in> dom (nexts segment_stack s)"
    using that by (auto simp: segment_stack_def pup_refqueuesegment_set_next_def with_segment_def fun_eq_iff)
qed (auto simp: segment_stack_def get_ref_queue_head_def pup_refqueuesegment_get_next_def
    compare_and_swap_ref_queue_head_def)

section \<open>Properties\<close>

definition is_shared_list :: "shared_list \<Rightarrow> bool" where
  "is_shared_list L \<longleftrightarrow> L = region_stack \<or> L = segment_stack"

lemma shared_list_laws: "is_shared_list L \<Longrightarrow> shared_stack L"
  using full_regions.shared_stack_axioms full_segments.shared_stack_axioms by (auto simp: is_shared_list_def)

text \<open>A thread about to push the region of a booted heap.\<close>

definition demo_conc :: "pc \<Rightarrow> conc" where
  "demo_conc at = \<lparr>mem = boot, pcs = (\<lambda>_. Idle)(9 := at)\<rparr>"

lemma demo_conc_at:
  "stack_top region_stack boot = 0" "nexts region_stack boot 4096 = Some 0" "turns region_stack = Some 1000"
  "load_head region_stack boot = Ret 0 boot" "ready region_stack s"
  by (simp_all add: region_stack_def global_heap_head_def boot_eval)

lemma demo_conc_reachable:
  "listed region_stack boot []" "stack_reachable region_stack 7 boot (demo_conc (Push 4096 (Some 1000)))"
  "stack_step region_stack 7 (demo_conc (Push 4096 (Some 1000))) (demo_conc (Link 4096 (Some 1000) 0))"
proof -
  show l: "listed region_stack boot []"
    by (simp add: listed_def demo_conc_at)
  have start: "stack_reachable region_stack 7 boot \<lparr>mem = boot, pcs = (\<lambda>_. Idle)\<rparr>"
    by (rule stack_reachable.start)
  have "stack_step region_stack 7 \<lparr>mem = boot, pcs = (\<lambda>_. Idle)\<rparr> (\<lparr>mem = boot, pcs = (\<lambda>_. Idle)\<rparr>
      \<lparr>pcs := (pcs \<lparr>mem = boot, pcs = (\<lambda>_. Idle)\<rparr>)(9 := Push 4096 (turns region_stack))\<rparr>)"
    by (rule stack_step.begin_push [where xs = "[]"]) (use l in \<open>simp_all add: demo_conc_at dom_def\<close>)
  from stack_reachable.step [OF start this]
  show "stack_reachable region_stack 7 boot (demo_conc (Push 4096 (Some 1000)))"
    by (simp add: demo_conc_def demo_conc_at)
  have "stack_step region_stack 7 (demo_conc (Push 4096 (Some 1000)))
      \<lparr>mem = boot, pcs = (pcs (demo_conc (Push 4096 (Some 1000))))(9 := Link 4096 (Some 1000) 0)\<rparr>"
    by (rule stack_step.access) (simp_all add: demo_conc_def demo_conc_at)
  then show "stack_step region_stack 7 (demo_conc (Push 4096 (Some 1000))) (demo_conc (Link 4096 (Some 1000) 0))"
    by (simp add: demo_conc_def)
qed

text \<open>C4: The shared lists are stacks, however the threads are interleaved.  From a memory in which the
  list of full regions (or of full segments) ends, in every state the threads can reach and with
  every step one of them makes: the list is distinct nodes up to \<open>NULL\<close>; the step changes it as a
  push of the node its thread was pushing, as the removal of the node on top by the collector, or
  not at all, and then no thread lets go of the node it pushes and the collector gets none; no node
  on the list is in a thread's hands, and no node in the hands of two.  So no full region is lost,
  taken twice, or freed while it is on the list.\<close>

theorem shared_lists_are_stacks:
  assumes "is_shared_list L" and "ready L s0" and "listed L s0 xs0"
    and "stack_reachable L collector s0 c" and "stack_step L collector c c'"
  shows "\<exists>xs xs'. listed L (mem c) xs \<and> listed L (mem c') xs' \<and> distinct xs' \<and>
    stack_effect c c' collector xs xs' \<and>
    (\<forall>t. holding (pcs c' t) \<inter> set xs' = {}) \<and>
    (\<forall>t u. t \<noteq> u \<longrightarrow> holding (pcs c' t) \<inter> holding (pcs c' u) = {})"
proof -
  have laws: "shared_stack L"
    by (rule shared_list_laws [OF assms(1)])
  obtain xs where c: "ready L (mem c)" "stack_inv L collector c xs"
    using shared_stack.reachable_inv [OF laws assms(4,2,3)] by blast
  from shared_stack.step_inv [OF laws c assms(5)] obtain xs' where
    c': "stack_inv L collector c' xs'" "stack_effect c c' collector xs xs'"
    by blast
  have "distinct xs'"
    using c'(1) by (auto simp: stack_inv_def listed_def dest: chain_distinct)
  with c(2) c' show ?thesis
    unfolding stack_inv_def pc_ok_def by blast
qed

lemma shared_lists_are_stacks_witness:
  "\<exists>xs xs'. listed region_stack boot xs \<and> listed region_stack boot xs' \<and> distinct xs' \<and>
    stack_effect (demo_conc (Push 4096 (Some 1000))) (demo_conc (Link 4096 (Some 1000) 0)) 7 xs xs'"
proof -
  have "is_shared_list region_stack" "ready region_stack boot" "mem (demo_conc at) = boot" for at
    by (simp_all add: is_shared_list_def demo_conc_at demo_conc_def)
  with shared_lists_are_stacks [OF this(1,2) demo_conc_reachable] show ?thesis
    by auto
qed

text \<open>C24: Pushing makes progress.  In every state the threads can reach, a thread that is pushing a node,
  with two turns of its loop left when that has a limit, has it on top of the list after at most
  five accesses of its own when the others let it run; and no access of any thread goes wrong, except that
  the limit of 1000 turns of \<open>pup_heap_add_to_global_heap\<close> can be used up.\<close>

theorem push_finishes:
  assumes "is_shared_list L" and "ready L s0" and "listed L s0 xs0"
    and "stack_reachable L collector s0 c" and "pushing p limit (pcs c t)"
    and "\<And>k. limit = Some k \<Longrightarrow> 2 \<le> k"
  shows "(\<exists>xs n s'. listed L (mem c) xs \<and> n \<le> 5 \<and> run_alone L n (pcs c t) (mem c) = Ret Idle s' \<and>
      listed L s' (p # xs)) \<and>
    (\<forall>u. (\<exists>pc' s'. thread_step L (pcs c u) (mem c) = Ret pc' s') \<or>
      (\<exists>q k old. pcs c u = Swap_in q (Some k) old \<and> k \<le> 1))"
proof -
  have laws: "shared_stack L"
    by (rule shared_list_laws [OF assms(1)])
  obtain xs where c: "ready L (mem c)" "stack_inv L collector c xs"
    using shared_stack.reachable_inv [OF laws assms(4,2,3)] by blast
  have "listed L (mem c) xs"
    using c(2) by (simp add: stack_inv_def)
  moreover have "(\<exists>pc' s'. thread_step L (pcs c u) (mem c) = Ret pc' s') \<or>
      (\<exists>q k old. pcs c u = Swap_in q (Some k) old \<and> k \<le> 1)" for u
    using shared_stack.busy_moves [OF laws c, of u] by (cases "busy (pcs c u)"; cases "pcs c u") auto
  ultimately show ?thesis
    using shared_stack.alone_finishes [OF laws c assms(5,6)] by blast
qed

lemma push_finishes_witness:
  "\<exists>xs n s'. listed region_stack boot xs \<and> n \<le> 5 \<and>
    run_alone region_stack n (Push 4096 (Some 1000)) boot = Ret Idle s' \<and> listed region_stack s' (4096 # xs)"
proof -
  have "is_shared_list region_stack" "ready region_stack boot"
    "pushing 4096 (Some 1000) (pcs (demo_conc (Push 4096 (Some 1000))) 9)"
    by (simp_all add: is_shared_list_def demo_conc_at demo_conc_def)
  from push_finishes [OF this(1,2) demo_conc_reachable(1,2) this(3)] show ?thesis
    by (simp add: demo_conc_def)
qed

text \<open>
  The list of threads is not such a list: \<open>attach_thread_to_heap\<close> leaves the \<open>next\<close> of the new head
  as it was, which is \<open>NULL\<close>, so that after a thread has attached, it is the only one on the list.
\<close>

theorem attach_thread_forgets_the_others:
  assumes "attach_thread th s = Ret True s'"
  shows "\<exists>ti. chain (threads (heap s')) threadinfo_next (thread_list (heap s')) [ti] \<and>
    this_thread_info (heap s') (self s) = ti"
  using assms
  by (auto simp: attach_thread_def set_thread_info_def attach_thread_to_heap_once split: prod.splits if_splits)

lemma attach_thread_forgets_the_others_witness:
  "\<exists>s'. attach_thread 9 boot = Ret True s' \<and>
    (\<exists>ti. chain (threads (heap s')) threadinfo_next (thread_list (heap s')) [ti])"
proof -
  obtain s' where s': "attach_thread 9 boot = Ret True s'"
    by (simp add: attach_thread_def set_thread_info_def attach_thread_to_heap_once boot_eval)
  from attach_thread_forgets_the_others [OF s'] s' show ?thesis
    by blast
qed

end
