(* ===== verification/Kept.thy ===== *)
theory Kept
  imports Collect GcMap
begin

text \<open>
  What operations leave as it was: rules for the parts of the state an operation keeps when it returns,
  through sequencing and loops, and with them that allocation, the scan of a stack, marking and
  collecting leave the structs of the threads and the mark of the cycle alone.
\<close>

section \<open>What operations keep\<close>

text \<open>\<open>kept k s m\<close>: when \<open>m\<close>, an operation run in \<open>s\<close>, returns, \<open>k\<close> of the state is what it was.\<close>

definition kept :: "('s \<Rightarrow> 'k) \<Rightarrow> 's \<Rightarrow> ('a, 's) outcome \<Rightarrow> bool" where
  "kept k s m \<longleftrightarrow> (\<forall>r s'. m = Ret r s' \<longrightarrow> k s' = k s)"

named_theorems kept_rules \<open>operations that keep a part of the state\<close>

lemma keptD: "kept k s m \<Longrightarrow> m = Ret r s' \<Longrightarrow> k s' = k s"
  by (simp add: kept_def)

lemma kept_ends [simp]:
  "kept k s (Ret r s') \<longleftrightarrow> k s' = k s" "kept k s (Raised e s')" "kept k s Aborted" "kept k s Exited"
  "kept k s Undef" "kept k s Diverged"
  by (simp_all add: kept_def)

lemma kept_later: "k s' = k s \<Longrightarrow> kept k s' m \<Longrightarrow> kept k s m"
  unfolding kept_def by metis

lemma kept_andthen [kept_rules]:
  assumes m: "kept k s m" and f: "\<And>r s'. k s' = k s \<Longrightarrow> kept k s' (f r s')"
  shows "kept k s (andthen m f)"
proof (cases m)
  case (Ret r s')
  have "k s' = k s"
    by (rule keptD [OF m Ret])
  with kept_later [OF this f [OF this]] Ret show ?thesis
    by simp
qed simp_all

lemma kept_deref [kept_rules]: "(\<And>n. x = Some n \<Longrightarrow> kept k s (f n)) \<Longrightarrow> kept k s (deref x f)"
  by (cases x) simp_all

lemma kept_abort_on [kept_rules]: "(\<not> c \<Longrightarrow> kept k s m) \<Longrightarrow> kept k s (abort_on c m)"
  by (simp add: abort_on_def)

lemma kept_if [kept_rules]: "(c \<Longrightarrow> kept k s m) \<Longrightarrow> (\<not> c \<Longrightarrow> kept k s n) \<Longrightarrow> kept k s (if c then m else n)"
  by simp

text \<open>Loops keep what a turn of theirs keeps.\<close>

lemma kept_of_loop: "(\<And>m. r = Some m \<Longrightarrow> kept k s m) \<Longrightarrow> kept k s (of_loop r)"
  by (cases r) simp_all

lemma kept_retry [kept_rules]:
  assumes "\<And>s. kept k s (turn s)"
  shows "kept k s (of_loop (retry turn s))"
proof (rule kept_of_loop)
  fix m
  assume m: "retry turn s = Some m"
  have "(\<forall>s. kept k s (turn s)) \<longrightarrow> kept k s m"
  proof (rule retry.raw_induct [OF _ m, of "\<lambda>turn s m. (\<forall>s. kept k s (turn s)) \<longrightarrow> kept k s m"], goal_cases)
    case (1 loop turn s m)
    show ?case
    proof
      assume t: "\<forall>s. kept k s (turn s)"
      show "kept k s m"
      proof (cases "turn s")
        case (Ret r s')
        have "k s' = k s"
          by (rule keptD [OF spec [OF t] Ret])
        moreover have "kept k s' m" if "r = None"
          by (rule mp [OF 1(1) t]) (use 1(2) Ret that in simp)
        ultimately show ?thesis
          using 1(2) Ret by (cases r) (auto intro: kept_later)
      qed (use 1(2) in auto)
    qed
  qed
  with assms show "kept k s m" by simp
qed

lemma kept_each_node [kept_rules]:
  assumes "\<And>p s. kept k s (turn p s)"
  shows "kept k s (of_loop (each_node rd nx turn p s))"
proof (rule kept_of_loop)
  fix m
  assume m: "each_node rd nx turn p s = Some m"
  have "(\<forall>p s. kept k s (turn p s)) \<longrightarrow> kept k s m"
  proof (rule each_node.raw_induct [OF _ m, of "\<lambda>rd nx turn p s m. (\<forall>p s. kept k s (turn p s)) \<longrightarrow> kept k s m"],
      goal_cases)
    case (1 loop rd nx turn p s m)
    show ?case
    proof
      assume t: "\<forall>p s. kept k s (turn p s)"
      show "kept k s m"
      proof (cases "turn p s")
        case (Ret r s')
        have s': "k s' = k s"
          by (rule keptD [OF spec [OF spec [OF t]] Ret])
        have "kept k s' m" if "rd s' p = Some n" "p \<noteq> NULL" for n
          by (rule mp [OF 1(1) t]) (use 1(2) Ret that in simp)
        then show ?thesis
          using 1(2) Ret s' by (cases "rd s' p"; cases "p = NULL") (auto intro: kept_later)
      qed (use 1(2) in \<open>auto simp: kept_def split: if_splits\<close>)
    qed
  qed
  with assms show "kept k s m" by simp
qed

lemma kept_each_ahead [kept_rules]:
  assumes "\<And>p s. kept k s (turn p s)"
  shows "kept k s (of_loop (each_ahead rd nx turn p s))"
proof (rule kept_of_loop)
  fix m
  assume m: "each_ahead rd nx turn p s = Some m"
  have "k s' = k s" if "m = Ret u s'" for u s'
    by (rule each_ahead_keeps [where f = turn and rd = rd and nx = nx and p = p and u = u])
      (use m that assms in \<open>simp_all add: kept_def\<close>)
  then show "kept k s m"
    by (simp add: kept_def)
qed

lemma kept_walk_blocks [kept_rules]:
  assumes "\<And>obj p s. kept k s (visit obj p s)"
  shows "kept k s (of_loop (walk_blocks visit r a s))"
proof (rule kept_of_loop)
  fix m
  assume m: "walk_blocks visit r a s = Some m"
  have "(\<forall>obj p s. kept k s (visit obj p s)) \<longrightarrow> kept k s m"
  proof (rule walk_blocks.raw_induct [OF _ m,
      of "\<lambda>visit r a s m. (\<forall>obj p s. kept k s (visit obj p s)) \<longrightarrow> kept k s m"], goal_cases)
    case (1 loop visit r a s m)
    show ?case
    proof
      assume t: "\<forall>obj p s. kept k s (visit obj p s)"
      show "kept k s m"
      proof (cases "\<exists>R obj. regions (heap s) r = Some R \<and> a < allocated R \<and> headers (heap s) a = Some obj")
        case True
        then obtain R :: heap_region and obj :: heap_object where
          now: "regions (heap s) r = Some R" "a < allocated R" "headers (heap s) a = Some obj"
          by blast
        show ?thesis
        proof (cases "visit obj (a + data_offset) s")
          case (Ret u s')
          have s': "k s' = k s"
            by (rule keptD [OF spec [OF spec [OF spec [OF t]]] Ret])
          have "kept k s' m" if "headers (heap s') a = Some obj'" for obj' :: heap_object
            by (rule mp [OF 1(1) t]) (use 1(2) Ret now that in simp)
          then show ?thesis
            using 1(2) Ret now s' by (cases "headers (heap s') a") (auto intro: kept_later)
        qed (use 1(2) now in \<open>auto simp: kept_def\<close>)
      qed (use 1(2) in \<open>auto split: option.splits if_splits\<close>)
    qed
  qed
  with assms show "kept k s m" by simp
qed

lemma kept_add_all [kept_rules]: "(\<And>x s. kept k s (f x s)) \<Longrightarrow> kept k s (add_all f xs s)"
  by (induction xs arbitrary: s) (simp_all add: kept_andthen)

section \<open>The structs of the threads\<close>

text \<open>
  What the protocol is about: the list of threads, where each thread finds its struct, and of each
  struct the thread, the next one, the flag and the mark for new objects; whether the collector has
  its state; and the mark of the cycle.
\<close>

definition threading :: "rt \<Rightarrow> ptr \<times> (u64 \<Rightarrow> ptr) \<times> (ptr \<Rightarrow> (u64 \<times> ptr \<times> bool \<times> i32) option) \<times> bool" where
  "threading s = (thread_list (heap s), this_thread_info (heap s),
     \<lambda>p. map_option (\<lambda>T. (tid T, threadinfo_next T, gc_waiting T, current_gc_mark T)) (threads (heap s) p),
     gc s \<noteq> None)"

definition cycle_mark :: "rt \<Rightarrow> u64" where
  "cycle_mark s = (case gc s of None \<Rightarrow> 0 | Some g \<Rightarrow> live_mark_value g)"

definition protocol_part where
  "protocol_part s = (threading s, cycle_mark s)"

text \<open>The operations of the collector and of the scan keep it.\<close>

lemma protocol_part_updates [simp]:
  "protocol_part (s\<lparr>segments := x1\<rparr>) = protocol_part s" "protocol_part (s\<lparr>mallocs := x2\<rparr>) = protocol_part s"
  "protocol_part (s\<lparr>objects := x3\<rparr>) = protocol_part s" "protocol_part (s\<lparr>attrs := x4\<rparr>) = protocol_part s"
  "protocol_part (s\<lparr>methods := x5\<rparr>) = protocol_part s" "protocol_part (s\<lparr>mmaps := x6\<rparr>) = protocol_part s"
  "protocol_part (s\<lparr>heap := (heap s)\<lparr>regions := x7\<rparr>\<rparr>) = protocol_part s"
  "protocol_part (s\<lparr>heap := (heap s)\<lparr>headers := x8\<rparr>\<rparr>) = protocol_part s"
  "protocol_part (s\<lparr>heap := (heap s)\<lparr>region_list := x9\<rparr>\<rparr>) = protocol_part s"
  by (simp_all add: protocol_part_def threading_def cycle_mark_def)

lemma protocol_part_gc [simp]:
  "gc s = Some g \<Longrightarrow> live_mark_value g' = live_mark_value g \<Longrightarrow>
     protocol_part (s\<lparr>gc := Some g'\<rparr>) = protocol_part s"
  by (simp add: protocol_part_def threading_def cycle_mark_def)

lemma kept_with_gc [kept_rules]:
  "(\<And>g. live_mark_value (f g) = live_mark_value g) \<Longrightarrow> kept protocol_part s (with_gc f s)"
  unfolding with_gc_def by (intro kept_rules) simp

lemma kept_with_segment [kept_rules]: "kept protocol_part s (with_segment p f s)"
  unfolding with_segment_def by (intro kept_rules) simp

lemma kept_with_object [kept_rules]: "kept protocol_part s (with_object p f s)"
  unfolding with_object_def by (intro kept_rules) simp

lemma kept_with_region [kept_rules]: "kept protocol_part s (with_region p f s)"
  unfolding with_region_def by (intro kept_rules) simp

lemma kept_segment_create [kept_rules]: "kept protocol_part s (pup_refqueuesegment_create s)"
  by (cases "malloc (mallocs s)") (simp add: segment_create_run)

lemma kept_add_segment [kept_rules]: "kept protocol_part s (add_segment_to_global_queue p s)"
  unfolding add_segment_to_global_queue_def get_ref_queue_head_def compare_and_swap_ref_queue_head_def
    pup_refqueuesegment_set_next_def
  by (intro kept_rules) simp_all

lemma kept_steal_segment [kept_rules]: "kept protocol_part s (steal_segment_from_global_queue s)"
  unfolding steal_segment_from_global_queue_def get_ref_queue_head_def compare_and_swap_ref_queue_head_def
    pup_refqueuesegment_get_next_def
  by (intro kept_rules) simp_all

lemma kept_queue_for_marking [kept_rules]: "kept protocol_part s (queue_for_marking ref c s)"
  unfolding queue_for_marking_def pup_refqueueseqment_has_free_space_def pup_refqueuesegment_add_def
    add_unchecked_def
  by (intro kept_rules) simp_all

lemma kept_gc_queue [kept_rules]: "kept protocol_part s (pup_gc_queue_for_marking ref s)"
  unfolding pup_gc_queue_for_marking_def by (intro kept_rules) simp_all

lemma kept_collect_roots [kept_rules]: "kept protocol_part s (collect_roots m fp a n cur s)"
proof (induction n arbitrary: a cur s)
  case (Suc n)
  then show ?case
    unfolding collect_roots.simps by (intro kept_rules)
qed simp

lemma kept_find_point [kept_rules]: "kept k s (find_point m pc n a s)"
proof (induction n arbitrary: a)
  case (Suc n)
  then show ?case
    unfolding find_point.simps by (intro kept_rules) simp_all
qed simp

lemma kept_scan_stack_frame [kept_rules]: "kept protocol_part s (scan_stack_frame m dlsym cursor s)"
proof -
  have "kept protocol_part s (get_stack_frame_roots dlsym cursor s)" for s
    by (simp add: get_stack_frame_roots_def Let_def split: option.split prod.split)
  moreover have "kept protocol_part s (find_safepoint m cursor gc_map s)" for s gc_map
    unfolding find_safepoint_def
    by (cases "proc_name cursor"; cases "start_ip cursor")
      (auto simp: kept_find_point intro!: kept_deref)
  moreover have "kept protocol_part s (collect_stack_root_pointers m cursor safepoint s)" for s safepoint
    unfolding collect_stack_root_pointers_def Let_def by (intro kept_rules) simp_all
  ultimately show ?thesis
    unfolding scan_stack_frame_def by (intro kept_rules) simp_all
qed

lemma kept_scan_stack [kept_rules]: "kept protocol_part s (pup_gc_scan_stack m dlsym frames s)"
  by (cases frames) (simp_all add: pup_gc_scan_stack_def kept_add_all kept_scan_stack_frame)

lemma kept_gc_mark [kept_rules]: "kept protocol_part s (pup_gc_mark_reachable ref s)"
  unfolding pup_gc_mark_reachable_def pup_object_gc_mark_def by (intro kept_rules) simp_all

lemma kept_ref_visitor [kept_rules]: "kept protocol_part s (ref_visitor sl s)"
  unfolding ref_visitor_def by (intro kept_rules) simp

lemma kept_scan_queue_ref [kept_rules]: "kept protocol_part s (scan_queue_ref ref s)"
  unfolding scan_queue_ref_def pup_object_each_ref_def by (intro kept_rules) simp

lemma kept_scan_segment [kept_rules]: "kept protocol_part s (pup_refqueuesegment_scan seg s)"
  unfolding pup_refqueuesegment_scan_def
proof (rule kept_of_loop)
  fix m
  assume m: "scan_loop seg 0 s = Some m"
  show "kept protocol_part s m"
  proof (rule scan_loop.raw_induct [OF _ m, of "\<lambda>seg i s m. kept protocol_part s m"], goal_cases)
    case (1 loop seg i s m)
    show ?case
    proof (cases "\<exists>g. segments s seg = Some g \<and> i < in_use g \<and> i < length (refs g)")
      case True
      then obtain g :: ref_queue_segment where g: "segments s seg = Some g" "i < in_use g" "i < length (refs g)"
        by blast
      show ?thesis
      proof (cases "scan_queue_ref (refs g ! i) s")
        case (Ret u s')
        with 1(2) g have "loop seg (Suc i) s' = Some m"
          by simp
        from kept_later [OF keptD [OF kept_scan_queue_ref Ret] 1(1) [OF this]] show ?thesis .
      qed (use 1(2) g in \<open>auto simp: kept_def\<close>)
    qed (use 1(2) in \<open>auto split: option.splits if_splits\<close>)
  qed
qed

lemma kept_scan_heap [kept_rules]: "kept protocol_part s (pup_gc_scan_heap s)"
  unfolding pup_gc_scan_heap_def
proof (rule kept_of_loop)
  fix m
  assume m: "scan_heap_loop s = Some m"
  show "kept protocol_part s m"
  proof (rule scan_heap_loop.raw_induct [OF _ m, of "\<lambda>s m. kept protocol_part s m"], goal_cases)
    case (1 loop s m)
    show ?case
    proof (cases "steal_segment_from_global_queue s")
      case (Ret seg s')
      note s' = keptD [OF kept_steal_segment Ret]
      show ?thesis
      proof (cases "pup_refqueuesegment_scan seg s'")
        case scan: (Ret u s'')
        have "kept protocol_part s' m" if "loop s'' = Some m"
          by (rule kept_later [OF keptD [OF kept_scan_segment scan] 1(1) [OF that]])
        with 1(2) Ret scan s' show ?thesis
          by (cases "seg = NULL") (auto intro: kept_later)
      qed (use 1(2) Ret s' in \<open>auto simp: kept_def split: if_splits\<close>)
    qed (use 1(2) in auto)
  qed
qed

lemma kept_destroy [kept_rules]: "kept protocol_part s (pup_object_destroy obj s)"
proof -
  have "kept protocol_part s (pup_internal_class_destroy_instance obj s)" for s obj
    unfolding pup_internal_class_destroy_instance_def free_method_def pup_object_destroy_instance_def
    by (intro kept_rules) simp_all
  then show ?thesis
    unfolding pup_object_destroy_def pup_class_destroy_instance_def string_destroy_instance_def
      fixnum_destroy_instance_def pup_object_destroy_instance_def
    by (intro kept_rules) (auto intro!: kept_deref split: option.split destroy_fn.split body.split)
qed

lemma kept_free_region [kept_rules]: "kept protocol_part s (free_region munmap_ok r s)"
proof -
  have "kept protocol_part s (destroy_block obj p s)" for s obj p
    by (simp add: destroy_block_def kept_destroy split: heap_kind.split)
  moreover have "protocol_part (munmap a s) = protocol_part s" for a s
    by (simp add: munmap_def protocol_part_def threading_def cycle_mark_def)
  ultimately show ?thesis
    unfolding free_region_def destroy_region_objects_def by (intro kept_rules) (simp_all add: Let_def)
qed

lemma kept_collect_region [kept_rules]: "kept protocol_part s (collect_region mprotect_ok munmap_ok r s)"
proof -
  have "kept protocol_part s (collect_heap_object obj p s)" for s obj p
    unfolding collect_heap_object_def pup_object_gc_collect_def pup_object_attr_gc_collect_def
      pup_gc_is_live_mark_def pup_gc_get_current_mark_def pup_gc_inc_live_count_def pup_gc_inc_garbage_count_def
      copy_live_object_def
    by (cases "kind obj") (simp, intro kept_rules, simp_all)
  then show ?thesis
    unfolding collect_region_def collect_unmarked_objects_in_region_def prevent_mutator_access_def
      atomic_region_start_def
    by (intro kept_rules) simp_all
qed

lemma kept_steal_region [kept_rules]: "kept protocol_part s (steal_heap_region s)"
  unfolding steal_heap_region_def global_heap_head_def load_region_next_def swap_heap_region_head_def
  by (intro kept_rules) simp_all

lemma kept_collect [kept_rules]: "kept protocol_part s (collect_unmarked_objects mprotect_ok munmap_ok s)"
  unfolding collect_unmarked_objects_def
proof (rule kept_of_loop)
  fix m
  assume m: "collect_loop mprotect_ok munmap_ok s = Some m"
  show "kept protocol_part s m"
  proof (rule collect_loop.raw_induct [OF _ m, of "\<lambda>mp mu s m. kept protocol_part s m"], goal_cases)
    case (1 loop mp mu s m)
    let ?turn = "andthen (steal_heap_region s) (\<lambda>r s.
         if r = NULL then Ret False s
         else andthen (collect_region mp mu r s) (\<lambda>_ s. Ret True s))"
    have turn: "kept protocol_part s ?turn"
      by (intro kept_rules) simp_all
    show ?case
    proof (cases ?turn)
      case (Ret again s')
      have "kept protocol_part s' m" if "loop mp mu s' = Some m"
        by (rule 1(1) [OF that])
      with 1(2) Ret keptD [OF turn Ret] show ?thesis
        by (cases again) (auto intro: kept_later)
    qed (use 1(2) in \<open>auto simp: kept_def\<close>)
  qed
qed

text \<open>And so does an allocation by a mutator.\<close>

lemma kept_local_region [kept_rules]: "kept protocol_part s (set_local_region r s)"
proof -
  have "kept protocol_part s (with_thread ti (local_region_update f) s)" for ti f s
    unfolding with_thread_def
    by (intro kept_rules) (auto simp: protocol_part_def threading_def cycle_mark_def fun_eq_iff)
  then show ?thesis
    unfolding set_local_region_def get_thread_info_def Let_def by (intro kept_rules) simp_all
qed

lemma kept_make_room [kept_rules]: "kept protocol_part s (pup_heap_region_make_room_for r sz k s)"
  unfolding pup_heap_region_make_room_for_def Let_def
  by (intro kept_rules) (cases k; simp add: zero_block_def protocol_part_def threading_def cycle_mark_def)

lemma kept_add_to_global_heap [kept_rules]: "kept protocol_part s (pup_heap_add_to_global_heap r s)"
  unfolding add_to_global_heap_once by (intro kept_rules) simp

lemma kept_alloc: "kept protocol_part s (pup_heap_alloc sz k s)"
proof -
  have region: "protocol_part s' = protocol_part s" if "pup_heap_region_allocate s = (r, s')" for s s' r
    using that
    by (auto simp: pup_heap_region_allocate_def protocol_part_def threading_def cycle_mark_def
        split: prod.splits if_splits)
  have new: "kept protocol_part s (case pup_heap_region_allocate s of (r, s') \<Rightarrow>
      abort_on (r = NULL) (andthen (set_local_region r s') (\<lambda>_ s.
        andthen (pup_heap_add_to_global_heap old s) (\<lambda>_ s. Ret r s))))" for s old
  proof (cases "pup_heap_region_allocate s")
    case (Pair r s')
    have "kept protocol_part s' (abort_on (r = NULL) (andthen (set_local_region r s') (\<lambda>_ s.
        andthen (pup_heap_add_to_global_heap old s) (\<lambda>_ s. Ret r s))))"
      by (intro kept_rules) simp
    with kept_later [OF region [OF Pair] this] Pair show ?thesis
      by simp
  qed
  have mark: "kept protocol_part s (mark_block k p v s)" for p v s
    unfolding mark_block_def by (cases k) (simp_all, (intro kept_rules, simp?)+)
  show ?thesis
    unfolding pup_heap_alloc_def thread_local_alloc_def get_thread_info_def Let_def
      pup_heap_region_have_room_for_def
    by (intro kept_rules new mark) simp_all
qed

end
