(* ===== verification/Safepoint.thy ===== *)
theory Safepoint
  imports Kept
begin

text \<open>
  The protocol between the collector thread and the mutator threads (heap.c): the collector sends
  each thread a signal, the handler raises a flag of the thread, the thread scans its own stack at
  its next safe point, and the two meet at a barrier.  The protocol is a step relation, one step of
  one thread at a time, for a process in which the threads have attached and none attaches any more.
\<close>

section \<open>The code between two steps\<close>

definition get_thread :: "ptr \<Rightarrow> rt \<Rightarrow> (u64, rt) outcome" where
  "get_thread ti s = deref (threads (heap s) ti) (\<lambda>T. Ret (tid T) s)"

definition load_threadinfo_next :: "ptr \<Rightarrow> rt \<Rightarrow> (ptr, rt) outcome" where
  "load_threadinfo_next ti s = deref (threads (heap s) ti) (\<lambda>T. Ret (threadinfo_next T) s)"

text \<open>The handler, in the thread that got the signal; \<open>si_queue\<close>: it was sent by sigqueue.\<close>

definition siguser1_handler :: "bool \<Rightarrow> rt \<Rightarrow> (unit, rt) outcome" where
  "siguser1_handler si_queue s =
     abort_on (\<not> si_queue)
       (andthen (get_thread_info s) (\<lambda>ti s.
        andthen (with_thread ti (gc_waiting_update (\<lambda>_. True)) s) (\<lambda>_ s.
        andthen (pup_gc_get_current_mark s) (\<lambda>mark s.
          with_thread ti (current_gc_mark_update (\<lambda>_. mark)) s))))"

text \<open>What \<open>announce_mutator_arrival\<close> does after the barrier.\<close>

definition clear_gc_waiting :: "ptr \<Rightarrow> rt \<Rightarrow> (unit, rt) outcome" where
  "clear_gc_waiting ti s = with_thread ti (gc_waiting_update (\<lambda>_. False)) s"

text \<open>
  Where the collector is, in \<open>gc_thread\<close> (\<open>Asleep\<close>), \<open>perform_gc\<close> and \<open>converge_on_safepoint\<close>
  (\<open>Signal\<close> to \<open>Await\<close>), with the struct it has come to; and where a mutator is, in
  \<open>pup_heap_safepoint\<close> and \<open>announce_mutator_arrival\<close>, with its struct.  \<open>Running\<close> is all other code.
\<close>

datatype collector_pc =
    Asleep
  | Period_start
  | List_head
  | Visit ptr
  | Signal ptr u64
  | Meet ptr
  | Await ptr
  | Following ptr
  | Scan
  | Sweep
  | Period_end

datatype mutator_pc =
    Running
  | At_safepoint
  | Scanning ptr
  | Arriving ptr
  | In_barrier ptr
  | Leaving ptr

text \<open>
  nanosleep returns 0 or -1, so that neither test of its result aborts.  The steps at a signal or at
  the barrier are below.
\<close>

fun collector_step ::
    "(ptr \<Rightarrow> bool) \<Rightarrow> (ptr \<Rightarrow> bool) \<Rightarrow> collector_pc \<Rightarrow> rt \<Rightarrow> (collector_pc, rt) outcome" where
  "collector_step mprotect_ok munmap_ok Asleep s = Ret Period_start s"
| "collector_step mprotect_ok munmap_ok Period_start s =
     andthen (pup_gc_period_start s) (\<lambda>_ s. Ret List_head s)"
| "collector_step mprotect_ok munmap_ok List_head s =
     andthen (get_thread_list_head s) (\<lambda>ti s. Ret (Visit ti) s)"
| "collector_step mprotect_ok munmap_ok (Visit ti) s =
     (if ti = NULL then Ret Scan s else andthen (get_thread ti s) (\<lambda>th s. Ret (Signal ti th) s))"
| "collector_step mprotect_ok munmap_ok (Following ti) s =
     andthen (load_threadinfo_next ti s) (\<lambda>nx s. Ret (Visit nx) s)"
| "collector_step mprotect_ok munmap_ok Scan s = andthen (pup_gc_scan_heap s) (\<lambda>_ s. Ret Sweep s)"
| "collector_step mprotect_ok munmap_ok Sweep s =
     andthen (collect_unmarked_objects mprotect_ok munmap_ok s) (\<lambda>_ s. Ret Period_end s)"
| "collector_step mprotect_ok munmap_ok Period_end s =
     andthen (pup_gc_period_end s) (\<lambda>_ s. Ret Asleep s)"
| "collector_step mprotect_ok munmap_ok pc s = Ret pc s"

text \<open>The stack of the thread, with the answers about it, is a parameter of the step that scans it.\<close>

fun mutator_step ::
    "mem \<Rightarrow> (string \<Rightarrow> ptr option) \<Rightarrow> unw_frame list option \<Rightarrow> mutator_pc \<Rightarrow> rt \<Rightarrow>
       (mutator_pc, rt) outcome" where
  "mutator_step m dlsym frames Running s = Ret At_safepoint s"
| "mutator_step m dlsym frames At_safepoint s =
     andthen (get_thread_info s) (\<lambda>ti s.
     deref (threads (heap s) ti) (\<lambda>T. Ret (if gc_waiting T then Scanning ti else Running) s))"
| "mutator_step m dlsym frames (Scanning ti) s =
     andthen (pup_gc_scan_stack m dlsym frames s) (\<lambda>_ s. Ret (Arriving ti) s)"
| "mutator_step m dlsym frames (Leaving ti) s = andthen (clear_gc_waiting ti s) (\<lambda>_ s. Ret Running s)"
| "mutator_step m dlsym frames pc s = Ret pc s"

section \<open>The process\<close>

text \<open>
  The memory, the place of each thread, the threads with a signal that their handler has not seen
  (the same signal sent twice is one), and who waits inside the barrier, which is for two.  For the
  statements, \<open>stacks_scanned\<close>: the threads that have scanned their stacks since the cycle began.
\<close>

datatype party = Collector | Mutator u64

record process =
  memory :: rt
  collector :: collector_pc
  mutator :: "u64 \<Rightarrow> mutator_pc"
  pending :: "u64 set"
  inside :: "party option"
  stacks_scanned :: "u64 set"

fun shut_in :: "party \<Rightarrow> process \<Rightarrow> process" where
  "shut_in Collector c =
     (case collector c of Meet ti \<Rightarrow> c\<lparr>collector := Await ti\<rparr> | _ \<Rightarrow> c)"
| "shut_in (Mutator t) c =
     (case mutator c t of Arriving ti \<Rightarrow> c\<lparr>mutator := (mutator c)(t := In_barrier ti)\<rparr> | _ \<Rightarrow> c)"

fun let_out :: "party \<Rightarrow> process \<Rightarrow> process" where
  "let_out Collector c =
     (case collector c of
        Meet ti \<Rightarrow> c\<lparr>collector := Following ti\<rparr>
      | Await ti \<Rightarrow> c\<lparr>collector := Following ti\<rparr>
      | _ \<Rightarrow> c)"
| "let_out (Mutator t) c =
     (case mutator c t of
        Arriving ti \<Rightarrow> c\<lparr>mutator := (mutator c)(t := Leaving ti)\<rparr>
      | In_barrier ti \<Rightarrow> c\<lparr>mutator := (mutator c)(t := Leaving ti)\<rparr>
      | _ \<Rightarrow> c)"

text \<open>The first to come waits; the second lets both go, whoever they are.\<close>

definition safepoint_barrier_wait :: "party \<Rightarrow> process \<Rightarrow> process" where
  "safepoint_barrier_wait who c =
     (case inside c of
        None \<Rightarrow> (shut_in who c)\<lparr>inside := Some who\<rparr>
      | Some other \<Rightarrow> (let_out other (let_out who c))\<lparr>inside := None\<rparr>)"

text \<open>
  A step.  A call that does not return has no step: it is the end of the process.  The other work of
  mutators (\<open>work\<close>) leaves the structs of the threads as far as the protocol reads them, as
  \<open>kept_alloc\<close> has it for allocation, and the mark of the cycle.
\<close>

inductive protocol_step :: "process \<Rightarrow> process \<Rightarrow> bool" where
  collect: "collector_step mprotect_ok munmap_ok (collector c) (memory c) = Ret pc' s' \<Longrightarrow>
     protocol_step c (c\<lparr>memory := s', collector := pc',
       stacks_scanned := (if collector c = Period_start then {} else stacks_scanned c)\<rparr>)"
| signal: "collector c = Signal ti th \<Longrightarrow>
     protocol_step c (c\<lparr>collector := Meet ti, pending := insert th (pending c)\<rparr>)"
| meet: "collector c = Meet ti \<Longrightarrow> protocol_step c (safepoint_barrier_wait Collector c)"
| handle: "t \<in> pending c \<Longrightarrow> siguser1_handler True ((memory c)\<lparr>self := t\<rparr>) = Ret () s' \<Longrightarrow>
     protocol_step c (c\<lparr>memory := s', pending := pending c - {t}\<rparr>)"
| work: "mutator c t = Running \<Longrightarrow> protocol_part s' = protocol_part (memory c) \<Longrightarrow>
     protocol_step c (c\<lparr>memory := s'\<rparr>)"
| mutate: "mutator_step m dlsym frames (mutator c t) ((memory c)\<lparr>self := t\<rparr>) = Ret pc' s' \<Longrightarrow>
     protocol_step c (c\<lparr>memory := s', mutator := (mutator c)(t := pc'),
       stacks_scanned := (case mutator c t of Scanning ti \<Rightarrow> insert t (stacks_scanned c) | _ \<Rightarrow> stacks_scanned c)\<rparr>)"
| arrive: "mutator c t = Arriving ti \<Longrightarrow> protocol_step c (safepoint_barrier_wait (Mutator t) c)"

definition protocol_start :: "rt \<Rightarrow> process" where
  "protocol_start s = \<lparr>memory = s, collector = Asleep, mutator = (\<lambda>_. Running), pending = {},
     inside = None, stacks_scanned = {}\<rparr>"

abbreviation protocol_steps :: "process \<Rightarrow> process \<Rightarrow> bool" where
  "protocol_steps \<equiv> protocol_step\<^sup>*\<^sup>*"

section \<open>Reading the structs of the threads\<close>

definition info :: "rt \<Rightarrow> u64 \<Rightarrow> ptr" where
  "info s t = this_thread_info (heap s) t"

definition flag :: "rt \<Rightarrow> ptr \<Rightarrow> bool" where
  "flag s ti = (case threads (heap s) ti of None \<Rightarrow> False | Some T \<Rightarrow> gc_waiting T)"

definition mark_of :: "rt \<Rightarrow> ptr \<Rightarrow> i32" where
  "mark_of s ti = (case threads (heap s) ti of None \<Rightarrow> 0 | Some T \<Rightarrow> current_gc_mark T)"

text \<open>The threads on the list, each with a struct of its own.\<close>

definition attached :: "rt \<Rightarrow> ptr list \<Rightarrow> bool" where
  "attached s tis \<longleftrightarrow>
     gc s \<noteq> None \<and> chain (threads (heap s)) threadinfo_next (thread_list (heap s)) tis \<and>
     (\<forall>ti \<in> set tis. \<exists>T. threads (heap s) ti = Some T \<and> (\<forall>t. info s t = ti \<longleftrightarrow> t = tid T))"

text \<open>What the steps do to what is read.\<close>

lemma self_irrelevant [simp]:
  "info (s\<lparr>self := t\<rparr>) = info s" "flag (s\<lparr>self := t\<rparr>) = flag s" "mark_of (s\<lparr>self := t\<rparr>) = mark_of s"
  "cycle_mark (s\<lparr>self := t\<rparr>) = cycle_mark s" "attached (s\<lparr>self := t\<rparr>) tis = attached s tis"
  "protocol_part (s\<lparr>self := t\<rparr>) = protocol_part s"
  by (simp_all add: info_def flag_def mark_of_def cycle_mark_def attached_def protocol_part_def threading_def
      fun_eq_iff)

lemma threading_structs:
  assumes "threading s' = threading s"
  shows "map_option (\<lambda>T. (tid T, threadinfo_next T, gc_waiting T, current_gc_mark T)) (threads (heap s') p) =
    map_option (\<lambda>T. (tid T, threadinfo_next T, gc_waiting T, current_gc_mark T)) (threads (heap s) p)"
  using assms by (simp add: threading_def fun_eq_iff)

lemma attached_structs:
  assumes a: "attached s tis" and g: "gc s' \<noteq> None" and l: "thread_list (heap s') = thread_list (heap s)"
    and i: "info s' = info s"
    and T: "\<And>p. map_option (\<lambda>T. (tid T, threadinfo_next T)) (threads (heap s') p) =
      map_option (\<lambda>T. (tid T, threadinfo_next T)) (threads (heap s) p)"
  shows "attached s' tis"
  unfolding attached_def
proof (intro conjI ballI)
  have "map_option threadinfo_next (threads (heap s) p) = map_option threadinfo_next (threads (heap s') p)" for p
    using T [of p] by (cases "threads (heap s) p"; cases "threads (heap s') p") simp_all
  then show "chain (threads (heap s')) threadinfo_next (thread_list (heap s')) tis"
    using a l by (simp add: attached_def chain_cong [of tis threadinfo_next "threads (heap s')" "threads (heap s)"])
  fix ti
  assume "ti \<in> set tis"
  then obtain T where "threads (heap s) ti = Some T" "\<forall>t. info s t = ti \<longleftrightarrow> t = tid T"
    using a by (auto simp: attached_def)
  with T [of ti] i show "\<exists>T. threads (heap s') ti = Some T \<and> (\<forall>t. info s' t = ti \<longleftrightarrow> t = tid T)"
    by auto
qed (use g in simp)

lemma attached_own:
  assumes "attached s tis" and "info s t \<in> set tis" and "info s u = info s t"
  shows "u = t"
proof -
  obtain T :: thread_info where "\<forall>v. info s v = info s t \<longleftrightarrow> v = tid T"
    using assms(1,2) unfolding attached_def by blast
  with assms(3) show ?thesis by metis
qed

lemma threading_same:
  assumes "threading s' = threading s"
  shows "info s' = info s" and "flag s' = flag s" and "mark_of s' = mark_of s"
    and "attached s tis \<Longrightarrow> attached s' tis"
proof -
  note T = threading_structs [OF assms]
  show i: "info s' = info s"
    using assms by (simp add: threading_def info_def fun_eq_iff)
  have "flag s' p = flag s p \<and> mark_of s' p = mark_of s p" for p
    using T [of p] by (cases "threads (heap s) p"; cases "threads (heap s') p") (simp_all add: flag_def mark_of_def)
  then show "flag s' = flag s" "mark_of s' = mark_of s"
    by (simp_all add: fun_eq_iff)
  have "map_option (\<lambda>T. (tid T, threadinfo_next T)) (threads (heap s') p) =
      map_option (\<lambda>T. (tid T, threadinfo_next T)) (threads (heap s) p)" for p
    using T [of p] by (cases "threads (heap s) p"; cases "threads (heap s') p") simp_all
  then show "attached s tis \<Longrightarrow> attached s' tis"
    using attached_structs [OF _ _ _ i] assms by (auto simp: threading_def attached_def)
qed

lemma protocol_part_same:
  assumes "protocol_part s' = protocol_part s"
  shows "info s' = info s" "flag s' = flag s" "mark_of s' = mark_of s" "cycle_mark s' = cycle_mark s"
    "attached s tis \<Longrightarrow> attached s' tis"
  using assms threading_same [of s' s] by (auto simp: protocol_part_def)

text \<open>A new value in the struct of one thread.\<close>

lemma struct_changed:
  assumes T: "threads (heap s) ti = Some T" and s': "s' = s\<lparr>heap := (heap s)\<lparr>threads := (threads (heap s))(ti \<mapsto> T')\<rparr>\<rparr>"
    and same: "tid T' = tid T" "threadinfo_next T' = threadinfo_next T"
  shows "info s' = info s" and "flag s' = (flag s)(ti := gc_waiting T')"
    and "mark_of s' = (mark_of s)(ti := current_gc_mark T')" and "cycle_mark s' = cycle_mark s"
    and "attached s tis \<Longrightarrow> attached s' tis"
proof -
  show i: "info s' = info s"
    by (simp add: s' info_def fun_eq_iff)
  show "flag s' = (flag s)(ti := gc_waiting T')" "mark_of s' = (mark_of s)(ti := current_gc_mark T')"
      "cycle_mark s' = cycle_mark s"
    by (simp_all add: s' flag_def mark_of_def cycle_mark_def fun_eq_iff)
  show "attached s' tis" if a: "attached s tis"
    by (rule attached_structs [OF a _ _ i]) (use a T same in \<open>auto simp: s' attached_def\<close>)
qed

lemma handler_effect:
  assumes "siguser1_handler True s = Ret () s'"
  shows "info s' = info s" and "flag s' = (flag s)(info s (self s) := True)"
    and "mark_of s' = (mark_of s)(info s (self s) := ucast (cycle_mark s))" and "cycle_mark s' = cycle_mark s"
    and "attached s tis \<Longrightarrow> attached s' tis"
proof -
  obtain T g where T: "threads (heap s) (info s (self s)) = Some T" and g: "gc s = Some g"
    and s': "s' = s\<lparr>heap := (heap s)\<lparr>threads := (threads (heap s))(info s (self s) \<mapsto>
      T\<lparr>gc_waiting := True, current_gc_mark := ucast (live_mark_value g)\<rparr>)\<rparr>\<rparr>"
    using assms
    by (auto simp: siguser1_handler_def get_thread_info_def with_thread_def pup_gc_get_current_mark_def info_def
        Let_def outcome_simps)
  note e = struct_changed [OF T s']
  show "info s' = info s" "flag s' = (flag s)(info s (self s) := True)" "cycle_mark s' = cycle_mark s"
    using e(1,2,4) by simp_all
  show "mark_of s' = (mark_of s)(info s (self s) := ucast (cycle_mark s))"
    using e(3) g by (simp add: cycle_mark_def)
  show "attached s tis \<Longrightarrow> attached s' tis"
    using e(5) by simp
qed

lemma clear_effect:
  assumes "clear_gc_waiting ti s = Ret () s'"
  shows "info s' = info s" and "flag s' = (flag s)(ti := False)" and "mark_of s' = mark_of s"
    and "cycle_mark s' = cycle_mark s" and "attached s tis \<Longrightarrow> attached s' tis"
proof -
  obtain T where T: "threads (heap s) ti = Some T"
    and s': "s' = s\<lparr>heap := (heap s)\<lparr>threads := (threads (heap s))(ti \<mapsto> T\<lparr>gc_waiting := False\<rparr>)\<rparr>\<rparr>"
    using assms by (auto simp: clear_gc_waiting_def with_thread_def outcome_simps)
  note e = struct_changed [OF T s']
  show "info s' = info s" "flag s' = (flag s)(ti := False)" "cycle_mark s' = cycle_mark s"
    using e(1,2,4) by simp_all
  show "mark_of s' = mark_of s"
    using e(3) T by (simp add: mark_of_def fun_eq_iff)
  show "attached s tis \<Longrightarrow> attached s' tis"
    using e(5) by simp
qed

lemma period_start_effect:
  assumes "pup_gc_period_start s = Ret () s'"
  shows "info s' = info s" and "flag s' = flag s" and "mark_of s' = mark_of s"
    and "attached s tis \<Longrightarrow> attached s' tis"
proof -
  obtain g where g: "gc s = Some g"
    using assms by (cases "gc s") (simp_all add: pup_gc_period_start_def with_gc_def)
  have "threading s' = threading s"
  proof -
    have "\<exists>g'. Ret () (s\<lparr>gc := Some g'\<rparr>) = Ret () s'"
      using assms g by (auto simp: pup_gc_period_start_def with_gc_def set_live_mark_value_def)
    then obtain g' where "s' = s\<lparr>gc := Some g'\<rparr>"
      by auto
    with g show ?thesis
      by (simp add: threading_def)
  qed
  note same = threading_same [OF this]
  show "info s' = info s" "flag s' = flag s" "mark_of s' = mark_of s"
    by (fact same)+
  show "attached s tis \<Longrightarrow> attached s' tis"
    by (fact same(4))
qed

section \<open>The invariant\<close>

text \<open>
  What holds of a thread, from: its struct; whether the collector is at the barrier for this
  struct; whether a signal is pending, the flag up, the mark that of the cycle, the stack scanned;
  whether the thread is the one in the barrier; whether its struct is on the list.
\<close>

definition thread_ok ::
    "ptr \<Rightarrow> bool \<Rightarrow> bool \<Rightarrow> bool \<Rightarrow> bool \<Rightarrow> bool \<Rightarrow> bool \<Rightarrow> bool \<Rightarrow> mutator_pc \<Rightarrow> bool" where
  "thread_ok ti expected pend up fresh has_scanned within on_list pc \<longleftrightarrow>
     (pend \<longrightarrow> expected) \<and>
     (case pc of
        Running \<Rightarrow> \<not> within \<and> (up \<longrightarrow> expected \<and> \<not> pend \<and> fresh)
      | At_safepoint \<Rightarrow> \<not> within \<and> (up \<longrightarrow> expected \<and> \<not> pend \<and> fresh)
      | Scanning p \<Rightarrow> \<not> within \<and> up \<and> expected \<and> \<not> pend \<and> fresh \<and> p = ti
      | Arriving p \<Rightarrow> \<not> within \<and> up \<and> expected \<and> \<not> pend \<and> fresh \<and> has_scanned \<and> p = ti
      | In_barrier p \<Rightarrow> within \<and> up \<and> expected \<and> \<not> pend \<and> fresh \<and> has_scanned \<and> p = ti
      | Leaving p \<Rightarrow> \<not> within \<and> up \<and> on_list \<and> p = ti)"

fun meeting :: "collector_pc \<Rightarrow> ptr option" where
  "meeting (Meet ti) = Some ti"
| "meeting (Await ti) = Some ti"
| "meeting pc = None"

definition thread_inv :: "process \<Rightarrow> ptr list \<Rightarrow> u64 \<Rightarrow> bool" where
  "thread_inv c tis t \<longleftrightarrow>
     thread_ok (info (memory c) t) (meeting (collector c) = Some (info (memory c) t)) (t \<in> pending c)
       (flag (memory c) (info (memory c) t))
       (mark_of (memory c) (info (memory c) t) = ucast (cycle_mark (memory c)))
       (t \<in> stacks_scanned c) (inside c = Some (Mutator t)) (info (memory c) t \<in> set tis) (mutator c t)"

definition visited :: "process \<Rightarrow> ptr list \<Rightarrow> bool" where
  "visited c tis \<longleftrightarrow> (\<forall>t. info (memory c) t \<in> set tis \<longrightarrow>
     t \<in> stacks_scanned c \<and> mark_of (memory c) (info (memory c) t) = ucast (cycle_mark (memory c)))"

definition first_of :: "ptr list \<Rightarrow> ptr" where
  "first_of tis = (case tis of [] \<Rightarrow> NULL | ti # _ \<Rightarrow> ti)"

text \<open>How far the collector has come on the list.\<close>

definition collector_inv :: "process \<Rightarrow> ptr list \<Rightarrow> bool" where
  "collector_inv c tis \<longleftrightarrow>
     (case collector c of
        Visit p \<Rightarrow> \<exists>as bs. tis = as @ bs \<and> visited c as \<and> p = first_of bs
      | Signal ti th \<Rightarrow> \<exists>as bs. tis = as @ ti # bs \<and> visited c as \<and> info (memory c) th = ti
      | Meet ti \<Rightarrow> \<exists>as bs. tis = as @ ti # bs \<and> visited c as
      | Await ti \<Rightarrow> \<exists>as bs. tis = as @ ti # bs \<and> visited c as
      | Following ti \<Rightarrow> \<exists>as bs. tis = as @ ti # bs \<and> visited c (as @ [ti])
      | Scan \<Rightarrow> visited c tis
      | Sweep \<Rightarrow> visited c tis
      | Period_end \<Rightarrow> visited c tis
      | _ \<Rightarrow> True)"

definition protocol_inv :: "process \<Rightarrow> ptr list \<Rightarrow> bool" where
  "protocol_inv c tis \<longleftrightarrow>
     attached (memory c) tis \<and> collector_inv c tis \<and>
     (inside c = Some Collector \<longleftrightarrow> (\<exists>ti. collector c = Await ti)) \<and> (\<forall>t. thread_inv c tis t)"

lemma thread_ok_unexpected:
  "\<not> expected \<Longrightarrow> thread_ok ti expected pend up fresh sc within on_list pc =
     thread_ok ti expected pend up fresh' sc' within on_list pc"
  by (simp add: thread_ok_def split: mutator_pc.split)

lemma thread_inv_cong:
  assumes "thread_inv c tis t" and "info (memory c') = info (memory c)" and "flag (memory c') = flag (memory c)"
    and "pending c' = pending c" and "inside c' = inside c" and "mutator c' = mutator c"
    and "meeting (collector c') = meeting (collector c)"
    and "meeting (collector c) = None \<or>
      mark_of (memory c') = mark_of (memory c) \<and> cycle_mark (memory c') = cycle_mark (memory c) \<and> stacks_scanned c' = stacks_scanned c"
  shows "thread_inv c' tis t"
proof (cases "meeting (collector c)")
  case None
  have "thread_ok ti False pend up fresh sc within on_list pc = thread_ok ti False pend up fresh' sc' within on_list pc"
    for ti pend up fresh sc within on_list pc fresh' sc'
    by (rule thread_ok_unexpected) simp
  with None assms(1-7) show ?thesis
    unfolding thread_inv_def by simp metis
next
  case (Some ti)
  with assms show ?thesis
    by (simp add: thread_inv_def)
qed

lemma visited_cong:
  assumes "visited c tis" and "info (memory c') = info (memory c)" and "mark_of (memory c') = mark_of (memory c)"
    and "cycle_mark (memory c') = cycle_mark (memory c)" and "stacks_scanned c \<subseteq> stacks_scanned c'"
  shows "visited c' tis"
  using assms by (auto simp: visited_def)

lemma collector_inv_cong:
  assumes "collector_inv c tis" and "collector c' = collector c" and "info (memory c') = info (memory c)"
    and "\<And>ts. visited c ts \<Longrightarrow> visited c' ts"
  shows "collector_inv c' tis"
  using assms unfolding collector_inv_def by (auto split: collector_pc.splits)

lemma collector_inv_Visit:
  "collector c = Visit (first_of bs) \<Longrightarrow> tis = as @ bs \<Longrightarrow> visited c as \<Longrightarrow> collector_inv c tis"
  by (auto simp: collector_inv_def)

text \<open>The other work of all threads.\<close>

lemma protocol_inv_memory:
  assumes "protocol_inv c tis" and "protocol_part s' = protocol_part (memory c)"
  shows "protocol_inv (c\<lparr>memory := s'\<rparr>) tis"
proof -
  note same = protocol_part_same [OF assms(2)]
  show ?thesis
    unfolding protocol_inv_def
  proof (intro conjI allI)
    show "attached (memory (c\<lparr>memory := s'\<rparr>)) tis"
      using assms(1) same(5) by (simp add: protocol_inv_def)
    show "collector_inv (c\<lparr>memory := s'\<rparr>) tis"
      by (rule collector_inv_cong [where c = c]) (use assms(1) same(1-4) visited_cong in \<open>auto simp: protocol_inv_def\<close>)
    show "thread_inv (c\<lparr>memory := s'\<rparr>) tis t" for t
      by (rule thread_inv_cong [where c = c]) (use assms(1) same(1-4) in \<open>auto simp: protocol_inv_def\<close>)
  qed (use assms(1) in \<open>simp add: protocol_inv_def\<close>)
qed

text \<open>The list, at the place of the collector.\<close>

lemma chain_at:
  "chain m nx p (as @ ti # bs) \<Longrightarrow> \<exists>T. m ti = Some T \<and> nx T = first_of bs"
proof (induction as arbitrary: p)
  case Nil
  then show ?case
    by (cases bs) (auto simp: first_of_def)
qed auto

lemma chain_first: "chain m nx p xs \<Longrightarrow> p = first_of xs"
  by (cases xs) (auto simp: first_of_def)

text \<open>The steps of the collector.\<close>

abbreviation collected :: "process \<Rightarrow> collector_pc \<Rightarrow> rt \<Rightarrow> process" where
  "collected c pc' s' \<equiv> c\<lparr>memory := s', collector := pc',
     stacks_scanned := (if collector c = Period_start then {} else stacks_scanned c)\<rparr>"

lemma protocol_invD:
  assumes "protocol_inv c tis"
  shows "attached (memory c) tis" "collector_inv c tis" "thread_inv c tis t"
    "inside c = Some Collector \<longleftrightarrow> (\<exists>ti. collector c = Await ti)"
    "chain (threads (heap (memory c))) threadinfo_next (thread_list (heap (memory c))) tis"
  using assms by (simp_all add: protocol_inv_def attached_def)

lemma collect_move:
  assumes inv: "protocol_inv c tis" and part: "protocol_part s' = protocol_part (memory c)"
    and col: "collector_inv (collected c pc' s') tis" and pc: "collector c \<noteq> Period_start"
      "meeting pc' = meeting (collector c)" "(\<exists>ti. pc' = Await ti) = (\<exists>ti. collector c = Await ti)"
  shows "protocol_inv (collected c pc' s') tis"
proof -
  note same = protocol_part_same [OF part]
  show ?thesis
    unfolding protocol_inv_def
  proof (intro conjI allI)
    show "attached (memory (collected c pc' s')) tis"
      using same(5) [OF protocol_invD(1) [OF inv]] by simp
    show "thread_inv (collected c pc' s') tis t" for t
      by (rule thread_inv_cong [where c = c]) (use protocol_invD(3) [OF inv] same(1-4) pc in auto)
  qed (use col pc protocol_invD(4) [OF inv] in auto)
qed

lemma collect_seen:
  assumes "protocol_part s' = protocol_part (memory c)" and "collector c \<noteq> Period_start" and "visited c ts"
  shows "visited (collected c pc' s') ts"
  by (rule visited_cong [OF assms(3)]) (use protocol_part_same [OF assms(1)] assms(2) in auto)

lemma collect_period_start:
  assumes inv: "protocol_inv c tis" and pc: "collector c = Period_start"
    and run: "pup_gc_period_start (memory c) = Ret () s'"
  shows "protocol_inv (collected c List_head s') tis"
proof -
  note e = period_start_effect [OF run]
  show ?thesis
    unfolding protocol_inv_def
  proof (intro conjI allI)
    show "attached (memory (collected c List_head s')) tis"
      using e(4) [OF protocol_invD(1) [OF inv]] by simp
    show "thread_inv (collected c List_head s') tis t" for t
      by (rule thread_inv_cong [where c = c]) (use protocol_invD(3) [OF inv] e(1-3) pc in auto)
  qed (use protocol_invD(4) [OF inv] pc in \<open>auto simp: collector_inv_def\<close>)
qed

text \<open>At a struct, or at the end of the list.\<close>

lemma collect_visit:
  assumes inv: "protocol_inv c tis" and pc: "collector c = Visit p"
    and st: "collector_step mprotect_ok munmap_ok (Visit p) (memory c) = Ret pc' s'"
  shows "protocol_inv (collected c pc' s') tis"
proof -
  note D = protocol_invD [OF inv]
  obtain as bs where at: "tis = as @ bs" "visited c as" "p = first_of bs"
    using D(2) pc by (auto simp: collector_inv_def)
  show ?thesis
  proof (cases bs)
    case Nil
    with st at(3) have "s' = memory c" "pc' = Scan"
      by (auto simp: first_of_def)
    with pc at Nil show ?thesis
      by (intro collect_move [OF inv]) (auto simp: collector_inv_def visited_def)
  next
    case (Cons ti bs')
    then have ti: "p = ti" "ti \<in> set tis" "ti \<noteq> NULL"
      using at chain_in_dom [OF D(5)] by (auto simp: first_of_def)
    then obtain T where T: "threads (heap (memory c)) ti = Some T" "\<forall>t. info (memory c) t = ti \<longleftrightarrow> t = tid T"
      using D(1) by (auto simp: attached_def)
    then have r: "s' = memory c" "pc' = Signal ti (tid T)"
      using st ti by (auto simp: get_thread_def)
    have "visited (collected c pc' s') as"
      by (rule collect_seen) (use r at pc in auto)
    with r T pc at Cons show ?thesis
      by (intro collect_move [OF inv]) (auto simp: collector_inv_def)
  qed
qed

lemma collect_following:
  assumes inv: "protocol_inv c tis" and pc: "collector c = Following ti"
    and st: "collector_step mprotect_ok munmap_ok (Following ti) (memory c) = Ret pc' s'"
  shows "protocol_inv (collected c pc' s') tis"
proof -
  obtain as bs where at: "tis = as @ ti # bs" "visited c (as @ [ti])"
    using protocol_invD(2) [OF inv] pc by (auto simp: collector_inv_def)
  obtain T where "threads (heap (memory c)) ti = Some T" "threadinfo_next T = first_of bs"
    using chain_at protocol_invD(5) [OF inv] at(1) by blast
  then have r: "s' = memory c" "pc' = Visit (first_of bs)"
    using st by (auto simp: load_threadinfo_next_def)
  have "visited (collected c pc' s') (as @ [ti])"
    by (rule collect_seen) (use r at pc in auto)
  with r pc at(1) show ?thesis
    by (intro collect_move [OF inv] collector_inv_Visit [where as = "as @ [ti]" and bs = bs]) auto
qed

lemma collect_inv:
  assumes inv: "protocol_inv c tis"
    and st: "collector_step mprotect_ok munmap_ok (collector c) (memory c) = Ret pc' s'"
  shows "protocol_inv (collected c pc' s') tis" (is "protocol_inv ?c tis")
proof -
  note col = protocol_invD(2) [OF inv]
  have stay: "protocol_inv ?c tis" if "s' = memory c" "pc' = collector c" "collector c \<noteq> Period_start"
  proof -
    have "?c = c"
      using that by simp
    with inv show ?thesis by simp
  qed
  show ?thesis
  proof (cases "collector c")
    case Asleep
    with st show ?thesis
      by (intro collect_move [OF inv]) (auto simp: collector_inv_def)
  next
    case Period_start
    then have "pc' = List_head" "pup_gc_period_start (memory c) = Ret () s'"
      using st by (auto simp: outcome_simps)
    with collect_period_start [OF inv Period_start] show ?thesis
      by simp
  next
    case List_head
    with st have "s' = memory c" "pc' = Visit (first_of tis)"
      using chain_first [OF protocol_invD(5) [OF inv]] by (auto simp: get_thread_list_head_def)
    with List_head show ?thesis
      by (intro collect_move [OF inv] collector_inv_Visit [where as = "[]" and bs = tis]) (auto simp: visited_def)
  next
    case (Visit p)
    show ?thesis
      by (rule collect_visit [OF inv Visit st [unfolded Visit]])
  next
    case (Following ti)
    show ?thesis
      by (rule collect_following [OF inv Following st [unfolded Following]])
  next
    case Scan
    then have "pc' = Sweep" and run: "pup_gc_scan_heap (memory c) = Ret () s'"
      using st by (auto simp: outcome_simps)
    with keptD [OF kept_scan_heap run] Scan col collect_seen [of s' c tis] show ?thesis
      by (intro collect_move [OF inv]) (auto simp: collector_inv_def)
  next
    case Sweep
    then have "pc' = Period_end" and run: "collect_unmarked_objects mprotect_ok munmap_ok (memory c) = Ret () s'"
      using st by (auto simp: outcome_simps)
    with keptD [OF kept_collect run] Sweep col collect_seen [of s' c tis] show ?thesis
      by (intro collect_move [OF inv]) (auto simp: collector_inv_def)
  next
    case Period_end
    then have "pc' = Asleep" "s' = memory c"
      using st by (auto simp: pup_gc_period_end_def outcome_simps)
    with Period_end show ?thesis
      by (intro collect_move [OF inv]) (auto simp: collector_inv_def)
  qed (rule stay; use st in auto)+
qed

text \<open>Sending the signal: nobody was at the barrier or waited for, and now one thread is expected.\<close>

lemma signal_inv:
  assumes inv: "protocol_inv c tis" and pc: "collector c = Signal ti th"
  shows "protocol_inv (c\<lparr>collector := Meet ti, pending := insert th (pending c)\<rparr>) tis" (is "protocol_inv ?c tis")
  unfolding protocol_inv_def
proof (intro conjI allI)
  show "attached (memory ?c) tis"
    using inv by (simp add: protocol_inv_def)
  obtain as bs where at: "tis = as @ ti # bs" "visited c as" and th: "info (memory c) th = ti"
    using inv pc by (auto simp: protocol_inv_def collector_inv_def)
  have "visited ?c as"
    by (rule visited_cong [OF at(2)]) simp_all
  with at show "collector_inv ?c tis"
    by (auto simp: collector_inv_def)
  show "(inside ?c = Some Collector) = (\<exists>ti. collector ?c = Await ti)"
    using inv pc by (auto simp: protocol_inv_def)
  have own: "info (memory c) t = ti \<longleftrightarrow> t = th" for t
    using attached_own [of "memory c" tis th t] inv at(1) th by (auto simp: protocol_inv_def)
  fix t
  have "thread_inv c tis t"
    using inv by (simp add: protocol_inv_def)
  then show "thread_inv ?c tis t"
    using pc own [of t] eq_commute [of ti "info (memory c) t"]
    by (cases "t = th"; cases "mutator c t") (simp_all add: thread_inv_def thread_ok_def)
qed

text \<open>The steps of one thread.\<close>

lemma thread_inv_other:
  assumes "thread_inv c tis u" and "info (memory c') = info (memory c)"
    and "flag (memory c') (info (memory c) u) = flag (memory c) (info (memory c) u)"
    and "mark_of (memory c') (info (memory c) u) = mark_of (memory c) (info (memory c) u)"
    and "cycle_mark (memory c') = cycle_mark (memory c)"
    and "u \<in> pending c' \<longleftrightarrow> u \<in> pending c" and "inside c' = Some (Mutator u) \<longleftrightarrow> inside c = Some (Mutator u)"
    and "mutator c' u = mutator c u" and "u \<in> stacks_scanned c' \<longleftrightarrow> u \<in> stacks_scanned c"
    and "meeting (collector c') = Some (info (memory c) u) \<longleftrightarrow> meeting (collector c) = Some (info (memory c) u)"
  shows "thread_inv c' tis u"
  using assms by (simp add: thread_inv_def)

lemma handle_inv:
  assumes inv: "protocol_inv c tis" and t: "t \<in> pending c"
    and run: "siguser1_handler True ((memory c)\<lparr>self := t\<rparr>) = Ret () s'"
  shows "protocol_inv (c\<lparr>memory := s', pending := pending c - {t}\<rparr>) tis" (is "protocol_inv ?c tis")
proof -
  note e = handler_effect [OF run]
  have mine: "thread_inv c tis u" for u
    using inv by (simp add: protocol_inv_def)
  have met: "meeting (collector c) = Some (info (memory c) t)"
    using mine [of t] t by (simp add: thread_inv_def thread_ok_def)
  then obtain as bs where at: "tis = as @ info (memory c) t # bs" "visited c as"
    using inv by (cases "collector c") (auto simp: protocol_inv_def collector_inv_def)
  then have "info (memory c) t \<in> set tis"
    by simp
  then have own: "info (memory c) u = info (memory c) t \<Longrightarrow> u = t" for u
    using attached_own [of "memory c" tis t u] inv by (simp add: protocol_inv_def)
  have seen: "visited ?c ts" if "visited c ts" for ts
    using that e by (auto simp: visited_def)
  show ?thesis
    unfolding protocol_inv_def
  proof (intro conjI allI)
    show "attached (memory ?c) tis"
      using inv e(5) by (simp add: protocol_inv_def)
    show "collector_inv ?c tis"
      by (rule collector_inv_cong [where c = c]) (use inv e(1) seen in \<open>auto simp: protocol_inv_def\<close>)
    show "(inside ?c = Some Collector) = (\<exists>ti. collector ?c = Await ti)"
      using inv by (simp add: protocol_inv_def)
    fix u
    show "thread_inv ?c tis u"
    proof (cases "u = t")
      case True
      have now: "info s' t = info (memory c) t" "flag s' (info (memory c) t)"
          "mark_of s' (info (memory c) t) = ucast (cycle_mark s')"
        by (simp_all add: e(1-4))
      from mine [of t] have "thread_ok (info (memory c) t) True True (flag (memory c) (info (memory c) t))
          (mark_of (memory c) (info (memory c) t) = ucast (cycle_mark (memory c))) (t \<in> stacks_scanned c)
          (inside c = Some (Mutator t)) (info (memory c) t \<in> set tis) (mutator c t)"
        by (simp add: thread_inv_def met t)
      then have "thread_ok (info (memory c) t) True False True True (t \<in> stacks_scanned c)
          (inside c = Some (Mutator t)) (info (memory c) t \<in> set tis) (mutator c t)"
        by (cases "mutator c t") (simp_all add: thread_ok_def)
      with now met True show ?thesis
        by (simp add: thread_inv_def)
    next
      case False
      then have "info (memory c) u \<noteq> info (memory c) t"
        using own by blast
      with False show ?thesis
        by (intro thread_inv_other [OF mine [of u]]) (simp_all add: e(1-4))
    qed
  qed
qed

lemma meeting_at:
  assumes "protocol_inv c tis" and "meeting (collector c) = Some ti"
  obtains as bs where "tis = as @ ti # bs" and "visited c as"
  using assms by (cases "collector c") (auto simp: protocol_inv_def collector_inv_def)

lemma expected_own:
  assumes inv: "protocol_inv c tis" and "meeting (collector c) = Some (info (memory c) t)"
    and "info (memory c) u = info (memory c) t"
  shows "u = t"
proof -
  obtain as bs where "tis = as @ info (memory c) t # bs"
    using meeting_at [OF assms(1,2)] by blast
  with attached_own [of "memory c" tis t u] assms(1,3) show ?thesis
    by (simp add: protocol_inv_def)
qed

text \<open>The one expected and the collector leave the barrier.\<close>

lemma release_inv:
  assumes inv: "protocol_inv c tis" and t: "mutator c t \<in> {Arriving ti, In_barrier ti}"
  shows "meeting (collector c) = Some ti"
    and "protocol_inv (c\<lparr>collector := Following ti, mutator := (mutator c)(t := Leaving ti), inside := None\<rparr>) tis"
      (is "protocol_inv ?c tis")
proof -
  have thr: "thread_inv c tis u" for u
    using inv by (simp add: protocol_inv_def)
  have ti: "ti = info (memory c) t" and met: "meeting (collector c) = Some (info (memory c) t)"
    and up: "flag (memory c) (info (memory c) t)" and pend: "t \<notin> pending c" and sc: "t \<in> stacks_scanned c"
    and fresh: "mark_of (memory c) (info (memory c) t) = ucast (cycle_mark (memory c))"
    using thr [of t] t by (auto simp: thread_inv_def thread_ok_def)
  show "meeting (collector c) = Some ti"
    using met ti by simp
  obtain as bs where at: "tis = as @ ti # bs" "visited c as"
    using meeting_at [OF inv] met ti by metis
  have own: "u = t" if "info (memory c) u = info (memory c) t" for u
    by (rule expected_own [OF inv met that])
  have "visited c (as @ [ti])"
    using at(2) sc fresh own ti unfolding visited_def by auto
  then have seen: "visited ?c (as @ [ti])"
    by (rule visited_cong) simp_all
  have others: "\<not> (inside c = Some (Mutator u))" if "u \<noteq> t" for u
  proof
    assume "inside c = Some (Mutator u)"
    then have "meeting (collector c) = Some (info (memory c) u)"
      using thr [of u] by (cases "mutator c u") (simp_all add: thread_inv_def thread_ok_def)
    with met own [of u] that show False by simp
  qed
  show "protocol_inv ?c tis"
    unfolding protocol_inv_def
  proof (intro conjI allI)
    show "attached (memory ?c) tis"
      using inv by (simp add: protocol_inv_def)
    show "collector_inv ?c tis"
      using at(1) seen by (auto simp: collector_inv_def)
    fix u
    show "thread_inv ?c tis u"
    proof (cases "u = t")
      case True
      with up pend ti at(1) show ?thesis
        by (simp add: thread_inv_def thread_ok_def)
    next
      case False
      then have "meeting (collector c) \<noteq> Some (info (memory c) u)"
        using own [of u] met by auto
      with False thr [of u] others [OF False] show ?thesis
        by (simp add: thread_inv_def)
    qed
  qed simp
qed

lemma meet_inv:
  assumes inv: "protocol_inv c tis" and pc: "collector c = Meet ti"
  shows "protocol_inv (safepoint_barrier_wait Collector c) tis"
proof (cases "inside c")
  case None
  let ?c = "c\<lparr>collector := Await ti, inside := Some Collector\<rparr>"
  have "protocol_inv ?c tis"
    unfolding protocol_inv_def
  proof (intro conjI allI)
    show "attached (memory ?c) tis"
      using inv by (simp add: protocol_inv_def)
    obtain as bs where at: "tis = as @ ti # bs" "visited c as"
      using meeting_at [OF inv] pc by (metis meeting.simps(1))
    have "visited ?c as"
      by (rule visited_cong [OF at(2)]) simp_all
    with at(1) show "collector_inv ?c tis"
      by (auto simp: collector_inv_def)
    show "thread_inv ?c tis u" for u
    proof -
      have "thread_inv c tis u"
        using inv by (simp add: protocol_inv_def)
      with pc None show ?thesis
        by (simp add: thread_inv_def)
    qed
  qed simp
  with None pc show ?thesis
    by (simp add: safepoint_barrier_wait_def)
next
  case (Some other)
  have "inside c \<noteq> Some Collector"
    using inv pc by (simp add: protocol_inv_def)
  with Some obtain t where t: "inside c = Some (Mutator t)"
    by (cases other) auto
  have "thread_inv c tis t"
    using inv by (simp add: protocol_inv_def)
  with t obtain p where p: "mutator c t = In_barrier p" "meeting (collector c) = Some p"
    by (cases "mutator c t") (simp_all add: thread_inv_def thread_ok_def)
  with pc have "p = ti"
    by simp
  with p t pc release_inv(2) [OF inv, of t ti] show ?thesis
    by (simp add: safepoint_barrier_wait_def)
qed

lemma arrive_inv:
  assumes inv: "protocol_inv c tis" and pc: "mutator c t = Arriving ti"
  shows "protocol_inv (safepoint_barrier_wait (Mutator t) c) tis"
proof -
  have thr: "thread_inv c tis u" for u
    using inv by (simp add: protocol_inv_def)
  have ti: "ti = info (memory c) t" and met: "meeting (collector c) = Some (info (memory c) t)"
    using thr [of t] pc by (simp_all add: thread_inv_def thread_ok_def)
  show ?thesis
  proof (cases "inside c")
    case None
    let ?c = "c\<lparr>mutator := (mutator c)(t := In_barrier ti), inside := Some (Mutator t)\<rparr>"
    have "protocol_inv ?c tis"
      unfolding protocol_inv_def
    proof (intro conjI allI)
      show "attached (memory ?c) tis"
        using inv by (simp add: protocol_inv_def)
      show "collector_inv ?c tis"
        by (rule collector_inv_cong [where c = c]) (use inv visited_cong in \<open>auto simp: protocol_inv_def\<close>)
      show "(inside ?c = Some Collector) = (\<exists>ti. collector ?c = Await ti)"
        using inv None by (simp add: protocol_inv_def)
      show "thread_inv ?c tis u" for u
        using thr [of u] pc None
        by (cases "u = t"; cases "mutator c u") (simp_all add: thread_inv_def thread_ok_def)
    qed
    with None pc show ?thesis
      by (simp add: safepoint_barrier_wait_def)
  next
    case (Some other)
    show ?thesis
    proof (cases other)
      case Collector
      then obtain q where "collector c = Await q"
        using inv Some by (auto simp: protocol_inv_def)
      with met ti have "collector c = Await ti"
        by simp
      with Some Collector pc have "safepoint_barrier_wait (Mutator t) c =
          c\<lparr>collector := Following ti, mutator := (mutator c)(t := Leaving ti), inside := None\<rparr>"
        by (simp add: safepoint_barrier_wait_def)
      with release_inv(2) [OF inv, of t ti] pc show ?thesis
        by simp
    next
      case (Mutator u)
      with Some thr [of u] have "meeting (collector c) = Some (info (memory c) u)" "\<exists>p. mutator c u = In_barrier p"
        by (cases "mutator c u"; simp add: thread_inv_def thread_ok_def)+
      with met expected_own [OF inv met, of u] pc show ?thesis
        by auto
    qed
  qed
qed

text \<open>The steps of a mutator.\<close>

abbreviation mutated :: "process \<Rightarrow> u64 \<Rightarrow> mutator_pc \<Rightarrow> rt \<Rightarrow> process" where
  "mutated c t pc' s' \<equiv> c\<lparr>memory := s', mutator := (mutator c)(t := pc'),
     stacks_scanned := (case mutator c t of Scanning ti \<Rightarrow> insert t (stacks_scanned c) | _ \<Rightarrow> stacks_scanned c)\<rparr>"

lemma mutate_move:
  assumes inv: "protocol_inv c tis" and info: "info s' = info (memory c)" and mark: "mark_of s' = mark_of (memory c)"
    and cycle: "cycle_mark s' = cycle_mark (memory c)" and att: "attached s' tis"
    and flag: "\<And>u. u \<noteq> t \<Longrightarrow> flag s' (info (memory c) u) = flag (memory c) (info (memory c) u)"
    and own: "thread_inv (mutated c t pc' s') tis t"
  shows "protocol_inv (mutated c t pc' s') tis" (is "protocol_inv ?c tis")
proof -
  note D = protocol_invD [OF inv]
  have sub: "stacks_scanned c \<subseteq> stacks_scanned ?c"
    by (simp add: subset_insertI split: mutator_pc.split)
  show ?thesis
    unfolding protocol_inv_def
  proof (intro conjI allI)
    show "attached (memory ?c) tis"
      using att by simp
    show "collector_inv ?c tis"
      by (rule collector_inv_cong [OF D(2)])
        (use info mark cycle sub visited_cong [where c = c and c' = ?c] in simp_all)
    show "(inside ?c = Some Collector) = (\<exists>ti. collector ?c = Await ti)"
      using D(4) by simp
    show "thread_inv ?c tis u" for u
    proof (cases "u = t")
      case True
      with own show ?thesis by simp
    next
      case False
      with info mark cycle flag show ?thesis
        by (intro thread_inv_other [OF D(3) [of u]]) (simp_all split: mutator_pc.split)
    qed
  qed
qed

lemma mutate_same:
  assumes inv: "protocol_inv c tis" and part: "protocol_part s' = protocol_part (memory c)"
    and own: "thread_inv (mutated c t pc' s') tis t"
  shows "protocol_inv (mutated c t pc' s') tis"
  by (rule mutate_move [OF inv _ _ _ _ _ own]) (simp_all add: protocol_part_same [OF part] protocol_invD(1) [OF inv])

lemma mutate_leaving:
  assumes inv: "protocol_inv c tis" and pc: "mutator c t = Leaving ti"
    and run: "clear_gc_waiting ti ((memory c)\<lparr>self := t\<rparr>) = Ret () s'"
  shows "protocol_inv (mutated c t Running s') tis"
proof -
  note D = protocol_invD [OF inv]
  have ti: "ti = info (memory c) t" "ti \<in> set tis"
    using pc D(3) [of t] by (simp_all add: thread_inv_def thread_ok_def)
  note e = clear_effect [OF run]
  have "info (memory c) u \<noteq> ti" if "u \<noteq> t" for u
    using attached_own [of "memory c" tis t u] D(1) ti that by auto
  moreover have "attached s' tis"
    by (rule e(5)) (use D(1) in simp)
  moreover have "thread_inv (mutated c t Running s') tis t"
    using pc D(3) [of t] ti by (simp add: thread_inv_def thread_ok_def e(1-4))
  ultimately show ?thesis
    by (intro mutate_move [OF inv]) (simp_all add: e(1-4))
qed

lemma mutate_inv:
  assumes inv: "protocol_inv c tis"
    and st: "mutator_step m dlsym frames (mutator c t) ((memory c)\<lparr>self := t\<rparr>) = Ret pc' s'"
  shows "protocol_inv (mutated c t pc' s') tis" (is "protocol_inv ?c tis")
proof -
  note thr = protocol_invD(3) [OF inv, of t]
  show ?thesis
  proof (cases "mutator c t")
    case Running
    then have "s' = (memory c)\<lparr>self := t\<rparr>" "pc' = At_safepoint"
      using st by simp_all
    with Running thr show ?thesis
      by (intro mutate_same [OF inv]) (simp_all add: thread_inv_def thread_ok_def)
  next
    case At_safepoint
    then have "s' = (memory c)\<lparr>self := t\<rparr>"
      "pc' = (if flag (memory c) (info (memory c) t) then Scanning (info (memory c) t) else Running)"
      using st by (auto simp: get_thread_info_def info_def flag_def Let_def outcome_simps)
    with At_safepoint thr show ?thesis
      by (intro mutate_same [OF inv]) (simp_all add: thread_inv_def thread_ok_def)
  next
    case (Scanning ti)
    then have pc': "pc' = Arriving ti"
      and run: "pup_gc_scan_stack m dlsym frames ((memory c)\<lparr>self := t\<rparr>) = Ret () s'"
      using st by (auto simp: outcome_simps)
    have s': "protocol_part s' = protocol_part (memory c)"
      using keptD [OF kept_scan_stack run] by simp
    note e = protocol_part_same [OF s']
    show ?thesis
      by (rule mutate_same [OF inv s']) (use Scanning pc' thr in \<open>simp add: thread_inv_def thread_ok_def e(1-4)\<close>)
  next
    case (Leaving ti)
    then have "pc' = Running" "clear_gc_waiting ti ((memory c)\<lparr>self := t\<rparr>) = Ret () s'"
      using st by (auto simp: outcome_simps)
    with mutate_leaving [OF inv Leaving] show ?thesis
      by simp
  next
    case (Arriving ti)
    then have "s' = (memory c)\<lparr>self := t\<rparr>" "pc' = mutator c t"
      using st by simp_all
    with Arriving thr show ?thesis
      by (intro mutate_same [OF inv]) (simp_all add: thread_inv_def thread_ok_def)
  next
    case (In_barrier ti)
    then have "s' = (memory c)\<lparr>self := t\<rparr>" "pc' = mutator c t"
      using st by simp_all
    with In_barrier thr show ?thesis
      by (intro mutate_same [OF inv]) (simp_all add: thread_inv_def thread_ok_def)
  qed
qed

theorem protocol_step_inv: "protocol_step c c' \<Longrightarrow> protocol_inv c tis \<Longrightarrow> protocol_inv c' tis"
proof (induction rule: protocol_step.induct)
  case collect
  then show ?case by (intro collect_inv)
next
  case mutate
  then show ?case by (intro mutate_inv)
qed (simp_all only: signal_inv meet_inv handle_inv protocol_inv_memory arrive_inv)

text \<open>The start: the threads have attached, no flag is up.\<close>

definition quiet :: "rt \<Rightarrow> ptr list \<Rightarrow> bool" where
  "quiet s tis \<longleftrightarrow> attached s tis \<and> (\<forall>ti. \<not> flag s ti)"

lemma protocol_start_inv: "quiet s tis \<Longrightarrow> protocol_inv (protocol_start s) tis"
  by (simp add: quiet_def protocol_inv_def protocol_start_def collector_inv_def thread_inv_def thread_ok_def)

lemma protocol_reachable_inv:
  assumes "protocol_steps (protocol_start s) c" and "quiet s tis"
  shows "protocol_inv c tis"
  using assms(1)
proof (induction rule: rtranclp_induct)
  case base
  show ?case
    by (rule protocol_start_inv [OF assms(2)])
next
  case (step c c')
  from protocol_step_inv [OF step(2,3)] show ?case .
qed

end
