(* ===== verification/Handshake.thy ===== *)
theory Handshake
  imports Safepoint
begin

text \<open>
  What the protocol of Safepoint comes to: a cycle has seen the stack of every thread before anything
  is freed, and the collector and a thread get through the barrier in a few steps, unless the signal
  is lost, which can happen.
\<close>

section \<open>A cycle sees all threads\<close>


section \<open>The handshake with a thread\<close>

text \<open>
  The collector is at the barrier for \<open>t\<close>, but \<open>t\<close> will not come: its handler has seen the signal, and
  the flag is down, or about to be taken down by the end of the last handshake.
\<close>

definition signal_lost :: "process \<Rightarrow> u64 \<Rightarrow> bool" where
  "signal_lost c t \<longleftrightarrow>
     t \<notin> pending c \<and>
     (case mutator c t of
        Running \<Rightarrow> \<not> flag (memory c) (info (memory c) t)
      | At_safepoint \<Rightarrow> \<not> flag (memory c) (info (memory c) t)
      | Leaving _ \<Rightarrow> True
      | _ \<Rightarrow> False)"

lemma expected_thread:
  assumes "protocol_inv c tis" and "meeting (collector c) = Some (info (memory c) t)" and "thread_inv c tis u"
    and "u \<in> pending c \<or> (\<exists>p. mutator c u \<in> {Scanning p, Arriving p, In_barrier p}) \<or> inside c = Some (Mutator u)"
  shows "u = t"
proof -
  have "meeting (collector c) = Some (info (memory c) u)"
    using assms(3,4) by (cases "mutator c u") (auto simp: thread_inv_def thread_ok_def)
  with assms(2) have "info (memory c) u = info (memory c) t"
    by simp
  from expected_own [OF assms(1,2) this] show ?thesis .
qed

text \<open>The steps of a mutator raise no flag.\<close>

lemma mutator_raises_no_flag:
  assumes st: "mutator_step m dlsym frames pc ((memory c)\<lparr>self := u\<rparr>) = Ret pc' s'"
  shows "info s' = info (memory c)" "flag s' p \<Longrightarrow> flag (memory c) p"
proof -
  have "info s' = info (memory c) \<and> (flag s' p \<longrightarrow> flag (memory c) p)"
  proof (cases pc)
    case (Scanning ti)
    then have "pup_gc_scan_stack m dlsym frames ((memory c)\<lparr>self := u\<rparr>) = Ret () s'"
      using st by (auto simp: outcome_simps)
    from protocol_part_same [of s' "memory c"] keptD [OF kept_scan_stack this] show ?thesis
      by simp
  next
    case (Leaving ti)
    then have "clear_gc_waiting ti ((memory c)\<lparr>self := u\<rparr>) = Ret () s'"
      using st by (auto simp: outcome_simps)
    from clear_effect [OF this] show ?thesis
      by simp
  next
    case At_safepoint
    then have "s' = (memory c)\<lparr>self := u\<rparr>"
      using st by (auto simp: get_thread_info_def Let_def outcome_simps)
    then show ?thesis by simp
  qed (use st in auto)
  then show "info s' = info (memory c)" "flag s' p \<Longrightarrow> flag (memory c) p"
    by simp_all
qed

lemma lost_mutate:
  assumes thr: "thread_inv c tis t" and lost: "signal_lost c t"
    and st: "mutator_step m dlsym frames (mutator c u) ((memory c)\<lparr>self := u\<rparr>) = Ret pc' s'"
  shows "signal_lost (mutated c u pc' s') t"
proof -
  note keep = mutator_raises_no_flag [OF st]
  show ?thesis
  proof (cases "u = t")
    case False
    with lost keep show ?thesis
      by (cases "mutator c t") (auto simp: signal_lost_def)
  next
    case u: True
    show ?thesis
    proof (cases "mutator c t")
      case Running
      then have "pc' = At_safepoint"
        using st u by simp
      with Running lost u keep show ?thesis
        by (auto simp: signal_lost_def)
    next
      case At_safepoint
      then have "pc' = Running"
        using st u lost
        by (auto simp: signal_lost_def get_thread_info_def info_def flag_def Let_def outcome_simps)
      with At_safepoint lost u keep show ?thesis
        by (auto simp: signal_lost_def)
    next
      case (Leaving ti)
      with thr have ti: "ti = info (memory c) t"
        by (simp add: thread_inv_def thread_ok_def)
      have "pc' = Running" and run: "clear_gc_waiting ti ((memory c)\<lparr>self := t\<rparr>) = Ret () s'"
        using st u Leaving by (auto simp: outcome_simps)
      with clear_effect [OF run] Leaving lost u ti show ?thesis
        by (simp add: signal_lost_def)
    qed (use lost in \<open>simp_all add: signal_lost_def\<close>)
  qed
qed

text \<open>A signal that is lost stays lost, and the collector stays where it is.\<close>

lemma lost_step:
  assumes "protocol_step c c'" and inv: "protocol_inv c tis" and met: "meeting (collector c) = Some (info (memory c) t)"
    and lost: "signal_lost c t"
  shows "signal_lost c' t \<and> meeting (collector c') = Some (info (memory c') t) \<and> info (memory c') t = info (memory c) t"
  using assms(1)
proof (cases rule: protocol_step.cases)
  case (collect mprotect_ok munmap_ok pc' s')
  with met have "pc' = collector c" "s' = memory c"
    by (cases "collector c"; simp)+
  with collect met lost show ?thesis
    by (cases "mutator c t") (simp_all add: signal_lost_def)
next
  case (signal ti th)
  with met show ?thesis by simp
next
  case (meet ti)
  have "\<exists>p. mutator c u = In_barrier p" if "inside c = Some (Mutator u)" "thread_inv c tis u" for u
    using that by (cases "mutator c u") (simp_all add: thread_inv_def thread_ok_def)
  then have "inside c \<noteq> Some (Mutator u)" for u
    using expected_thread [OF inv met, of u] inv lost by (fastforce simp: protocol_inv_def signal_lost_def)
  moreover have "inside c \<noteq> Some Collector"
    using inv meet by (simp add: protocol_inv_def)
  ultimately have "inside c = None"
    by (cases "inside c"; cases "the (inside c)") auto
  with meet met lost show ?thesis
    by (cases "mutator c t") (simp_all add: signal_lost_def safepoint_barrier_wait_def)
next
  case (handle u s')
  then have "u = t"
    using expected_thread [OF inv met, of u] inv by (simp add: protocol_inv_def)
  with handle lost show ?thesis
    by (simp add: signal_lost_def)
next
  case (work u s')
  note e = protocol_part_same [OF work(3)]
  from work met lost show ?thesis
    by (cases "mutator c t") (simp_all add: signal_lost_def e(1-4))
next
  case (mutate m dlsym frames u pc' s')
  from lost_mutate [OF protocol_invD(3) [OF inv] lost mutate(2)] mutator_raises_no_flag(1) [OF mutate(2)] mutate(1) met
  show ?thesis
    by simp
next
  case (arrive u ti)
  then have "u = t"
    using expected_thread [OF inv met, of u] inv by (auto simp: protocol_inv_def)
  with arrive lost show ?thesis
    by (simp add: signal_lost_def)
qed

lemma lost_for_ever:
  assumes "protocol_steps c c'" and "protocol_inv c tis" and "meeting (collector c) = Some (info (memory c) t)"
    and "signal_lost c t"
  shows "meeting (collector c') = Some (info (memory c) t)"
proof -
  have "protocol_inv c' tis \<and> signal_lost c' t \<and> meeting (collector c') = Some (info (memory c') t) \<and>
      info (memory c') t = info (memory c) t"
    using assms(1)
  proof (induction rule: rtranclp_induct)
    case base
    with assms show ?case by simp
  next
    case (step c1 c2)
    with lost_step [OF step(2), of tis t] protocol_step_inv [OF step(2), of tis] show ?case
      by simp
  qed
  then show ?thesis by simp
qed

lemma one_step: "protocol_step c c' \<Longrightarrow> (protocol_step ^^ Suc 0) c c'"
  by (simp add: eq_OO)

lemma more_steps: "protocol_step c c' \<Longrightarrow> (protocol_step ^^ n) c' c'' \<Longrightarrow> (protocol_step ^^ Suc n) c c''"
  by (rule relpowp_Suc_I2)

text \<open>The steps a thread that is expected can take.\<close>

lemma can_handle:
  assumes "protocol_inv c tis" and "t \<in> pending c"
  shows "\<exists>s'. protocol_step c (c\<lparr>memory := s', pending := pending c - {t}\<rparr>) \<and> info s' = info (memory c) \<and>
    flag s' (info (memory c) t) \<and> gc s' = gc (memory c) \<and> region_list (heap s') = region_list (heap (memory c))"
proof -
  have "meeting (collector c) = Some (info (memory c) t)"
    using assms by (simp add: protocol_inv_def thread_inv_def thread_ok_def)
  then obtain as bs where "tis = as @ info (memory c) t # bs"
    using meeting_at [OF assms(1)] by metis
  then have "info (memory c) t \<in> set tis"
    by simp
  moreover have "chain (threads (heap (memory c))) threadinfo_next (thread_list (heap (memory c))) tis"
    and att: "attached (memory c) tis"
    using assms(1) by (simp_all add: protocol_inv_def attached_def)
  ultimately have ti: "info (memory c) t \<noteq> NULL" "info (memory c) t \<in> dom (threads (heap (memory c)))"
    using chain_in_dom by fast+
  then obtain T where T: "threads (heap (memory c)) (info (memory c) t) = Some T"
    by blast
  obtain g where g: "gc (memory c) = Some g"
    using att by (auto simp: attached_def)
  let ?s = "(memory c)\<lparr>self := t, heap := (heap (memory c))\<lparr>threads := (threads (heap (memory c)))(info (memory c) t \<mapsto>
      T\<lparr>gc_waiting := True, current_gc_mark := ucast (live_mark_value g)\<rparr>)\<rparr>\<rparr>"
  have run: "siguser1_handler True ((memory c)\<lparr>self := t\<rparr>) = Ret () ?s"
    using T g ti(1)
    by (simp add: siguser1_handler_def get_thread_info_def with_thread_def pup_gc_get_current_mark_def info_def)
  from protocol_step.handle [OF assms(2) run] handler_effect(1,2) [OF run] show ?thesis
    by (intro exI [of _ ?s]) simp
qed

lemma can_enter:
  assumes "mutator c t = Running"
  shows "protocol_step c (c\<lparr>memory := (memory c)\<lparr>self := t\<rparr>, mutator := (mutator c)(t := At_safepoint)\<rparr>)"
  using protocol_step.mutate [of Map.empty Map.empty None c t At_safepoint "(memory c)\<lparr>self := t\<rparr>"] assms
  by simp

lemma can_check:
  assumes "mutator c t = At_safepoint" and "flag (memory c) (info (memory c) t)" and "info (memory c) t \<noteq> NULL"
  shows "protocol_step c (c\<lparr>memory := (memory c)\<lparr>self := t\<rparr>, mutator := (mutator c)(t := Scanning (info (memory c) t))\<rparr>)"
proof -
  obtain T where "threads (heap (memory c)) (info (memory c) t) = Some T" "gc_waiting T"
    using assms(2) by (auto simp: flag_def split: option.splits)
  then have "mutator_step Map.empty Map.empty None (mutator c t) ((memory c)\<lparr>self := t\<rparr>) =
      Ret (Scanning (info (memory c) t)) ((memory c)\<lparr>self := t\<rparr>)"
    using assms(1,3) by (simp add: get_thread_info_def info_def)
  from protocol_step.mutate [OF this] assms(1) show ?thesis
    by simp
qed

lemma can_scan:
  assumes "mutator c t = Scanning ti"
  shows "protocol_step c (c\<lparr>memory := (memory c)\<lparr>self := t\<rparr>, mutator := (mutator c)(t := Arriving ti),
    stacks_scanned := insert t (stacks_scanned c)\<rparr>)"
  using protocol_step.mutate [of Map.empty Map.empty None c t "Arriving ti" "(memory c)\<lparr>self := t\<rparr>"] assms
  by (simp add: pup_gc_scan_stack_def)

text \<open>
  Up to the barrier, with what is kept on the way: the structs of the collector and of the heap, and
  where the others are.
\<close>

definition comes_to :: "u64 \<Rightarrow> process \<Rightarrow> mutator_pc \<Rightarrow> process \<Rightarrow> bool" where
  "comes_to t c pc c' \<longleftrightarrow>
     mutator c' = (mutator c)(t := pc) \<and> collector c' = collector c \<and> inside c' = inside c \<and>
     gc (memory c') = gc (memory c) \<and> region_list (heap (memory c')) = region_list (heap (memory c)) \<and>
     info (memory c') = info (memory c) \<and> pending c' = pending c - {t}"

lemma comes_to_trans:
  "comes_to t c pc c' \<Longrightarrow> comes_to t c' pc' c'' \<Longrightarrow> comes_to t c pc' c''"
  by (simp add: comes_to_def)

lemma comes_from_flag:
  assumes inv: "protocol_inv c tis" and met: "meeting (collector c) = Some (info (memory c) t)"
    and up: "flag (memory c) (info (memory c) t)" and pend: "t \<notin> pending c" and pc: "mutator c t \<in> {Running, At_safepoint}"
  shows "\<exists>n c'. n \<le> 3 \<and> (protocol_step ^^ n) c c' \<and> comes_to t c (Arriving (info (memory c) t)) c'"
proof -
  let ?ti = "info (memory c) t"
  let ?s = "(memory c)\<lparr>self := t\<rparr>"
  obtain as bs where "tis = as @ ?ti # bs"
    using meeting_at [OF inv met] by metis
  then have "?ti \<in> set tis"
    by simp
  then have ti: "?ti \<noteq> NULL"
    using inv chain_in_dom by (fastforce simp: protocol_inv_def attached_def)
  have scan: "\<exists>c'. (protocol_step ^^ 2) c1 c' \<and> comes_to t c (Arriving ?ti) c'"
    if c1: "mutator c1 = (mutator c)(t := At_safepoint)" "memory c1 \<in> {memory c, ?s}" "collector c1 = collector c"
      "inside c1 = inside c" "pending c1 = pending c" for c1
  proof -
    let ?c2 = "c1\<lparr>memory := (memory c1)\<lparr>self := t\<rparr>, mutator := (mutator c1)(t := Scanning ?ti)\<rparr>"
    let ?c3 = "?c2\<lparr>memory := (memory ?c2)\<lparr>self := t\<rparr>, mutator := (mutator ?c2)(t := Arriving ?ti),
      stacks_scanned := insert t (stacks_scanned ?c2)\<rparr>"
    have s: "info (memory c1) = info (memory c)" "flag (memory c1) = flag (memory c)"
        "gc (memory c1) = gc (memory c)" "heap (memory c1) = heap (memory c)"
      using c1(2) by auto
    have "protocol_step c1 ?c2"
      using can_check [of c1 t] c1(1) s(1,2) up ti by simp
    moreover have "protocol_step ?c2 ?c3"
      using can_scan [of ?c2 t ?ti] by simp
    ultimately have "(protocol_step ^^ 2) c1 ?c3"
      by (simp only: numeral_2_eq_2) (blast intro: more_steps one_step)
    moreover have "comes_to t c (Arriving ?ti) ?c3"
      using c1 s pend by (simp add: comes_to_def)
    ultimately show ?thesis by blast
  qed
  show ?thesis
  proof (cases "mutator c t = Running")
    case True
    let ?c1 = "c\<lparr>memory := ?s, mutator := (mutator c)(t := At_safepoint)\<rparr>"
    obtain c' where "(protocol_step ^^ 2) ?c1 c'" "comes_to t c (Arriving ?ti) c'"
      using scan [of ?c1] by auto
    moreover have "(protocol_step ^^ Suc 2) c c'"
      by (rule more_steps [OF can_enter [OF True] calculation(1)])
    ultimately show ?thesis
      by (intro exI [of _ "Suc 2"] exI [of _ c']) simp
  next
    case False
    then have "mutator c = (mutator c)(t := At_safepoint)"
      using pc by (auto simp: fun_eq_iff)
    then obtain c' where "(protocol_step ^^ 2) c c'" "comes_to t c (Arriving ?ti) c'"
      using scan [of c] by auto
    then show ?thesis
      by (intro exI [of _ 2] exI [of _ c']) simp
  qed
qed

lemma comes_from_pending:
  assumes inv: "protocol_inv c tis" and pend: "t \<in> pending c" and pc: "mutator c t \<in> {Running, At_safepoint}"
  shows "\<exists>n c'. n \<le> 4 \<and> (protocol_step ^^ n) c c' \<and> comes_to t c (Arriving (info (memory c) t)) c'"
proof -
  have met: "meeting (collector c) = Some (info (memory c) t)"
    using inv pend by (simp add: protocol_inv_def thread_inv_def thread_ok_def)
  obtain s' where s': "protocol_step c (c\<lparr>memory := s', pending := pending c - {t}\<rparr>)" (is "protocol_step c ?c1")
      "info s' = info (memory c)" "flag s' (info (memory c) t)" "gc s' = gc (memory c)"
      "region_list (heap s') = region_list (heap (memory c))"
    using can_handle [OF inv pend] by blast
  have "protocol_inv ?c1 tis"
    by (rule protocol_step_inv [OF s'(1) inv])
  then obtain n c' where n: "n \<le> 3" "(protocol_step ^^ n) ?c1 c'" "comes_to t ?c1 (Arriving (info (memory c) t)) c'"
    using comes_from_flag [of ?c1 tis t] met pc s'(2,3) by auto
  have "(protocol_step ^^ Suc n) c c'"
    by (rule more_steps [OF s'(1) n(2)])
  moreover have "comes_to t c (Arriving (info (memory c) t)) c'"
    using n(3) s'(2,4,5) by (simp add: comes_to_def)
  ultimately show ?thesis
    using n(1) by (intro exI [of _ "Suc n"] exI [of _ c']) simp
qed

definition met_at :: "process \<Rightarrow> u64 \<Rightarrow> ptr \<Rightarrow> process" where
  "met_at c t ti = c\<lparr>collector := Following ti, mutator := (mutator c)(t := Leaving ti), inside := None\<rparr>"

text \<open>The one that comes first waits inside, the second lets both go.\<close>

lemma mutator_second:
  assumes "collector c = Await ti" and "inside c = Some Collector" and pc: "mutator c t = Arriving ti"
  shows "protocol_step c (met_at c t ti)"
proof -
  have "safepoint_barrier_wait (Mutator t) c = met_at c t ti"
    using assms by (simp add: safepoint_barrier_wait_def met_at_def)
  with protocol_step.arrive [OF pc] show ?thesis
    by simp
qed

lemma collector_second:
  assumes pc: "collector c = Meet ti" and "inside c = Some (Mutator t)" and "mutator c t = In_barrier ti"
  shows "protocol_step c (met_at c t ti)"
proof -
  have "safepoint_barrier_wait Collector c = met_at c t ti"
    using assms by (simp add: safepoint_barrier_wait_def met_at_def)
  with protocol_step.meet [OF pc] show ?thesis
    by simp
qed

lemma collector_first:
  assumes inv: "protocol_inv c tis" and pc: "collector c = Meet ti" "mutator c t = Arriving ti"
  shows "protocol_step c (c\<lparr>collector := Await ti, inside := Some Collector\<rparr>)"
proof -
  note thr = protocol_invD(3) [OF inv, of t]
  have "inside c = None"
  proof (cases "inside c")
    case (Some other)
    then obtain u where u: "inside c = Some (Mutator u)"
      using protocol_invD(4) [OF inv] pc by (cases other) auto
    have "info (memory c) t = ti"
      using thr pc by (simp add: thread_inv_def thread_ok_def)
    then have "u = t"
      using expected_thread [OF inv, of t u] pc(1) u protocol_invD(3) [OF inv] by simp
    with u thr pc show ?thesis
      by (simp add: thread_inv_def thread_ok_def)
  qed
  then have "safepoint_barrier_wait Collector c = c\<lparr>collector := Await ti, inside := Some Collector\<rparr>"
    using pc by (simp add: safepoint_barrier_wait_def)
  with protocol_step.meet [OF pc(1)] show ?thesis
    by simp
qed

lemma they_meet:
  assumes inv: "protocol_inv c tis" and t: "mutator c t \<in> {Arriving ti, In_barrier ti}"
  shows "\<exists>n. n \<le> 2 \<and> (protocol_step ^^ n) c (met_at c t ti)"
proof -
  note thr = protocol_invD(3) [OF inv, of t]
  have one: ?thesis if "protocol_step c (met_at c t ti)"
    using that by (intro exI [of _ "Suc 0"]) (simp add: eq_OO)
  consider "collector c = Await ti" | "collector c = Meet ti"
    using release_inv(1) [OF inv t] by (cases "collector c") simp_all
  then show ?thesis
  proof cases
    case 1
    then have "inside c = Some Collector" "mutator c t = Arriving ti"
      using protocol_invD(4) [OF inv] t thr by (auto simp: thread_inv_def thread_ok_def)
    with mutator_second [OF 1] show ?thesis
      by (intro one)
  next
    case pc: 2
    show ?thesis
    proof (cases "mutator c t = Arriving ti")
      case True
      let ?c1 = "c\<lparr>collector := Await ti, inside := Some Collector\<rparr>"
      have "protocol_step ?c1 (met_at ?c1 t ti)"
        by (rule mutator_second) (use True in simp_all)
      then have "protocol_step ?c1 (met_at c t ti)"
        by (simp add: met_at_def)
      then have "(protocol_step ^^ Suc (Suc 0)) c (met_at c t ti)"
        by (intro more_steps [OF collector_first [OF inv pc True]] one_step)
      then show ?thesis
        by (intro exI [of _ "Suc (Suc 0)"]) simp
    next
      case False
      with t have b: "mutator c t = In_barrier ti"
        by simp
      moreover from this have "inside c = Some (Mutator t)"
        using thr by (simp add: thread_inv_def thread_ok_def)
      ultimately show ?thesis
        by (intro one collector_second [OF pc])
    qed
  qed
qed

lemma arrives_and_meets:
  assumes "protocol_inv c tis" and "(protocol_step ^^ n) c c1" and "comes_to t c (Arriving ti) c1" and "n \<le> k"
  shows "\<exists>n c'. n \<le> k + 2 \<and> (protocol_step ^^ n) c c' \<and> collector c' = Following ti"
proof -
  have "protocol_inv c1 tis"
    using relpowp_imp_rtranclp [OF assms(2)] assms(1)
    by (induction rule: rtranclp_induct) (auto intro: protocol_step_inv)
  then obtain n' where n': "n' \<le> 2" "(protocol_step ^^ n') c1 (met_at c1 t ti)"
    using they_meet [of c1 tis t ti] assms(3) by (auto simp: comes_to_def)
  have "(protocol_step ^^ (n + n')) c (met_at c1 t ti)"
    by (rule relpowp_trans [OF assms(2) n'(2)])
  then show ?thesis
    using n'(1) assms(4) by (intro exI [of _ "n + n'"] exI [of _ "met_at c1 t ti"]) (simp add: met_at_def)
qed

text \<open>From each place in the code.\<close>

lemma meets_from_running:
  assumes inv: "protocol_inv c tis" and met: "meeting (collector c) = Some (info (memory c) t)"
    and pc: "mutator c t \<in> {Running, At_safepoint}" and lost: "\<not> signal_lost c t"
  shows "\<exists>n c'. n \<le> 6 \<and> (protocol_step ^^ n) c c' \<and> collector c' = Following (info (memory c) t)"
proof (cases "t \<in> pending c")
  case True
  with comes_from_pending [OF inv True pc] obtain n c1
    where n: "n \<le> 4" "(protocol_step ^^ n) c c1" "comes_to t c (Arriving (info (memory c) t)) c1"
    by blast
  from arrives_and_meets [OF inv n(2,3,1)] show ?thesis
    by simp
next
  case False
  then have "flag (memory c) (info (memory c) t)"
    using lost pc by (auto simp: signal_lost_def)
  with comes_from_flag [OF inv met _ False pc] obtain n c1
    where n: "n \<le> 3" "(protocol_step ^^ n) c c1" "comes_to t c (Arriving (info (memory c) t)) c1"
    by blast
  from arrives_and_meets [OF inv n(2,3), of 4] n(1) show ?thesis
    by simp
qed

lemma meets_from_scanning:
  assumes inv: "protocol_inv c tis" and pc: "mutator c t = Scanning p"
  shows "\<exists>n c'. n \<le> 3 \<and> (protocol_step ^^ n) c c' \<and> collector c' = Following (info (memory c) t)"
proof -
  let ?c1 = "c\<lparr>memory := (memory c)\<lparr>self := t\<rparr>, mutator := (mutator c)(t := Arriving (info (memory c) t)),
    stacks_scanned := insert t (stacks_scanned c)\<rparr>"
  have "p = info (memory c) t" "t \<notin> pending c"
    using protocol_invD(3) [OF inv, of t] pc by (simp_all add: thread_inv_def thread_ok_def)
  then have "comes_to t c (Arriving (info (memory c) t)) ?c1" "(protocol_step ^^ Suc 0) c ?c1"
    using can_scan [of c t "info (memory c) t"] pc by (simp_all add: comes_to_def eq_OO)
  from arrives_and_meets [OF inv this(2,1), of 1] show ?thesis
    by (simp add: numeral_3_eq_3)
qed

lemma meets_from_leaving:
  assumes inv: "protocol_inv c tis" and pc: "mutator c t = Leaving p" and pend: "t \<in> pending c"
  shows "\<exists>n c'. n \<le> 7 \<and> (protocol_step ^^ n) c c' \<and> collector c' = Following (info (memory c) t)"
proof -
  let ?ti = "info (memory c) t"
  have p: "p = ?ti" "flag (memory c) ?ti"
    using protocol_invD(3) [OF inv, of t] pc by (simp_all add: thread_inv_def thread_ok_def)
  from p(2) obtain T where T: "threads (heap (memory c)) ?ti = Some T"
    by (auto simp: flag_def split: option.splits)
  let ?s = "(memory c)\<lparr>self := t, heap := (heap (memory c))\<lparr>threads := (threads (heap (memory c)))(?ti \<mapsto>
    T\<lparr>gc_waiting := False\<rparr>)\<rparr>\<rparr>"
  let ?c1 = "c\<lparr>memory := ?s, mutator := (mutator c)(t := Running)\<rparr>"
  have "mutator_step Map.empty Map.empty None (mutator c t) ((memory c)\<lparr>self := t\<rparr>) = Ret Running ?s"
    using pc p T by (simp add: clear_gc_waiting_def with_thread_def)
  from protocol_step.mutate [OF this] pc have 1: "protocol_step c ?c1"
    by simp
  have inv1: "protocol_inv ?c1 tis"
    by (rule protocol_step_inv [OF 1 inv])
  have "info ?s = info (memory c)"
    by (simp add: info_def fun_eq_iff)
  with comes_from_pending [OF inv1, of t] pend obtain n c1
    where n: "n \<le> 4" "(protocol_step ^^ n) ?c1 c1" "comes_to t ?c1 (Arriving ?ti) c1"
    by auto
  from arrives_and_meets [OF inv1 n(2,3,1)] obtain n' c'
    where "n' \<le> 6" "(protocol_step ^^ n') ?c1 c'" "collector c' = Following ?ti"
    by auto
  with more_steps [OF 1 this(2)] show ?thesis
    by (intro exI [of _ "Suc n'"] exI [of _ c']) simp
qed

lemma handshake_completes:
  assumes inv: "protocol_inv c tis" and met: "meeting (collector c) = Some (info (memory c) t)"
    and lost: "\<not> signal_lost c t"
  shows "\<exists>n c'. n \<le> 7 \<and> (protocol_step ^^ n) c c' \<and> collector c' = Following (info (memory c) t)"
proof -
  let ?ti = "info (memory c) t"
  note thr = protocol_invD(3) [OF inv, of t]
  have fewer: ?thesis
    if "\<exists>n c'. n \<le> k \<and> (protocol_step ^^ n) c c' \<and> collector c' = Following ?ti" "k \<le> 7" for k
    using that by (meson order_trans)
  have there: ?thesis if "mutator c t \<in> {Arriving p, In_barrier p}" for p
  proof -
    have "p = ?ti"
      using thr that by (auto simp: thread_inv_def thread_ok_def)
    with they_meet [OF inv that] obtain n where "n \<le> 2" "(protocol_step ^^ n) c (met_at c t ?ti)"
      by auto
    then show ?thesis
      by (intro exI [of _ n] exI [of _ "met_at c t ?ti"]) (simp add: met_at_def)
  qed
  show ?thesis
  proof (cases "mutator c t")
    case (Scanning p)
    from fewer [OF meets_from_scanning [OF inv this]] show ?thesis
      by simp
  next
    case (Leaving p)
    then have "t \<in> pending c"
      using lost by (simp add: signal_lost_def)
    from meets_from_leaving [OF inv Leaving this] show ?thesis .
  qed (use fewer [OF meets_from_running [OF inv met _ lost]] there in simp_all)
qed


section \<open>A signal can be lost\<close>

definition nothing_to_do :: "rt \<Rightarrow> bool" where
  "nothing_to_do s \<longleftrightarrow> (\<exists>g. gc s = Some g \<and> reference_queue_head g = NULL) \<and> region_list (heap s) = NULL"

text \<open>The collector moves, and nobody else.\<close>

definition collector_moves :: "process \<Rightarrow> collector_pc \<Rightarrow> process \<Rightarrow> bool" where
  "collector_moves c pc c' \<longleftrightarrow>
     protocol_steps c c' \<and> collector c' = pc \<and> mutator c' = mutator c \<and> pending c' = pending c \<and>
     inside c' = inside c \<and> heap (memory c') = heap (memory c) \<and> nothing_to_do (memory c')"

lemma collector_moves_trans:
  "collector_moves c pc c' \<Longrightarrow> collector_moves c' pc' c'' \<Longrightarrow> collector_moves c pc' c''"
  unfolding collector_moves_def by auto

lemma collector_moves_step:
  assumes "collector c = pc" and "collector_step (\<lambda>_. True) (\<lambda>_. True) pc (memory c) = Ret pc' s'"
    and "heap s' = heap (memory c)" and "nothing_to_do s'"
  shows "\<exists>c'. collector_moves c pc' c'"
proof -
  have "collector_step (\<lambda>_. True) (\<lambda>_. True) (collector c) (memory c) = Ret pc' s'"
    using assms(1,2) by simp
  from r_into_rtranclp [of protocol_step, OF protocol_step.collect [OF this]] assms(3,4)
  have "collector_moves c pc' (c\<lparr>memory := s', collector := pc',
      stacks_scanned := (if collector c = Period_start then {} else stacks_scanned c)\<rparr>)"
    by (simp add: collector_moves_def)
  then show ?thesis by blast
qed

lemma collector_to_signal:
  assumes c: "collector c = Asleep" "nothing_to_do (memory c)"
    and T: "thread_list (heap (memory c)) = ti" "ti \<noteq> NULL" "threads (heap (memory c)) ti = Some T"
  shows "\<exists>c'. collector_moves c (Signal ti (tid T)) c'"
proof -
  obtain c1 where 1: "collector_moves c Period_start c1"
    using collector_moves_step [OF c(1)] c(2) by auto
  have c1: "collector c1 = Period_start" "nothing_to_do (memory c1)" "heap (memory c1) = heap (memory c)"
    using 1 by (simp_all add: collector_moves_def)
  obtain g where g: "gc (memory c1) = Some g"
    using c1(2) by (auto simp: nothing_to_do_def)
  have "\<exists>g'. pup_gc_period_start (memory c1) = Ret () ((memory c1)\<lparr>gc := Some g'\<rparr>) \<and>
      reference_queue_head g' = reference_queue_head g"
    using g
    by (intro exI [of _ "g\<lparr>garbage_count := 0, live_count := 0, live_mark_value := if live_mark_value g = 0 then 1 else 0\<rparr>"])
      (simp add: pup_gc_period_start_def with_gc_def set_live_mark_value_def)
  then obtain g' where "pup_gc_period_start (memory c1) = Ret () ((memory c1)\<lparr>gc := Some g'\<rparr>)"
      "reference_queue_head g' = reference_queue_head g"
    by blast
  with collector_moves_step [OF c1(1), of List_head "(memory c1)\<lparr>gc := Some g'\<rparr>"] c1(2) g
  obtain c2 where 2: "collector_moves c1 List_head c2"
    by (auto simp: nothing_to_do_def)
  have c2: "collector c2 = List_head" "nothing_to_do (memory c2)" "heap (memory c2) = heap (memory c)"
    using 2 c1 by (simp_all add: collector_moves_def)
  then obtain c3 where 3: "collector_moves c2 (Visit ti) c3"
    using collector_moves_step [OF c2(1), of "Visit ti" "memory c2"] T(1) by (auto simp: get_thread_list_head_def)
  have c3: "collector c3 = Visit ti" "nothing_to_do (memory c3)" "heap (memory c3) = heap (memory c)"
    using 3 c2 by (simp_all add: collector_moves_def)
  then obtain c4 where 4: "collector_moves c3 (Signal ti (tid T)) c4"
    using collector_moves_step [OF c3(1), of "Signal ti (tid T)" "memory c3"] T(2,3) by (auto simp: get_thread_def)
  show ?thesis
    using collector_moves_trans [OF 1 collector_moves_trans [OF 2 collector_moves_trans [OF 3 4]]] by blast
qed

lemma collector_to_sleep:
  assumes c: "collector c = Following ti" "nothing_to_do (memory c)"
    and T: "threads (heap (memory c)) ti = Some T" "threadinfo_next T = NULL"
  shows "\<exists>c'. collector_moves c Asleep c'"
proof -
  have stay: "\<exists>c2. collector_moves c1 pc' c2"
    if "collector c1 = pc" "nothing_to_do (memory c1)"
      "collector_step (\<lambda>_. True) (\<lambda>_. True) pc (memory c1) = Ret pc' (memory c1)" for c1 pc pc'
    by (rule collector_moves_step [OF that(1,3)]) (use that(2) in simp_all)
  have scan: "pup_gc_scan_heap s = Ret () s" if "nothing_to_do s" for s
    using that
    by (auto simp: nothing_to_do_def pup_gc_scan_heap_def scan_heap_loop.simps steal_segment_once)
  have sweep: "collect_unmarked_objects mp mu s = Ret () s" if "nothing_to_do s" for s mp mu
    using that steal_heap_region_once(1) [of s]
    by (simp add: nothing_to_do_def collect_unmarked_objects_def collect_loop.simps)
  have finish: "pup_gc_period_end s = Ret () s" if "nothing_to_do s" for s
    using that by (auto simp: nothing_to_do_def pup_gc_period_end_def)
  obtain c1 where 1: "collector_moves c (Visit NULL) c1"
    using stay [OF c] T by (auto simp: load_threadinfo_next_def)
  have c1: "collector c1 = Visit NULL" "nothing_to_do (memory c1)"
    using 1 by (simp_all add: collector_moves_def)
  obtain c2 where 2: "collector_moves c1 Scan c2"
    using stay [OF c1] by auto
  have c2: "collector c2 = Scan" "nothing_to_do (memory c2)"
    using 2 by (simp_all add: collector_moves_def)
  obtain c3 where 3: "collector_moves c2 Sweep c3"
    using stay [OF c2] scan [OF c2(2)] by auto
  have c3: "collector c3 = Sweep" "nothing_to_do (memory c3)"
    using 3 by (simp_all add: collector_moves_def)
  obtain c4 where 4: "collector_moves c3 Period_end c4"
    using stay [OF c3] sweep [OF c3(2)] by auto
  have c4: "collector c4 = Period_end" "nothing_to_do (memory c4)"
    using 4 by (simp_all add: collector_moves_def)
  obtain c5 where 5: "collector_moves c4 Asleep c5"
    using stay [OF c4] finish [OF c4(2)] by auto
  show ?thesis
    using collector_moves_trans [OF 1 collector_moves_trans [OF 2 collector_moves_trans [OF 3
      collector_moves_trans [OF 4 5]]]] by blast
qed

text \<open>The first cycle, with one thread on the list, up to its handshake.\<close>

lemma first_handshake:
  assumes "quiet s [ti]" and "nothing_to_do s" and "threads (heap s) ti = Some T"
  shows "\<exists>c T'. protocol_steps (protocol_start s) c \<and> collector c = Following ti \<and> nothing_to_do (memory c) \<and>
    mutator c (tid T) = Leaving ti \<and> info (memory c) (tid T) = ti \<and> threads (heap (memory c)) ti = Some T' \<and>
    threadinfo_next T' = NULL \<and> thread_list (heap (memory c)) = ti \<and> tid T' = tid T"
proof -
  define t where "t = tid T"
  have att: "attached s [ti]"
    using assms(1) by (simp add: quiet_def)
  have info: "info s t = ti"
    using att assms(3) by (auto simp: attached_def t_def)
  have T: "thread_list (heap s) = ti" "ti \<noteq> NULL"
    using att by (auto simp: attached_def)
  have inv: "protocol_inv c [ti]" if "protocol_steps (protocol_start s) c" for c
    by (rule protocol_reachable_inv [OF that assms(1)])
  obtain c1 where c1: "collector_moves (protocol_start s) (Signal ti t) c1"
    using collector_to_signal [of "protocol_start s"] assms(2,3) T by (auto simp: protocol_start_def t_def)
  let ?c2 = "c1\<lparr>collector := Meet ti, pending := insert t (pending c1)\<rparr>"
  have c2: "protocol_steps (protocol_start s) ?c2" "mutator ?c2 t = Running" "pending ?c2 = {t}"
      "nothing_to_do (memory ?c2)" "info (memory ?c2) t = ti"
    using c1 protocol_step.signal [of c1 ti t] info
    by (auto simp: collector_moves_def protocol_start_def info_def)
  obtain n c3 where c3: "(protocol_step ^^ n) ?c2 c3" "comes_to t ?c2 (Arriving ti) c3"
    using comes_from_pending [OF inv [OF c2(1)], of t] c2(2,3,5) by auto
  have s3: "protocol_steps (protocol_start s) c3"
    using c2(1) relpowp_imp_rtranclp [OF c3(1)] by simp
  obtain k where "(protocol_step ^^ k) c3 (met_at c3 t ti)"
    using they_meet [OF inv [OF s3], of t ti] c3(2) by (auto simp: comes_to_def)
  then have s4: "protocol_steps (protocol_start s) (met_at c3 t ti)"
    using s3 relpowp_imp_rtranclp by (metis rtranclp_trans)
  have c4: "collector (met_at c3 t ti) = Following ti" "nothing_to_do (memory (met_at c3 t ti))"
      "mutator (met_at c3 t ti) t = Leaving ti" "info (memory (met_at c3 t ti)) t = ti"
    using c2(4,5) c3(2) by (auto simp: met_at_def comes_to_def nothing_to_do_def)
  obtain T' where "threads (heap (memory (met_at c3 t ti))) ti = Some T'" "threadinfo_next T' = NULL"
      "thread_list (heap (memory (met_at c3 t ti))) = ti" "tid T' = t"
    using inv [OF s4] c4(4) by (auto simp: protocol_inv_def attached_def)
  with s4 c4 show ?thesis
    unfolding t_def by blast
qed

text \<open>
  The threads have attached, so that one thread is on the list, and there is no full region and no
  full segment: in the first cycle the handshake completes, and while the thread is still leaving
  the barrier the collector starts the next cycle and sends its signal, whose handler raises the
  flag that the thread then takes down.
\<close>

theorem signal_can_be_lost:
  assumes "quiet s [ti]" and "nothing_to_do s" and "threads (heap s) ti = Some T"
  shows "\<exists>c. protocol_steps (protocol_start s) c \<and> collector c = Meet ti \<and> signal_lost c (tid T) \<and>
    info (memory c) (tid T) = ti \<and> (\<forall>c'. protocol_steps c c' \<longrightarrow> meeting (collector c') = Some ti)"
proof -
  define t where "t = tid T"
  have inv: "protocol_inv c [ti]" if "protocol_steps (protocol_start s) c" for c
    by (rule protocol_reachable_inv [OF that assms(1)])
  have "ti \<noteq> NULL"
    using assms(1) by (auto simp: quiet_def attached_def)
  obtain c4 T' where s4: "protocol_steps (protocol_start s) c4"
    and c4: "collector c4 = Following ti" "nothing_to_do (memory c4)" "mutator c4 t = Leaving ti" "info (memory c4) t = ti"
    and T': "threads (heap (memory c4)) ti = Some T'" "threadinfo_next T' = NULL" "thread_list (heap (memory c4)) = ti"
      "tid T' = t"
    using first_handshake [OF assms] unfolding t_def by blast
  obtain c5 where c5: "collector_moves c4 Asleep c5"
    using collector_to_sleep [OF c4(1,2) T'(1,2)] by blast
  then have "collector c5 = Asleep" "nothing_to_do (memory c5)" "heap (memory c5) = heap (memory c4)"
    by (simp_all add: collector_moves_def)
  with collector_to_signal [of c5 ti T'] T' \<open>ti \<noteq> NULL\<close> obtain c6 where "collector_moves c5 (Signal ti t) c6"
    by auto
  with c5 have c6: "collector_moves c4 (Signal ti t) c6"
    by (rule collector_moves_trans)
  let ?c7 = "c6\<lparr>collector := Meet ti, pending := insert t (pending c6)\<rparr>"
  have c7: "protocol_steps (protocol_start s) ?c7" "mutator ?c7 t = Leaving ti" "info (memory ?c7) t = ti"
    using c6 protocol_step.signal [of c6 ti t] s4 c4(3,4)
    by (auto simp: collector_moves_def info_def)
  obtain s' where s': "protocol_step ?c7 (?c7\<lparr>memory := s', pending := pending ?c7 - {t}\<rparr>)"
    "info s' = info (memory ?c7)"
    using can_handle [OF inv [OF c7(1)], of t] by auto
  let ?c8 = "?c7\<lparr>memory := s', pending := pending ?c7 - {t}\<rparr>"
  have c8: "protocol_steps (protocol_start s) ?c8"
    using rtranclp.rtrancl_into_rtrancl [OF c7(1) s'(1)] .
  have lost: "signal_lost ?c8 t" "collector ?c8 = Meet ti"
    using c7(2) by (simp_all add: signal_lost_def)
  have "meeting (collector c') = Some ti" if "protocol_steps ?c8 c'" for c'
    using lost_for_ever [OF that inv [OF c8], of t] lost c7(3) s'(2) by simp
  moreover have "info (memory ?c8) t = ti"
    using s'(2) c7(3) by simp
  ultimately show ?thesis
    using c8 lost unfolding t_def by blast
qed

lemma first_cycle_scans:
  assumes "quiet s [ti]" and "nothing_to_do s" and "threads (heap s) ti = Some T"
  shows "\<exists>c. protocol_steps (protocol_start s) c \<and> collector c = Scan"
proof -
  obtain c T' where s: "protocol_steps (protocol_start s) c"
    and c: "collector c = Following ti" "nothing_to_do (memory c)"
    and T': "threads (heap (memory c)) ti = Some T'" "threadinfo_next T' = NULL"
    using first_handshake [OF assms] by blast
  obtain c1 where 1: "collector_moves c (Visit NULL) c1"
    using collector_moves_step [OF c(1), of "Visit NULL" "memory c"] c(2) T' by (auto simp: load_threadinfo_next_def)
  then have c1: "collector c1 = Visit NULL" "nothing_to_do (memory c1)"
    by (simp_all add: collector_moves_def)
  obtain c2 where "collector_moves c1 Scan c2"
    using collector_moves_step [OF c1(1), of Scan "memory c1"] c1(2) by auto
  with 1 have "collector_moves c Scan c2"
    by (rule collector_moves_trans)
  then have "protocol_steps c c2" "collector c2 = Scan"
    by (simp_all add: collector_moves_def)
  with s show ?thesis
    by (blast intro: rtranclp_trans)
qed

section \<open>A concrete process\<close>

lemma demo_gc_quiet:
  "quiet demo_gc [8192]" "nothing_to_do demo_gc" "\<exists>T. threads (heap demo_gc) 8192 = Some T"
  by (simp_all add: quiet_def attached_def info_def flag_def nothing_to_do_def demo_gc_def boot_eval)

lemma on_list_struct:
  assumes "quiet s tis" and "protocol_steps (protocol_start s) c" and "ti \<in> set tis"
  shows "\<exists>T. threads (heap (memory c)) ti = Some T"
  using protocol_reachable_inv [OF assms(2,1)] assms(3) by (auto simp: protocol_inv_def attached_def)



end
