(* ===== verification/Spec2Isabelle.thy ===== *)
theory Spec2Isabelle
  imports SymTable Leb128 Personality Runtime Heap Objects Classes Exceptions Dispatch Typing RefQueue GcMap Gc
    Collect Env Bootstrap Soundness Definedness Shared_Lists Kept Safepoint
    Handshake
begin

text \<open>
  The C runtime of the pup language.

  \<^bold>\<open>The program.\<close>  pup is a compiler for a Ruby-like language, written in Ruby, that produces LLVM code,
  and a runtime in C that the compiled code is linked with.  This development is about the runtime,
  and about the LLVM plugin in C++ that prints the tables its garbage collector reads.

  Compiled code runs in mutator threads.  It makes objects, strings, fixnums and classes
  (\<open>object.c\<close>, \<open>string.c\<close>, \<open>fixnum.c\<close>, \<open>class.c\<close>), all of which are blocks of the heap (\<open>heap.c\<close>); it names
  methods and variables by symbols (\<open>symtable.c\<close>); it calls methods by \<open>pup_invoke\<close> (\<open>object.c\<close>), which
  searches the method tables along the superclasses; and it raises exceptions (\<open>exception.c\<close>), which
  travel through the unwinder of the C library, whose questions the personality routine (\<open>raise.c\<close>)
  answers from tables that LLVM has put next to the code.  \<open>env.c\<close> makes the first classes and holds
  them for all others.  One further thread is the collector (\<open>gc.c\<close>, \<open>gc/refqueue.c\<close>, the rest of \<open>heap.c\<close>):
  it stops each mutator at a safe point, where the mutator reads the stack map of its frames that the
  plugin printed (\<open>gclib/lib/pupgcplugin/pupgcprinter.cpp\<close>) and queues the roots; it marks what they lead
  to, visits the objects in the regions that are full and frees those regions.

  \<^bold>\<open>How the code is modelled.\<close>  A C function that touches memory is a HOL function of the same name from a
  state to an \<open>outcome\<close> (theory \<open>Prelude\<close>): \<open>Ret\<close> a result and a new state, \<open>Raised\<close> an exception that left
  it, \<open>Aborted\<close> for \<open>abort\<close> and failed assertions, \<open>Exited\<close> for \<open>exit\<close>, \<open>Undef\<close> where C leaves the behaviour open (a read of
  memory that holds nothing, an int that overflows), \<open>Diverged\<close> where the recursion is deeper than the
  stack given.  Structs are records; a machine integer is a word of its width, and what C does to it
  at the edges (wrap-around, sign extension, truncation when it is passed on) is written out.  The
  memory is typed: one map from addresses to structs for each struct type, all of them fields of the
  record \<open>rt\<close> (theory \<open>Runtime\<close>), which also holds the state of heap, collector, symbol table and
  environment.  \<open>malloc\<close> and \<open>mmap\<close> take their answers, failures included, from tapes in the state, and
  what malloc leaves in a fresh block is part of its answer, so a member that the code does not
  initialise holds an arbitrary value.  A loop over a list in memory is a \<open>partial_function\<close>, a list
  that is a cycle makes it \<open>Diverged\<close>, and that a call returns is always part of what is proved.

  \<^bold>\<open>The theories\<close>, in the order in which they build on each other:

  \<^item> \<open>Prelude\<close>: outcomes, chains of nodes in memory, the slots that a pointer to a pointer goes through,
    retried compare-and-swaps, the malloc tape, and their rules.
  \<^item> \<open>SymTable\<close> (\<open>symtable.c\<close>): interning refines a list of strings; strings and symbols are inverse to
    each other; destruction frees each entry once.
  \<^item> \<open>Leb128\<close>, \<open>Personality\<close> (\<open>raise.c\<close>, \<open>dwarf.h\<close>): the readers of variable-length integers and encoded
    pointers against encoders, with the range in which they are right; the exception header, action
    records, call sites and the personality routine, on bytes; that the search phase and the cleanup
    phase agree on the handler.
  \<^item> \<open>Runtime\<close>: the records above and the enumerations of function pointers (method bodies, hooks).
  \<^item> \<open>Heap\<close> (\<open>heap.c\<close>, allocation): regions of one megabyte, a bump pointer in each, attachment of
    threads.  \<open>heap_wf\<close> says that blocks, regions, malloc'ed structs and what the tapes have left do not
    overlap; every operation keeps it, and allocation answers with a fresh block.
  \<^item> \<open>Objects\<close> (\<open>object.c\<close>): header, attribute list, references, marks, text.
  \<^item> \<open>Classes\<close> (\<open>class.c\<close>): method tables, superclasses, constants, new classes.
  \<^item> \<open>Exceptions\<close> (\<open>string.c\<close>, \<open>exception.c\<close>, \<open>runtime.c\<close>, \<open>pup_raise\<close> of \<open>raise.c\<close>): strings, errors, their
    messages.
  \<^item> \<open>Dispatch\<close> (\<open>object.c\<close>, \<open>fixnum.c\<close>, the built-in methods of the other files): \<open>pup_invoke\<close>.
  \<^item> \<open>Typing\<close>: when the heap is typed, that is, every object has a class whose hook makes structs of its
    shape and every reference is \<open>NULL\<close> or to an object; that each operation and each method keeps it typed and
    keeps the class and the value of every object.
  \<^item> \<open>RefQueue\<close>, \<open>Gc\<close>, \<open>GcMap\<close> (\<open>gc/refqueue.c\<close>, \<open>gc.c\<close>, \<open>pupgcprinter.cpp\<close>): the queue of references, marking,
    the copying functions, stack maps from the printer to the reader.
  \<^item> \<open>Collect\<close> (\<open>heap.c\<close>, the destroy hooks): collecting full regions, destroying the heap.
  \<^item> \<open>Env\<close>, \<open>Bootstrap\<close> (\<open>env.c\<close>, \<open>pup_heap_init\<close>): start and end of a process, and that the start makes the
    nine classes with all their methods, hooks and constants, in a typed heap.
  \<^item> \<open>Soundness\<close>: dispatch keeps a booted runtime typed, whatever it calls; and what types do not rule
    out, the methods of \<open>Fixnum\<close> on instances of a subclass.
  \<^item> \<open>Definedness\<close>: with memory to be had, which calls of the built-in methods are undefined behaviour, and
    that all others are not and come to an end; for each function of the runtime, how many allocations
    that takes (\<open>defined\<close>).
  \<^item> \<open>Shared_Lists\<close> (\<open>heap.c\<close>, \<open>gc.c\<close>): the loops around a compare-and-swap of any number of threads, one
    access to memory at a time.
  \<^item> \<open>Kept\<close>, \<open>Safepoint\<close>, \<open>Handshake\<close> (\<open>heap.c\<close>, \<open>gc.c\<close>): the protocol that stops the mutators, as a step
    relation over the collector and any number of mutators; its invariant; that a cycle sees all threads,
    and when the handshake with a thread comes to its end.

  \<^bold>\<open>Interfaces.\<close>  Where one component relies on another, what it relies on is a locale that the provider
  interprets: \<open>interner\<close> (\<open>SymTable\<close>), \<open>allocator\<close> (\<open>Heap\<close>), \<open>attribute_store\<close> (\<open>Objects\<close>),
  \<open>method_tables\<close> (\<open>Classes\<close>), \<open>work_list\<close> (\<open>RefQueue\<close>), \<open>block_visitor\<close> (\<open>Collect\<close>, once for destroying and
  once for collecting) and \<open>shared_stack\<close> (\<open>Shared_Lists\<close>, once for the full regions and once for the full
  segments).  For the operations that later proofs run one after another there is a predicate
  on the state before and after, named \<open>..._step\<close> (\<open>alloc_step\<close>, \<open>obj_step\<close>, \<open>attr_step\<close>, \<open>method_step\<close>,
  \<open>sym_step\<close>, \<open>str_step\<close>, \<open>queue_step\<close>): the invariant holds after it, what it changes is written out, all
  else is equal, and it takes at most so many answers of malloc and so much of the heap.

  \<^bold>\<open>Bounds.\<close>  \<open>answers n s\<close> says that malloc has \<open>n\<close> more answers and that none is a failure; \<open>plenty n s\<close>
  that besides the heap has room for \<open>n\<close> of the largest blocks, counted by \<open>spare\<close>: the rest of the
  region in use and one for each further region that mmap will give.  An allocation takes one of each at most, so
  that \<open>plenty n\<close> rules an abort out for \<open>n\<close> allocations; the bootstrap needs 65 answers, 3 of them for
  the heap, and its heap fits in the first region; no built-in method takes more than 9.  Marking needs as many answers as unmarked objects have
  references (\<open>pending\<close>), at most.  \<open>pup_invoke\<close> recurses through compiled code; its model takes the depth of
  the C stack as an argument, and a call that gives any result at some depth gives the same at every
  greater depth, so the depth is no more than the claim that the stack did not overflow; two levels
  are enough for all that the bootstrap and the creation of a class do.  The push of
  \<open>heap.c\<close> aborts after 1000 failed swaps: that is the one way in which the shared lists can go wrong.
  Addresses of user space are below \<open>2 ^ 47\<close>, symbols are ints, so that no more than \<open>2 ^ 31 - 2\<close> are
  interned.

  \<^bold>\<open>Parameters\<close>, code that is not in the repository: the results of the pthread, signal, dl and mmap calls
  (\<open>os_results\<close> and arguments of the functions), the unwinder, which appears as the frames it
  visits and the registers it reports, the assembly printer of LLVM, which is a record of the four
  functions the plugin calls with the hypothesis that it puts bytes down in order (\<open>assembles\<close>), \<open>dlsym\<close>, which
  finds the symbols of the section so printed (\<open>loaded\<close>), and the compiled methods (\<open>compiled\<close>), which are any
  functions that only use the dispatcher they are given (\<open>stack_uniform\<close>) and keep the types when it does
  (\<open>code_typed\<close>).

  \<^bold>\<open>Not modelled.\<close>  The compiler, which is Ruby and rests on a third-party binding of LLVM; the test
  programs; messages to stderr and the debug output; the walk of the unwinder over the stack; the constants of \<open>dwarf.h\<close>
  that no code uses.  Between two accesses to shared memory a thread of \<open>Safepoint\<close> runs
  without interruption, and memory is sequentially consistent.  The functions that would copy live
  objects are modelled as far as they are written; the collector never gets to them, since
  \<open>copy_live_object\<close> is empty in the code, so that the live objects of a full region are lost with it.
\<close>

end
